(* ===== verification/Prelude.thy ===== *)
theory Prelude
  imports Main "HOL-Library.Word"
begin

text \<open>
  Shared ground of the development: the machine types of the Rust source, byte-string
  literals, the parts of \<^verbatim>\<open>core\<close> and \<^verbatim>\<open>std\<close> the source calls (ASCII predicates,
  \<^verbatim>\<open>Iterator::position\<close>, \<^verbatim>\<open>slice::split\<close>, \<^verbatim>\<open>slice::windows\<close>, checked arithmetic,
  decimal rendering, \<^verbatim>\<open>Result\<close> with its \<^verbatim>\<open>?\<close> operator), and the generic lemmas on
  them that the component theories use.
\<close>

unbundle bit_operations_syntax

section \<open>Machine types\<close>

text \<open>
  \<^verbatim>\<open>u8\<close>, \<^verbatim>\<open>u16\<close>, \<^verbatim>\<open>u32\<close>, \<^verbatim>\<open>u64\<close> are words of their width. \<^verbatim>\<open>usize\<close> counts bytes of
  buffers that exist, so it is \<open>nat\<close>; where the source converts between \<^verbatim>\<open>u64\<close> and
  \<^verbatim>\<open>usize\<close> the conversion is written out for a 64-bit target. A borrowed \<^verbatim>\<open>&[u8]\<close> is
  its contents.
\<close>

type_synonym u8 = "8 word"
type_synonym u16 = "16 word"
type_synonym u32 = "32 word"
type_synonym u64 = "64 word"
type_synonym usize = nat
type_synonym bytes = "u8 list"

text \<open>Byte-string literals: \<^verbatim>\<open>b"GET"\<close> is \<open>bs ''GET''\<close>.\<close>

definition bs :: "string \<Rightarrow> bytes" where
  "bs s = map of_char s"

abbreviation HTAB :: u8 where "HTAB \<equiv> 0x09"
abbreviation LF :: u8 where "LF \<equiv> 0x0A"
abbreviation CR :: u8 where "CR \<equiv> 0x0D"
abbreviation SP :: u8 where "SP \<equiv> 0x20"
abbreviation DQUOTE :: u8 where "DQUOTE \<equiv> 0x22"
abbreviation HASH :: u8 where "HASH \<equiv> 0x23"
abbreviation PERCENT :: u8 where "PERCENT \<equiv> 0x25"
abbreviation COMMA :: u8 where "COMMA \<equiv> 0x2C"
abbreviation DOT :: u8 where "DOT \<equiv> 0x2E"
abbreviation SLASH :: u8 where "SLASH \<equiv> 0x2F"
abbreviation COLON :: u8 where "COLON \<equiv> 0x3A"
abbreviation SEMICOLON :: u8 where "SEMICOLON \<equiv> 0x3B"
abbreviation EQUALS :: u8 where "EQUALS \<equiv> 0x3D"
abbreviation QUESTION :: u8 where "QUESTION \<equiv> 0x3F"
abbreviation AT_SIGN :: u8 where "AT_SIGN \<equiv> 0x40"
abbreviation LBRACKET :: u8 where "LBRACKET \<equiv> 0x5B"
abbreviation BACKSLASH :: u8 where "BACKSLASH \<equiv> 0x5C"
abbreviation RBRACKET :: u8 where "RBRACKET \<equiv> 0x5D"
abbreviation DEL :: u8 where "DEL \<equiv> 0x7F"
abbreviation AMPERSAND :: u8 where "AMPERSAND \<equiv> 0x26"
abbreviation DIGIT0 :: u8 where "DIGIT0 \<equiv> 0x30"

abbreviation CRLF :: bytes where "CRLF \<equiv> [CR, LF]"

section \<open>ASCII predicates of the standard library\<close>

definition is_ascii_digit :: "u8 \<Rightarrow> bool" where
  "is_ascii_digit b = (0x30 \<le> b \<and> b \<le> 0x39)"

definition is_ascii_lowercase :: "u8 \<Rightarrow> bool" where
  "is_ascii_lowercase b = (0x61 \<le> b \<and> b \<le> 0x7A)"

definition is_ascii_uppercase :: "u8 \<Rightarrow> bool" where
  "is_ascii_uppercase b = (0x41 \<le> b \<and> b \<le> 0x5A)"

definition is_ascii_alphabetic :: "u8 \<Rightarrow> bool" where
  "is_ascii_alphabetic b = (is_ascii_lowercase b \<or> is_ascii_uppercase b)"

definition is_ascii_alphanumeric :: "u8 \<Rightarrow> bool" where
  "is_ascii_alphanumeric b = (is_ascii_alphabetic b \<or> is_ascii_digit b)"

definition is_ascii_hexdigit :: "u8 \<Rightarrow> bool" where
  "is_ascii_hexdigit b =
     (is_ascii_digit b \<or> (0x61 \<le> b \<and> b \<le> 0x66) \<or> (0x41 \<le> b \<and> b \<le> 0x46))"

definition to_ascii_lowercase :: "u8 \<Rightarrow> u8" where
  "to_ascii_lowercase b = (if is_ascii_uppercase b then b + 0x20 else b)"

section \<open>Results and the \<open>?\<close> operator\<close>

text \<open>\<open>res_bind r f\<close> is \<^verbatim>\<open>f(r?)\<close>: an error returns at once, a value is passed on.\<close>

fun res_bind :: "'e + 'a \<Rightarrow> ('a \<Rightarrow> 'e + 'b) \<Rightarrow> 'e + 'b" where
  "res_bind (Inl e) f = Inl e"
| "res_bind (Inr x) f = f x"

text \<open>\<open>ok_or o e\<close> is \<^verbatim>\<open>o.ok_or(e)\<close>.\<close>

fun ok_or :: "'a option \<Rightarrow> 'e \<Rightarrow> 'e + 'a" where
  "ok_or None e = Inl e"
| "ok_or (Some x) e = Inr x"

fun map_err :: "('e \<Rightarrow> 'f) \<Rightarrow> 'e + 'a \<Rightarrow> 'f + 'a" where
  "map_err f (Inl e) = Inl (f e)"
| "map_err f (Inr x) = Inr x"

section \<open>Slices\<close>

text \<open>\<open>slice xs a b\<close> is \<^verbatim>\<open>&xs[a..b]\<close> for indices in range.\<close>

definition slice :: "'a list \<Rightarrow> nat \<Rightarrow> nat \<Rightarrow> 'a list" where
  "slice xs a b = take (b - a) (drop a xs)"

text \<open>\<^verbatim>\<open>iter().position(p)\<close> and \<^verbatim>\<open>iter().rposition(p)\<close>.\<close>

fun position :: "('a \<Rightarrow> bool) \<Rightarrow> 'a list \<Rightarrow> nat option" where
  "position p [] = None"
| "position p (x # xs) = (if p x then Some 0 else map_option Suc (position p xs))"

definition rposition :: "('a \<Rightarrow> bool) \<Rightarrow> 'a list \<Rightarrow> nat option" where
  "rposition p xs = map_option (\<lambda>i. length xs - 1 - i) (position p (rev xs))"

text \<open>\<^verbatim>\<open>slice::split(p)\<close>: the pieces between separators, never an empty list of pieces.\<close>

fun split_on :: "('a \<Rightarrow> bool) \<Rightarrow> 'a list \<Rightarrow> 'a list list" where
  "split_on p [] = [[]]"
| "split_on p (x # xs) =
     (if p x then [] # split_on p xs
      else (case split_on p xs of [] \<Rightarrow> [[x]] | y # ys \<Rightarrow> (x # y) # ys))"

text \<open>The inverse of \<open>split_on\<close> for one separator.\<close>

fun join_with :: "'a \<Rightarrow> 'a list list \<Rightarrow> 'a list" where
  "join_with s [] = []"
| "join_with s [x] = x"
| "join_with s (x # y # ys) = x @ s # join_with s (y # ys)"

text \<open>\<^verbatim>\<open>slice::windows(n)\<close> for a positive \<^verbatim>\<open>n\<close>.\<close>

definition windows :: "nat \<Rightarrow> 'a list \<Rightarrow> 'a list list" where
  "windows n xs = map (\<lambda>i. take n (drop i xs)) [0..<length xs + 1 - n]"

definition starts_with :: "'a list \<Rightarrow> 'a list \<Rightarrow> bool" where
  "starts_with xs ys = (take (length ys) xs = ys)"

section \<open>Checked and wrapping arithmetic\<close>

definition checked_mul :: "'a::len word \<Rightarrow> 'a word \<Rightarrow> 'a word option" where
  "checked_mul a b = (if uint a * uint b < 2 ^ LENGTH('a) then Some (a * b) else None)"

definition checked_add :: "'a::len word \<Rightarrow> 'a word \<Rightarrow> 'a word option" where
  "checked_add a b = (if uint a + uint b < 2 ^ LENGTH('a) then Some (a + b) else None)"

text \<open>\<^verbatim>\<open>usize::try_from(u64)\<close>, \<^verbatim>\<open>u32::try_from(usize)\<close> on a 64-bit target.\<close>

definition usize_try_from :: "u64 \<Rightarrow> usize option" where
  "usize_try_from v = (if uint v < 2 ^ 64 then Some (unat v) else None)"

definition u32_try_from :: "usize \<Rightarrow> u32 option" where
  "u32_try_from n = (if int n < 2 ^ 32 then Some (of_nat n) else None)"

text \<open>\<^verbatim>\<open>n.to_string().as_bytes()\<close> for an unsigned integer.\<close>

fun to_decimal :: "nat \<Rightarrow> bytes" where
  "to_decimal n =
     (if n < 10 then [DIGIT0 + of_nat n] else to_decimal (n div 10) @ [DIGIT0 + of_nat (n mod 10)])"

declare to_decimal.simps [simp del]

section \<open>Shared lemmas\<close>

text \<open>
  \<open>res_simps\<close> unfolds a chain of \<^verbatim>\<open>?\<close> operators; \<open>byte_defs\<close> collects the byte
  predicates, so that a fact on every byte is decided by \<open>all_bytes\<close> and evaluation.
\<close>

named_theorems res_simps
named_theorems byte_defs

lemma res_bind_Inr_iff [res_simps]:
  "res_bind r f = Inr y \<longleftrightarrow> (\<exists>x. r = Inr x \<and> f x = Inr y)"
  by (cases r) auto

lemma res_bind_Inl_iff [res_simps]:
  "res_bind r f = Inl e \<longleftrightarrow> r = Inl e \<or> (\<exists>x. r = Inr x \<and> f x = Inl e)"
  by (cases r) auto

lemma ok_or_Inr_iff [res_simps]: "ok_or r e = Inr x \<longleftrightarrow> r = Some x"
  by (cases r) auto

lemma ok_or_Inl_iff [res_simps]: "ok_or r e = Inl e' \<longleftrightarrow> r = None \<and> e' = e"
  by (cases r) auto

lemma map_err_Inr_iff [res_simps]: "map_err f r = Inr x \<longleftrightarrow> r = Inr x"
  by (cases r) auto

lemma map_err_Inl_iff [res_simps]: "map_err f r = Inl e \<longleftrightarrow> (\<exists>d. r = Inl d \<and> e = f d)"
  by (cases r) auto

lemma checked_mul_nat:
  "checked_mul (a :: 'a::len word) b =
     (if unat a * unat b < 2 ^ LENGTH('a) then Some (a * b) else None)"
proof -
  have "uint a * uint b = int (unat a * unat b)" by simp
  then have "uint a * uint b < 2 ^ LENGTH('a) \<longleftrightarrow> int (unat a * unat b) < int (2 ^ LENGTH('a))"
    by simp
  then show ?thesis unfolding checked_mul_def by (simp only: of_nat_less_iff)
qed

lemma checked_add_nat:
  "checked_add (a :: 'a::len word) b =
     (if unat a + unat b < 2 ^ LENGTH('a) then Some (a + b) else None)"
proof -
  have "uint a + uint b = int (unat a + unat b)" by simp
  then have "uint a + uint b < 2 ^ LENGTH('a) \<longleftrightarrow> int (unat a + unat b) < int (2 ^ LENGTH('a))"
    by simp
  then show ?thesis unfolding checked_add_def by (simp only: of_nat_less_iff)
qed

lemma usize_try_from_u64 [simp]: "usize_try_from v = Some (unat v)"
proof -
  have "uint v < 2 ^ LENGTH(64)" by (rule unsigned_less)
  then show ?thesis by (simp add: usize_try_from_def)
qed

lemma all_bytes: "(\<forall>b::u8. P b) \<longleftrightarrow> (\<forall>n\<in>set [0..<256]. P (of_nat n))"
proof
  assume "\<forall>b. P b"
  then show "\<forall>n\<in>set [0..<256]. P (of_nat n)" by simp
next
  assume h: "\<forall>n\<in>set [0..<256]. P (of_nat n)"
  show "\<forall>b. P b"
  proof
    fix b :: u8
    have "unat b \<in> set [0..<256]" using unsigned_less [of b] by simp
    with h have "P (of_nat (unat b))" by (rule bspec)
    then show "P b" by simp
  qed
qed

lemma unat_u8_less [simp]: "unat (b :: u8) < 256"
  using unsigned_less [of b] by simp

subsection \<open>Positions\<close>

lemma position_Some_iff:
  "position p xs = Some i \<longleftrightarrow> i < length xs \<and> p (xs ! i) \<and> (\<forall>j<i. \<not> p (xs ! j))"
proof (induction xs arbitrary: i)
  case Nil
  then show ?case by simp
next
  case (Cons x xs)
  then show ?case by (cases i) (auto simp: less_Suc_eq_0_disj)
qed

lemma position_None_iff: "position p xs = None \<longleftrightarrow> (\<forall>x\<in>set xs. \<not> p x)"
  by (induction xs) auto

lemma position_less: "position p xs = Some i \<Longrightarrow> i < length xs"
  by (simp add: position_Some_iff)

lemma position_append:
  "position p (xs @ ys) =
     (case position p xs of Some i \<Rightarrow> Some i
      | None \<Rightarrow> map_option (\<lambda>i. length xs + i) (position p ys))"
proof (induction xs)
  case Nil
  show ?case by (cases "position p ys") auto
next
  case (Cons x xs)
  then show ?case by (cases "position p ys") (auto split: option.splits)
qed

lemma position_take_clean:
  "position p xs = Some i \<Longrightarrow> x \<in> set (take i xs) \<Longrightarrow> \<not> p x"
  by (auto simp: position_Some_iff in_set_conv_nth)

lemma position_takeWhile:
  "position p xs = Some i \<Longrightarrow> takeWhile (\<lambda>x. \<not> p x) xs = take i xs"
  by (induction xs arbitrary: i) (auto split: if_splits)

lemma position_dropWhile:
  "position p xs = Some i \<Longrightarrow> dropWhile (\<lambda>x. \<not> p x) xs = drop i xs"
  by (induction xs arbitrary: i) (auto split: if_splits)

lemma rposition_Some_iff:
  "rposition p xs = Some i \<longleftrightarrow>
     i < length xs \<and> p (xs ! i) \<and> (\<forall>j. i < j \<and> j < length xs \<longrightarrow> \<not> p (xs ! j))"
  (is "?L \<longleftrightarrow> ?R")
proof
  assume ?L
  then obtain k where k: "position p (rev xs) = Some k" and i: "i = length xs - 1 - k"
    by (auto simp: rposition_def)
  from k have "k < length xs" and "p (rev xs ! k)" and min: "\<forall>j<k. \<not> p (rev xs ! j)"
    by (auto simp: position_Some_iff)
  moreover have "\<not> p (xs ! j)" if "i < j" "j < length xs" for j
  proof -
    let ?m = "length xs - 1 - j"
    from that i \<open>k < length xs\<close> have "?m < k" by simp
    with min have "\<not> p (rev xs ! ?m)" by simp
    moreover from that have "rev xs ! ?m = xs ! j" by (simp add: rev_nth)
    ultimately show ?thesis by simp
  qed
  ultimately show ?R using i by (auto simp: rev_nth)
next
  assume R: ?R
  let ?k = "length xs - 1 - i"
  have "position p (rev xs) = Some ?k"
    unfolding position_Some_iff
  proof (intro conjI allI impI)
    fix j assume "j < ?k"
    then have "i < length xs - Suc j" "length xs - Suc j < length xs" by simp_all
    with R have "\<not> p (xs ! (length xs - Suc j))" by blast
    then show "\<not> p (rev xs ! j)" using \<open>j < ?k\<close> by (simp add: rev_nth)
  qed (use R in \<open>auto simp: rev_nth\<close>)
  then show ?L using R by (auto simp: rposition_def)
qed

subsection \<open>Splitting, joining and windows\<close>

lemma split_on_not_Nil [simp]: "split_on p xs \<noteq> []"
  by (induction xs) (auto split: list.splits)

lemma split_on_no_sep: "\<forall>x\<in>set xs. \<not> p x \<Longrightarrow> split_on p xs = [xs]"
  by (induction xs) auto

lemma split_on_sep: "\<forall>x\<in>set xs. \<not> p x \<Longrightarrow> p s \<Longrightarrow> split_on p (xs @ s # ys) = xs # split_on p ys"
  by (induction xs) auto

lemma join_with_Cons: "ys \<noteq> [] \<Longrightarrow> join_with s (x # ys) = x @ s # join_with s ys"
  by (cases ys) auto

lemma join_split_on [simp]: "join_with s (split_on (\<lambda>b. b = s) xs) = xs"
proof (induction xs)
  case (Cons x xs)
  then show ?case
    by (cases "split_on (\<lambda>b. b = s) xs") (auto simp: join_with_Cons, cases "tl (split_on (\<lambda>b. b = s) xs)", auto)
qed simp

lemma split_on_clean: "g \<in> set (split_on p xs) \<Longrightarrow> x \<in> set g \<Longrightarrow> \<not> p x"
  by (induction xs arbitrary: g) (force split: list.splits if_splits)+

lemma split_on_join:
  "gs \<noteq> [] \<Longrightarrow> \<forall>g\<in>set gs. s \<notin> set g \<Longrightarrow> split_on (\<lambda>b. b = s) (join_with s gs) = gs"
proof (induction gs)
  case (Cons g gs)
  then show ?case
  proof (cases "gs = []")
    case True
    then show ?thesis using Cons.prems by (auto intro: split_on_no_sep)
  next
    case False
    have "split_on (\<lambda>b. b = s) (g @ s # join_with s gs) = g # split_on (\<lambda>b. b = s) (join_with s gs)"
      using Cons.prems by (intro split_on_sep) auto
    then show ?thesis using Cons False by (simp add: join_with_Cons)
  qed
qed simp

lemma join_with_append:
  "xs \<noteq> [] \<Longrightarrow> ys \<noteq> [] \<Longrightarrow> join_with s (xs @ ys) = join_with s xs @ s # join_with s ys"
  by (induction s xs rule: join_with.induct) (auto simp: join_with_Cons)

lemma position_windows_simps:
  "position (\<lambda>w. w = [a, b]) (windows 2 []) = None"
  "position (\<lambda>w. w = [a, b]) (windows 2 [x]) = None"
  "position (\<lambda>w. w = [a, b]) (windows 2 (x # y # xs)) =
     (if x = a \<and> y = b then Some 0 else map_option Suc (position (\<lambda>w. w = [a, b]) (windows 2 (y # xs))))"
proof -
  have "windows 2 (x # y # xs) = [x, y] # windows 2 (y # xs)"
    by (simp add: windows_def upt_conv_Cons map_Suc_upt [symmetric] del: upt_Suc map_Suc_upt)
  then show "position (\<lambda>w. w = [a, b]) (windows 2 (x # y # xs)) =
     (if x = a \<and> y = b then Some 0 else map_option Suc (position (\<lambda>w. w = [a, b]) (windows 2 (y # xs))))"
    by simp
qed (simp_all add: windows_def)

lemma position_windows_Some:
  "position (\<lambda>w. w = needle) (windows (length needle) xs) = Some i \<Longrightarrow>
   xs = take i xs @ needle @ drop (i + length needle) xs"
proof -
  assume "position (\<lambda>w. w = needle) (windows (length needle) xs) = Some i"
  then have "take (length needle) (drop i xs) = needle"
    by (auto simp: position_Some_iff windows_def)
  then show ?thesis by (metis add.commute append_take_drop_id drop_drop)
qed

end
