(* ===== verification/Bytes.thy ===== *)
theory Bytes
  imports Prelude
begin

text \<open>
  \<^verbatim>\<open>xibalba-proto/src/bytes.rs\<close>: the byte-slice helpers every parser of the crate goes
  through. Each operation is translated as written and related to a reference definition:
  case-insensitive equality to equality of lower-cased strings, trimming to dropping
  whitespace from both ends, \<^verbatim>\<open>parse_u64\<close> to the value of a decimal numeral with the
  overflow of \<^verbatim>\<open>u64\<close>, substring search to the first occurrence.
\<close>

section \<open>Definitions\<close>

text \<open>The two-letter comparison of \<^verbatim>\<open>ascii_eq_ignore_case\<close>, with its \<^verbatim>\<open>| 0x20\<close> bit trick.\<close>

definition byte_eq_ignore_case :: "u8 \<Rightarrow> u8 \<Rightarrow> bool" where
  "byte_eq_ignore_case x y =
     (if x = y then True
      else let xl = x OR 0x20; yl = y OR 0x20 in xl = yl \<and> is_ascii_lowercase xl)"

definition ascii_eq_ignore_case :: "bytes \<Rightarrow> bytes \<Rightarrow> bool" where
  "ascii_eq_ignore_case self other =
     (if length self \<noteq> length other then False
      else list_all (\<lambda>(x, y). byte_eq_ignore_case x y) (zip self other))"

definition is_ows :: "u8 \<Rightarrow> bool" where
  "is_ows b = (b = SP \<or> b = HTAB)"

definition trim_ows :: "bytes \<Rightarrow> bytes" where
  "trim_ows self =
     (let start = (case position (\<lambda>b. b \<noteq> SP \<and> b \<noteq> HTAB) self of
                     None \<Rightarrow> length self | Some i \<Rightarrow> i);
          finish = (case rposition (\<lambda>b. b \<noteq> SP \<and> b \<noteq> HTAB) self of
                      None \<Rightarrow> start | Some p \<Rightarrow> p + 1)
      in slice self start finish)"

fun parse_u64_loop :: "bytes \<Rightarrow> u64 \<Rightarrow> u64 option" where
  "parse_u64_loop [] result = Some result"
| "parse_u64_loop (b # bytes) result =
     (let digit = b - DIGIT0 in
      if digit > 9 then None
      else case checked_mul result 10 of
             None \<Rightarrow> None
           | Some v \<Rightarrow> (case checked_add v (ucast digit) of
                          None \<Rightarrow> None
                        | Some v' \<Rightarrow> parse_u64_loop bytes v'))"

definition parse_u64 :: "bytes \<Rightarrow> u64 option" where
  "parse_u64 self =
     (let bytes = trim_ows self in if bytes = [] then None else parse_u64_loop bytes 0)"

definition contains_token_ignore_case :: "bytes \<Rightarrow> bytes \<Rightarrow> bool" where
  "contains_token_ignore_case self token =
     list_ex (\<lambda>part. ascii_eq_ignore_case (trim_ows part) token) (split_on (\<lambda>b. b = COMMA) self)"

definition find_subsequence :: "bytes \<Rightarrow> bytes \<Rightarrow> usize option" where
  "find_subsequence self needle =
     (if needle = [] then Some 0
      else position (\<lambda>w. w = needle) (windows (length needle) self))"

definition find_crlf :: "bytes \<Rightarrow> usize option" where
  "find_crlf self = find_subsequence self CRLF"

text \<open>Reference definitions.\<close>

definition lower_bytes :: "bytes \<Rightarrow> bytes" where
  "lower_bytes xs = map to_ascii_lowercase xs"

definition digit_value :: "u8 \<Rightarrow> nat" where
  "digit_value b = unat (b - DIGIT0)"

definition decimal_value :: "bytes \<Rightarrow> nat" where
  "decimal_value xs = foldl (\<lambda>acc b. acc * 10 + digit_value b) 0 xs"

section \<open>Case-insensitive comparison\<close>

lemma or_20_lower: "is_ascii_lowercase (b OR 0x20) \<Longrightarrow> to_ascii_lowercase b = b OR 0x20"
proof -
  have "\<forall>b. is_ascii_lowercase (b OR 0x20) \<longrightarrow> to_ascii_lowercase b = b OR 0x20"
    unfolding all_bytes by code_simp
  then show "is_ascii_lowercase (b OR 0x20) \<Longrightarrow> to_ascii_lowercase b = b OR 0x20" by blast
qed

lemma or_20_not_lower: "\<not> is_ascii_lowercase (b OR 0x20) \<Longrightarrow> to_ascii_lowercase b = b"
proof -
  have "\<forall>b. \<not> is_ascii_lowercase (b OR 0x20) \<longrightarrow> to_ascii_lowercase b = b"
    unfolding all_bytes by code_simp
  then show "\<not> is_ascii_lowercase (b OR 0x20) \<Longrightarrow> to_ascii_lowercase b = b" by blast
qed

lemma lower_or_20: "is_ascii_lowercase (to_ascii_lowercase b) = is_ascii_lowercase (b OR 0x20)"
proof -
  have "\<forall>b. is_ascii_lowercase (to_ascii_lowercase b) = is_ascii_lowercase (b OR 0x20)"
    unfolding all_bytes by code_simp
  then show ?thesis by blast
qed

lemma byte_eq_ignore_case_iff:
  "byte_eq_ignore_case x y \<longleftrightarrow> to_ascii_lowercase x = to_ascii_lowercase y"
proof (cases "is_ascii_lowercase (x OR 0x20)")
  case True
  then have x: "to_ascii_lowercase x = x OR 0x20" by (rule or_20_lower)
  show ?thesis
  proof (cases "is_ascii_lowercase (y OR 0x20)")
    case True
    then show ?thesis using x or_20_lower [OF True] by (auto simp: byte_eq_ignore_case_def Let_def)
  next
    case False
    then show ?thesis using True lower_or_20 [of x] lower_or_20 [of y]
      by (auto simp: byte_eq_ignore_case_def Let_def)
  qed
next
  case False
  then have "byte_eq_ignore_case x y \<longleftrightarrow> x = y" by (auto simp: byte_eq_ignore_case_def Let_def)
  also have "\<dots> \<longleftrightarrow> to_ascii_lowercase x = to_ascii_lowercase y"
    using False or_20_not_lower [OF False] or_20_not_lower [of y] lower_or_20 [of x] lower_or_20 [of y]
    by metis
  finally show ?thesis .
qed

lemma ascii_eq_ignore_case_iff:
  "ascii_eq_ignore_case a b \<longleftrightarrow> lower_bytes a = lower_bytes b"
proof (cases "length a = length b")
  case True
  then show ?thesis
    by (induction a b rule: list_induct2)
      (auto simp: ascii_eq_ignore_case_def lower_bytes_def byte_eq_ignore_case_iff)
next
  case False
  then show ?thesis
    by (auto simp: ascii_eq_ignore_case_def lower_bytes_def dest: map_eq_imp_length_eq)
qed

lemma ascii_eq_refl [simp]: "ascii_eq_ignore_case a a"
  by (simp add: ascii_eq_ignore_case_iff)

lemma ascii_eq_sym: "ascii_eq_ignore_case a b = ascii_eq_ignore_case b a"
  by (auto simp: ascii_eq_ignore_case_iff)

lemma ascii_eq_trans:
  "ascii_eq_ignore_case a b \<Longrightarrow> ascii_eq_ignore_case b c \<Longrightarrow> ascii_eq_ignore_case a c"
  by (simp add: ascii_eq_ignore_case_iff)

section \<open>Trimming\<close>

lemma trim_ows_dropWhile:
  "trim_ows xs = rev (dropWhile is_ows (rev (dropWhile is_ows xs)))"
proof (cases "position (\<lambda>b. b \<noteq> SP \<and> b \<noteq> HTAB) xs")
  case None
  then have "\<forall>b\<in>set xs. is_ows b" by (auto simp: position_None_iff is_ows_def)
  then have e: "dropWhile is_ows xs = []" by simp
  have "position (\<lambda>b. b \<noteq> SP \<and> b \<noteq> HTAB) (rev xs) = None"
    using None by (simp add: position_None_iff)
  with None have "trim_ows xs = []"
    by (simp add: trim_ows_def Let_def slice_def rposition_def)
  then show ?thesis unfolding e by simp
next
  case (Some i)
  let ?p = "\<lambda>b. b \<noteq> SP \<and> b \<noteq> HTAB"
  have np: "(\<lambda>b. b = SP \<or> b = HTAB) = is_ows" by (auto simp: is_ows_def)
  from Some have d: "dropWhile is_ows xs = drop i xs"
    using position_dropWhile [of ?p xs i] by (simp add: np)
  from Some have i: "i < length xs" "?p (xs ! i)" by (simp_all add: position_Some_iff)
  then have "xs ! i \<in> set (rev xs)" "?p (xs ! i)" by auto
  then obtain k where k: "position ?p (rev xs) = Some k"
    using position_None_iff [of ?p "rev xs"] by (cases "position ?p (rev xs)") auto
  have "\<exists>b\<in>set (rev (drop i xs)). ?p b"
    using i by (metis Cons_nth_drop_Suc list.set_intros(1) set_rev)
  then obtain k' where k': "position ?p (rev (drop i xs)) = Some k'"
    using position_None_iff [of ?p "rev (drop i xs)"] by (cases "position ?p (rev (drop i xs))") auto
  have "rev xs = rev (drop i xs) @ rev (take i xs)"
    by (metis append_take_drop_id rev_append)
  then have kk: "k = k'" using k k' by (simp add: position_append)
  have kl: "k < length xs - i" using position_less [OF k'] kk by simp
  have "dropWhile is_ows (rev (drop i xs)) = drop k (rev (drop i xs))"
    using position_dropWhile [OF k'] kk by (simp add: np)
  then have "rev (dropWhile is_ows (rev (dropWhile is_ows xs))) = take (length xs - i - k) (drop i xs)"
    using d by (simp add: drop_rev)
  moreover have "rposition ?p xs = Some (length xs - 1 - k)"
    using k by (simp add: rposition_def)
  moreover have "length xs - 1 - k + 1 - i = length xs - i - k" using kl by simp
  ultimately show ?thesis using Some by (simp add: trim_ows_def Let_def slice_def)
qed

lemma set_trim_ows_subset: "set (trim_ows xs) \<subseteq> set xs"
  unfolding trim_ows_dropWhile by (auto dest!: set_dropWhileD)

lemma trim_ows_id: "xs = [] \<or> (\<not> is_ows (hd xs) \<and> \<not> is_ows (last xs)) \<Longrightarrow> trim_ows xs = xs"
proof (cases "xs = []")
  case True
  then show ?thesis by (simp add: trim_ows_dropWhile)
next
  case False
  assume "xs = [] \<or> (\<not> is_ows (hd xs) \<and> \<not> is_ows (last xs))"
  with False have h: "\<not> is_ows (hd xs)" and l: "\<not> is_ows (last xs)" by auto
  from h have "dropWhile is_ows xs = xs" by (simp add: dropWhile_eq_self_iff)
  moreover from l have "dropWhile is_ows (rev xs) = rev xs"
    by (simp add: dropWhile_eq_self_iff hd_rev)
  ultimately show ?thesis by (simp add: trim_ows_dropWhile)
qed

lemma trim_ows_ends:
  "trim_ows xs \<noteq> [] \<Longrightarrow> \<not> is_ows (hd (trim_ows xs)) \<and> \<not> is_ows (last (trim_ows xs))"
proof -
  assume ne: "trim_ows xs \<noteq> []"
  let ?y = "dropWhile is_ows xs"
  let ?z = "dropWhile is_ows (rev ?y)"
  have t: "trim_ows xs = rev ?z" by (rule trim_ows_dropWhile)
  with ne have z: "?z \<noteq> []" by simp
  then have l: "\<not> is_ows (last (rev ?z))" by (simp add: last_rev hd_dropWhile)
  have "last ?z = last (rev ?y)" using z by (metis last_append takeWhile_dropWhile_id)
  moreover have "?y \<noteq> []" using z by (metis dropWhile.simps(1) rev.simps(1))
  ultimately have "hd (rev ?z) = hd ?y" by (simp add: hd_rev last_rev)
  with \<open>?y \<noteq> []\<close> have "\<not> is_ows (hd (rev ?z))" by (simp add: hd_dropWhile)
  with l t show ?thesis by simp
qed

lemma trim_ows_idem [simp]: "trim_ows (trim_ows xs) = trim_ows xs"
  using trim_ows_ends [of xs] trim_ows_id [of "trim_ows xs"] by blast

lemma trim_ows_pad:
  assumes "\<forall>b\<in>set l. is_ows b" "\<forall>b\<in>set r. is_ows b"
    and "xs = [] \<or> (\<not> is_ows (hd xs) \<and> \<not> is_ows (last xs))"
  shows "trim_ows (l @ xs @ r) = xs"
proof (cases "xs = []")
  case True
  have "dropWhile is_ows (l @ xs @ r) = []" using True assms by (simp add: dropWhile_eq_Nil_conv)
  then show ?thesis unfolding trim_ows_dropWhile using True by (simp del: dropWhile_eq_Nil_conv)
next
  case False
  have "dropWhile is_ows (l @ xs @ r) = dropWhile is_ows (xs @ r)"
    using assms(1) by (simp add: dropWhile_append2)
  also have "\<dots> = xs @ r" using False assms(3) by (cases xs) auto
  finally have "rev (dropWhile is_ows (l @ xs @ r)) = rev r @ rev xs" by simp
  moreover have "dropWhile is_ows (rev r @ rev xs) = dropWhile is_ows (rev xs)"
    using assms(2) by (subst dropWhile_append2) simp_all
  moreover have "dropWhile is_ows (rev xs) = rev xs"
    using False assms(3) by (simp add: dropWhile_eq_self_iff hd_rev)
  ultimately show ?thesis by (simp add: trim_ows_dropWhile)
qed

section \<open>Decimal numbers\<close>

lemma digit_gt_9: "b - DIGIT0 > 9 \<longleftrightarrow> \<not> is_ascii_digit b"
proof -
  have "\<forall>b. (b - DIGIT0 > 9) = (\<not> is_ascii_digit b)" unfolding all_bytes by code_simp
  then show ?thesis by blast
qed

lemma foldl_digits_mono: "acc \<le> foldl (\<lambda>acc b. acc * 10 + digit_value b) acc xs"
proof (induction xs arbitrary: acc)
  case (Cons b xs)
  have "acc \<le> acc * 10 + digit_value b" by simp
  also have "\<dots> \<le> foldl (\<lambda>acc b. acc * 10 + digit_value b) (acc * 10 + digit_value b) xs"
    by (rule Cons.IH)
  finally show ?case by simp
qed simp

lemma checked_mul_10:
  "checked_mul (v :: u64) 10 = (if unat v * 10 < 2 ^ 64 then Some (of_nat (unat v * 10)) else None)"
  by (simp add: checked_mul_nat)

lemma checked_add_digit:
  "n < 2 ^ 64 \<Longrightarrow> checked_add (of_nat n :: u64) (ucast (b - DIGIT0)) =
     (if n + digit_value b < 2 ^ 64 then Some (of_nat (n + digit_value b)) else None)"
proof -
  assume n: "n < 2 ^ 64"
  have "unat (ucast (b - DIGIT0) :: u64) = digit_value b"
  proof -
    have "unat (b - DIGIT0) < 2 ^ 64" by (rule less_trans [OF unat_u8_less]) simp
    then have "take_bit 64 (unat (b - DIGIT0)) = unat (b - DIGIT0)" by (rule take_bit_nat_eq_self)
    then show ?thesis by (simp add: digit_value_def unsigned_ucast_eq)
  qed
  moreover have "(ucast (b - DIGIT0) :: u64) = of_nat (digit_value b)"
    by (simp add: digit_value_def)
  moreover have "unat (of_nat n :: u64) = n" using n by (simp add: unsigned_of_nat take_bit_nat_eq_self)
  ultimately show ?thesis by (simp add: checked_add_nat)
qed

lemma parse_u64_loop_eq:
  "parse_u64_loop xs acc =
     (let v = foldl (\<lambda>acc b. acc * 10 + digit_value b) (unat acc) xs in
      if list_all is_ascii_digit xs \<and> v < 2 ^ 64 then Some (of_nat v) else None)"
proof (induction xs arbitrary: acc)
  case Nil
  have "unat acc < 2 ^ 64" using unsigned_less [of acc] by simp
  then show ?case by simp
next
  case (Cons b xs)
  let ?n = "unat acc * 10 + digit_value b"
  let ?v = "foldl (\<lambda>acc b. acc * 10 + digit_value b) ?n xs"
  have mono: "?n \<le> ?v" by (rule foldl_digits_mono)
  show ?case
  proof (cases "is_ascii_digit b \<and> ?n < 2 ^ 64")
    case True
    then have "unat (of_nat ?n :: u64) = ?n" by (subst unsigned_of_nat) (simp add: take_bit_nat_eq_self)
    with True show ?thesis using Cons.IH [of "of_nat ?n"]
      by (simp add: Let_def digit_gt_9 checked_mul_10 checked_add_digit del: of_nat_add of_nat_mult)
  next
    case False
    then show ?thesis using mono
      by (auto simp add: Let_def digit_gt_9 checked_mul_10 checked_add_digit
          simp del: of_nat_add of_nat_mult)
  qed
qed

theorem parse_u64_eq:
  "parse_u64 xs =
     (let t = trim_ows xs in
      if t \<noteq> [] \<and> list_all is_ascii_digit t \<and> decimal_value t < 2 ^ 64
      then Some (of_nat (decimal_value t)) else None)"
  by (simp add: parse_u64_def Let_def parse_u64_loop_eq decimal_value_def)

lemma digit_of_nat:
  assumes "d < 10"
  shows "is_ascii_digit (DIGIT0 + of_nat d)" "digit_value (DIGIT0 + of_nat d) = d"
proof -
  have "\<forall>d\<in>set [0..<10]. is_ascii_digit (DIGIT0 + of_nat d) \<and> digit_value (DIGIT0 + of_nat d) = d"
    by code_simp
  with assms show "is_ascii_digit (DIGIT0 + of_nat d)" "digit_value (DIGIT0 + of_nat d) = d"
    by simp_all
qed

lemma to_decimal_digits: "list_all is_ascii_digit (to_decimal n)"
  by (induction n rule: to_decimal.induct) (subst to_decimal.simps, simp add: digit_of_nat)

lemma to_decimal_not_Nil [simp]: "to_decimal n \<noteq> []"
  by (subst to_decimal.simps) simp

lemma decimal_value_to_decimal [simp]: "decimal_value (to_decimal n) = n"
proof (induction n rule: to_decimal.induct)
  case (1 n)
  then show ?case
    by (subst to_decimal.simps) (simp add: digit_of_nat decimal_value_def)
qed

lemma digit_not_ows: "is_ascii_digit b \<Longrightarrow> \<not> is_ows b"
  by (auto simp: is_ascii_digit_def is_ows_def)

lemma trim_to_decimal [simp]: "trim_ows (to_decimal n) = to_decimal n"
  using to_decimal_digits [of n] trim_ows_id [of "to_decimal n"]
  by (simp add: list_all_iff digit_not_ows)

theorem parse_u64_to_decimal: "parse_u64 (to_decimal (unat (v :: u64))) = Some v"
proof -
  have "unat v < 2 ^ 64" using unsigned_less [of v] by simp
  then show ?thesis by (simp add: parse_u64_eq Let_def to_decimal_digits)
qed

section \<open>Substring search\<close>

lemma find_subsequence_Some_iff:
  assumes "needle \<noteq> []"
  shows "find_subsequence xs needle = Some i \<longleftrightarrow>
    take (length needle) (drop i xs) = needle \<and>
    (\<forall>j<i. take (length needle) (drop j xs) \<noteq> needle)"
proof -
  have len: "i + length needle \<le> length xs" if "take (length needle) (drop i xs) = needle" for i
  proof -
    from that have "length needle = min (length xs - i) (length needle)"
      by (metis length_drop length_take)
    with assms show ?thesis by (cases "i \<le> length xs") auto
  qed
  have "find_subsequence xs needle = Some i \<longleftrightarrow>
      i < length xs + 1 - length needle \<and> take (length needle) (drop i xs) = needle \<and>
      (\<forall>j<i. take (length needle) (drop j xs) \<noteq> needle)"
    using assms by (auto simp: find_subsequence_def position_Some_iff windows_def)
  then show ?thesis using len [of i] by auto
qed

lemma find_subsequence_None_iff:
  assumes "needle \<noteq> []"
  shows "find_subsequence xs needle = None \<longleftrightarrow> (\<forall>i. take (length needle) (drop i xs) \<noteq> needle)"
proof
  assume "\<forall>i. take (length needle) (drop i xs) \<noteq> needle"
  then show "find_subsequence xs needle = None"
    using find_subsequence_Some_iff [OF assms] by (cases "find_subsequence xs needle") auto
next
  assume n: "find_subsequence xs needle = None"
  show "\<forall>i. take (length needle) (drop i xs) \<noteq> needle"
  proof (rule ccontr)
    assume "\<not> ?thesis"
    then obtain i where "take (length needle) (drop i xs) = needle" by blast
    then have "find_subsequence xs needle = Some (LEAST i. take (length needle) (drop i xs) = needle)"
      unfolding find_subsequence_Some_iff [OF assms] by (metis (mono_tags, lifting) LeastI not_less_Least)
    with n show False by simp
  qed
qed

lemma find_crlf_simps [simp]:
  "find_crlf [] = None"
  "find_crlf [x] = None"
  "find_crlf (x # y # xs) = (if x = CR \<and> y = LF then Some 0 else map_option Suc (find_crlf (y # xs)))"
proof -
  have w: "windows 2 (x # y # xs) = [x, y] # windows 2 (y # xs)"
    by (simp add: windows_def upt_conv_Cons map_Suc_upt [symmetric] del: upt_Suc map_Suc_upt)
  show "find_crlf [] = None" "find_crlf [x] = None"
    by (simp_all add: find_crlf_def find_subsequence_def windows_def)
  show "find_crlf (x # y # xs) = (if x = CR \<and> y = LF then Some 0 else map_option Suc (find_crlf (y # xs)))"
    using w by (simp add: find_crlf_def find_subsequence_def numeral_2_eq_2 [symmetric] del: numeral_2_eq_2)
qed

end
