(* ===== verification/Wire_Error.thy ===== *)
theory Wire_Error
  imports Bytes
begin

text \<open>
  \<^verbatim>\<open>xibalba-proto/src/error.rs\<close>: the error enums every fallible operation of the program
  returns, their messages (\<^verbatim>\<open>Display\<close>) and the conversions the \<^verbatim>\<open>?\<close> operator applies.
  A \<^verbatim>\<open>Result<T, E>\<close> is a sum whose left side is the error. Of \<^verbatim>\<open>std::io::ErrorKind\<close> the
  kinds the program tests or makes are constructors of their own; every other kind is
  \<open>OtherKind\<close> with its description.
\<close>

section \<open>The error types\<close>

datatype ErrorKind =
    NotFound | ConnectionRefused | ConnectionReset | BrokenPipe | InvalidInput | InvalidData
  | TimedOut | WouldBlock | Interrupted | UnexpectedEof | WriteZero | AddrNotAvailable
  | ConnectionAborted | OtherKind string

record IoError =
  kind :: ErrorKind
  message :: string

record TlsError =
  tls_message :: string

datatype UrlError = Empty | InvalidScheme | MissingHost | InvalidPort | InvalidByte usize

datatype ParseError =
    Incomplete | InvalidVersion | InvalidStatusCode | InvalidMethod | MissingColon
  | InvalidHeaderName | InvalidHeaderValue | TooManyHeaders | InvalidContentLength
  | InvalidReasonPhrase | InvalidTransferEncoding | UnsupportedTransferCoding
  | InvalidChunkSize | InvalidChunkTerminator | InvalidChunkMetadata

datatype SerializeError = BufferTooSmall | InvalidPath | InvalidHeader | DuplicateHeader

datatype ConnectionError =
    ConnectionClosed | ContentLengthOverflow | InvalidUtf8Body | HeaderRangeOverflow
  | HeaderNotInBuffer | BodyTooLarge | HeadTooLarge | TooManyRedirects
  | TooManyInterimResponses | InfiniteReadTimeout | ZeroDuration | TimeoutExceedsBudget
  | RequestDeadlineExceeded | PlaintextConnectorForHttps | ConnectDeadlineExceeded
  | ReaderGone | InsecureRedirect | UnsupportedRedirectScheme | CrossOriginRedirectRefused
  | TooManyRequests | TunnelingNotSupported | OtherConnection string

datatype Error =
    UrlParse UrlError | Parse ParseError | Serialize SerializeError | Io IoError | Tls TlsError
  | Connection ConnectionError

section \<open>Messages\<close>

text \<open>The descriptions \<^verbatim>\<open>std\<close> gives its error kinds.\<close>

fun kind_str :: "ErrorKind \<Rightarrow> string" where
  "kind_str NotFound = ''entity not found''"
| "kind_str ConnectionRefused = ''connection refused''"
| "kind_str ConnectionReset = ''connection reset''"
| "kind_str BrokenPipe = ''broken pipe''"
| "kind_str InvalidInput = ''invalid input parameter''"
| "kind_str InvalidData = ''invalid data''"
| "kind_str TimedOut = ''timed out''"
| "kind_str WouldBlock = ''operation would block''"
| "kind_str Interrupted = ''operation interrupted''"
| "kind_str UnexpectedEof = ''unexpected end of file''"
| "kind_str WriteZero = ''write zero''"
| "kind_str AddrNotAvailable = ''address not available''"
| "kind_str ConnectionAborted = ''connection aborted''"
| "kind_str (OtherKind s) = s"

definition usize_str :: "usize \<Rightarrow> string" where
  "usize_str n = map (\<lambda>b. char_of (unat b)) (to_decimal n)"

definition IoError_display :: "IoError \<Rightarrow> string" where
  "IoError_display self = message self @ '': '' @ kind_str (kind self)"

definition TlsError_display :: "TlsError \<Rightarrow> string" where
  "TlsError_display self = tls_message self"

fun ConnectionError_display :: "ConnectionError \<Rightarrow> string" where
  "ConnectionError_display ConnectionClosed = ''connection closed unexpectedly''"
| "ConnectionError_display ContentLengthOverflow = ''content-length exceeds usize''"
| "ConnectionError_display InvalidUtf8Body = ''response body is not valid UTF-8''"
| "ConnectionError_display HeaderRangeOverflow = ''header offset/length overflows u16''"
| "ConnectionError_display HeaderNotInBuffer = ''header name not in head buffer''"
| "ConnectionError_display BodyTooLarge = ''response body exceeds size limit''"
| "ConnectionError_display HeadTooLarge = ''response head exceeds size limit''"
| "ConnectionError_display TooManyRedirects = ''too many redirects''"
| "ConnectionError_display TooManyInterimResponses = ''too many 1xx interim responses''"
| "ConnectionError_display InfiniteReadTimeout = ''read timeout must be finite''"
| "ConnectionError_display ZeroDuration = ''timeouts and silence budgets must be non-zero''"
| "ConnectionError_display TimeoutExceedsBudget =
     ''per-read timeout exceeds the silence budget it subdivides''"
| "ConnectionError_display RequestDeadlineExceeded =
     ''request deadline exceeded before the operation completed''"
| "ConnectionError_display PlaintextConnectorForHttps =
     ''plaintext connector refused an https url''"
| "ConnectionError_display ConnectDeadlineExceeded =
     ''connect deadline exceeded before the connection was established''"
| "ConnectionError_display ReaderGone = ''background reader thread has exited''"
| "ConnectionError_display TooManyRequests = ''too many requests are already in flight''"
| "ConnectionError_display InsecureRedirect = ''redirect downgrades https to http''"
| "ConnectionError_display UnsupportedRedirectScheme =
     ''redirect location names a scheme this client cannot follow''"
| "ConnectionError_display CrossOriginRedirectRefused =
     ''redirect left the request's origin and cross-origin redirects are refused''"
| "ConnectionError_display TunnelingNotSupported =
     ''CONNECT tunnelling is not supported by this client''"
| "ConnectionError_display (OtherConnection msg) = msg"

fun UrlError_display :: "UrlError \<Rightarrow> string" where
  "UrlError_display Empty = ''input is empty''"
| "UrlError_display InvalidScheme = ''invalid or missing scheme''"
| "UrlError_display MissingHost = ''missing host''"
| "UrlError_display InvalidPort = ''invalid port number''"
| "UrlError_display (InvalidByte pos) = ''invalid byte at offset '' @ usize_str pos"

fun ParseError_display :: "ParseError \<Rightarrow> string" where
  "ParseError_display Incomplete = ''incomplete input''"
| "ParseError_display InvalidVersion = ''invalid HTTP version''"
| "ParseError_display InvalidStatusCode = ''invalid status code''"
| "ParseError_display InvalidMethod = ''invalid HTTP method''"
| "ParseError_display MissingColon = ''missing colon in header line''"
| "ParseError_display InvalidHeaderName = ''invalid header name byte''"
| "ParseError_display InvalidHeaderValue = ''invalid header value byte''"
| "ParseError_display TooManyHeaders = ''caller header buffer is too small''"
| "ParseError_display InvalidContentLength = ''invalid Content-Length value''"
| "ParseError_display InvalidReasonPhrase = ''invalid reason phrase''"
| "ParseError_display InvalidTransferEncoding = ''invalid transfer-encoding''"
| "ParseError_display UnsupportedTransferCoding = ''unsupported transfer coding''"
| "ParseError_display InvalidChunkSize = ''invalid chunk size''"
| "ParseError_display InvalidChunkTerminator = ''invalid chunk terminator''"
| "ParseError_display InvalidChunkMetadata =
     ''chunk extension or trailer is invalid or too large''"

fun SerializeError_display :: "SerializeError \<Rightarrow> string" where
  "SerializeError_display BufferTooSmall = ''output buffer too small''"
| "SerializeError_display InvalidPath = ''invalid request target''"
| "SerializeError_display InvalidHeader = ''invalid request header''"
| "SerializeError_display DuplicateHeader = ''duplicate request header''"

fun Error_display :: "Error \<Rightarrow> string" where
  "Error_display (UrlParse e) = ''url error: '' @ UrlError_display e"
| "Error_display (Parse e) = ''parse error: '' @ ParseError_display e"
| "Error_display (Serialize e) = ''serialize error: '' @ SerializeError_display e"
| "Error_display (Io e) = ''io error: '' @ IoError_display e"
| "Error_display (Tls e) = ''tls error: '' @ TlsError_display e"
| "Error_display (Connection e) = ''connection error: '' @ ConnectionError_display e"

section \<open>Distinct messages\<close>

lemma decimal_digits_ascii: "b \<in> set (to_decimal n) \<Longrightarrow> is_ascii_digit b"
  using to_decimal_digits [of n] by (simp add: list_all_iff)

lemma to_decimal_inject [simp]: "to_decimal m = to_decimal n \<longleftrightarrow> m = n"
  by (metis decimal_value_to_decimal)

lemma usize_str_inject: "usize_str m = usize_str n \<longleftrightarrow> m = n"
  unfolding usize_str_def by (subst inj_map_eq_map) (simp_all add: inj_def word_unat_eq_iff)

lemma UrlError_display_inject: "UrlError_display a = UrlError_display b \<longleftrightarrow> a = b"
  by (cases a; cases b) (simp_all add: usize_str_inject)

lemma ParseError_display_inject: "ParseError_display a = ParseError_display b \<longleftrightarrow> a = b"
  by (cases a; cases b) simp_all

lemma SerializeError_display_inject:
  "SerializeError_display a = SerializeError_display b \<longleftrightarrow> a = b"
  by (cases a; cases b) simp_all

end
