(* ===== verification/Tokens.thy ===== *)
theory Tokens
  imports Wire_Error
begin

text \<open>
  The small wire tokens of \<^verbatim>\<open>xibalba-proto\<close>: \<^verbatim>\<open>scheme.rs\<close>, \<^verbatim>\<open>version.rs\<close>, \<^verbatim>\<open>method.rs\<close>
  and \<^verbatim>\<open>status.rs\<close>, with their renderings and their parsers. One contract, the locale
  \<open>wire_token\<close>, states what the four share (parsing the rendering gives the token back) and
  is interpreted on each.
\<close>

section \<open>Scheme\<close>

datatype Scheme = Http | Https

fun default_port :: "Scheme \<Rightarrow> u16" where
  "default_port Http = 80"
| "default_port Https = 443"

fun scheme_as_bytes :: "Scheme \<Rightarrow> bytes" where
  "scheme_as_bytes Http = bs ''http''"
| "scheme_as_bytes Https = bs ''https''"

definition scheme_try_from :: "bytes \<Rightarrow> UrlError + Scheme" where
  "scheme_try_from bytes =
     (if length bytes = 4
         \<and> (bytes ! 0) OR 0x20 = 0x68 \<and> (bytes ! 1) OR 0x20 = 0x74
         \<and> (bytes ! 2) OR 0x20 = 0x74 \<and> (bytes ! 3) OR 0x20 = 0x70
      then Inr Http
      else if length bytes = 5
         \<and> (bytes ! 0) OR 0x20 = 0x68 \<and> (bytes ! 1) OR 0x20 = 0x74
         \<and> (bytes ! 2) OR 0x20 = 0x74 \<and> (bytes ! 3) OR 0x20 = 0x70
         \<and> (bytes ! 4) OR 0x20 = 0x73
      then Inr Https
      else Inl InvalidScheme)"

section \<open>Version\<close>

datatype Version = Http10 | Http11

fun version_as_bytes :: "Version \<Rightarrow> bytes" where
  "version_as_bytes Http10 = bs ''HTTP/1.0''"
| "version_as_bytes Http11 = bs ''HTTP/1.1''"

definition version_try_from :: "bytes \<Rightarrow> Error + Version" where
  "version_try_from bytes =
     (if bytes = bs ''HTTP/1.1'' then Inr Http11
      else if bytes = bs ''HTTP/1.0'' then Inr Http10
      else Inl (Parse InvalidVersion))"

section \<open>Status code\<close>

text \<open>The private field keeps the value in the range \<open>from_u16\<close> checks.\<close>

datatype StatusCode = StatusCode (as_u16: u16)

abbreviation NO_CONTENT :: StatusCode where "NO_CONTENT \<equiv> StatusCode 204"
abbreviation NOT_MODIFIED :: StatusCode where "NOT_MODIFIED \<equiv> StatusCode 304"
abbreviation SWITCHING_PROTOCOLS :: StatusCode where "SWITCHING_PROTOCOLS \<equiv> StatusCode 101"
abbreviation MOVED_PERMANENTLY :: StatusCode where "MOVED_PERMANENTLY \<equiv> StatusCode 301"
abbreviation FOUND :: StatusCode where "FOUND \<equiv> StatusCode 302"
abbreviation SEE_OTHER :: StatusCode where "SEE_OTHER \<equiv> StatusCode 303"
abbreviation TEMPORARY_REDIRECT :: StatusCode where "TEMPORARY_REDIRECT \<equiv> StatusCode 307"
abbreviation PERMANENT_REDIRECT :: StatusCode where "PERMANENT_REDIRECT \<equiv> StatusCode 308"

definition from_u16 :: "u16 \<Rightarrow> ParseError + StatusCode" where
  "from_u16 code = (if code \<ge> 100 \<and> code \<le> 999 then Inr (StatusCode code) else Inl InvalidStatusCode)"

definition is_informational :: "StatusCode \<Rightarrow> bool" where
  "is_informational self = (as_u16 self \<ge> 100 \<and> as_u16 self < 200)"

definition is_success :: "StatusCode \<Rightarrow> bool" where
  "is_success self = (as_u16 self \<ge> 200 \<and> as_u16 self < 300)"

definition is_redirect :: "StatusCode \<Rightarrow> bool" where
  "is_redirect self = (as_u16 self \<ge> 300 \<and> as_u16 self < 400)"

definition is_client_error :: "StatusCode \<Rightarrow> bool" where
  "is_client_error self = (as_u16 self \<ge> 400 \<and> as_u16 self < 500)"

definition is_server_error :: "StatusCode \<Rightarrow> bool" where
  "is_server_error self = (as_u16 self \<ge> 500 \<and> as_u16 self < 600)"

definition status_try_from :: "bytes \<Rightarrow> Error + StatusCode" where
  "status_try_from bytes =
     (if length bytes \<noteq> 3 then Inl (Parse InvalidStatusCode)
      else
        let h = bytes ! 0 - DIGIT0; t = bytes ! 1 - DIGIT0; u = bytes ! 2 - DIGIT0 in
        if h > 9 \<or> t > 9 \<or> u > 9 then Inl (Parse InvalidStatusCode)
        else
          let code = (ucast h :: u16) * 100 + ucast t * 10 + ucast u in
          map_err Parse (from_u16 code))"

definition status_display :: "StatusCode \<Rightarrow> bytes" where
  "status_display self = to_decimal (unat (as_u16 self))"

section \<open>Method\<close>

datatype Method = Get | Head | Post | Put | Delete | Connect | Options | Trace | Patch

fun token :: "Method \<Rightarrow> bytes" where
  "token Get = bs ''GET''"
| "token Head = bs ''HEAD''"
| "token Post = bs ''POST''"
| "token Put = bs ''PUT''"
| "token Delete = bs ''DELETE''"
| "token Connect = bs ''CONNECT''"
| "token Options = bs ''OPTIONS''"
| "token Trace = bs ''TRACE''"
| "token Patch = bs ''PATCH''"

definition is_replay_eligible :: "Method \<Rightarrow> bool" where
  "is_replay_eligible self = (self \<in> {Get, Head, Put, Delete, Options, Trace})"

definition response_can_have_content :: "Method \<Rightarrow> StatusCode \<Rightarrow> bool" where
  "response_can_have_content self status =
     (case self of Head \<Rightarrow> False | Connect \<Rightarrow> \<not> is_success status | _ \<Rightarrow> True)"

definition method_try_from :: "bytes \<Rightarrow> Error + Method" where
  "method_try_from bytes =
     (if bytes = bs ''GET'' then Inr Get
      else if bytes = bs ''POST'' then Inr Post
      else if bytes = bs ''HEAD'' then Inr Head
      else if bytes = bs ''PUT'' then Inr Put
      else if bytes = bs ''DELETE'' then Inr Delete
      else if bytes = bs ''CONNECT'' then Inr Connect
      else if bytes = bs ''OPTIONS'' then Inr Options
      else if bytes = bs ''TRACE'' then Inr Trace
      else if bytes = bs ''PATCH'' then Inr Patch
      else Inl (Parse InvalidMethod))"

section \<open>The contract of a wire token\<close>

text \<open>
  \<open>render\<close> writes a token, \<open>parse_tok\<close> reads one and \<open>canon\<close> is the form of a byte string
  the parser compares (lower case for the scheme, the string itself elsewhere). \<open>valid\<close>
  is the invariant of the token type.
\<close>

locale wire_token =
  fixes valid :: "'t \<Rightarrow> bool"
    and render :: "'t \<Rightarrow> bytes"
    and parse_tok :: "bytes \<Rightarrow> 'e + 't"
    and canon :: "bytes \<Rightarrow> bytes"
  assumes parse_render: "valid t \<Longrightarrow> parse_tok (render t) = Inr t"
    and parse_sound: "parse_tok b = Inr t \<Longrightarrow> valid t \<and> canon b = render t"
    and render_canon: "valid t \<Longrightarrow> canon (render t) = render t"
    and parse_canon: "canon a = canon b \<Longrightarrow> parse_tok a = parse_tok b"
begin

lemma render_inject: "valid s \<Longrightarrow> valid t \<Longrightarrow> render s = render t \<longleftrightarrow> s = t"
  by (metis Inr_inject parse_render)

lemma parse_iff: "valid t \<Longrightarrow> parse_tok b = Inr t \<longleftrightarrow> canon b = render t"
  by (metis parse_canon parse_render parse_sound render_canon)

lemma parse_ok_iff: "(\<exists>t. parse_tok b = Inr t) \<longleftrightarrow> (\<exists>t. valid t \<and> canon b = render t)"
  using parse_iff parse_sound by blast

end

section \<open>The tokens meet the contract\<close>

lemma length_4_cases: "length xs = 4 \<longleftrightarrow> (\<exists>a b c d. xs = [a, b, c, d])"
  by (auto simp: length_Suc_conv eval_nat_numeral)

lemma length_5_cases: "length xs = 5 \<longleftrightarrow> (\<exists>a b c d e. xs = [a, b, c, d, e])"
  by (auto simp: length_Suc_conv eval_nat_numeral)

lemma length_3_cases: "length xs = 3 \<longleftrightarrow> (\<exists>a b c. xs = [a, b, c])"
  by (auto simp: length_Suc_conv eval_nat_numeral)

lemma or_20_letter:
  "b OR 0x20 = 0x68 \<longleftrightarrow> to_ascii_lowercase b = 0x68"
  "b OR 0x20 = 0x74 \<longleftrightarrow> to_ascii_lowercase b = 0x74"
  "b OR 0x20 = 0x70 \<longleftrightarrow> to_ascii_lowercase b = 0x70"
  "b OR 0x20 = 0x73 \<longleftrightarrow> to_ascii_lowercase b = 0x73"
proof -
  have "\<forall>b::u8. (b OR 0x20 = 0x68 \<longleftrightarrow> to_ascii_lowercase b = 0x68) \<and>
    (b OR 0x20 = 0x74 \<longleftrightarrow> to_ascii_lowercase b = 0x74) \<and>
    (b OR 0x20 = 0x70 \<longleftrightarrow> to_ascii_lowercase b = 0x70) \<and>
    (b OR 0x20 = 0x73 \<longleftrightarrow> to_ascii_lowercase b = 0x73)"
    unfolding all_bytes by code_simp
  then show "b OR 0x20 = 0x68 \<longleftrightarrow> to_ascii_lowercase b = 0x68"
    "b OR 0x20 = 0x74 \<longleftrightarrow> to_ascii_lowercase b = 0x74"
    "b OR 0x20 = 0x70 \<longleftrightarrow> to_ascii_lowercase b = 0x70"
    "b OR 0x20 = 0x73 \<longleftrightarrow> to_ascii_lowercase b = 0x73" by blast+
qed

lemma scheme_try_from_eq:
  "scheme_try_from b =
     (if lower_bytes b = bs ''http'' then Inr Http
      else if lower_bytes b = bs ''https'' then Inr Https else Inl InvalidScheme)"
proof -
  have 4: "length b = 4 \<and> (b ! 0) OR 0x20 = 0x68 \<and> (b ! 1) OR 0x20 = 0x74
      \<and> (b ! 2) OR 0x20 = 0x74 \<and> (b ! 3) OR 0x20 = 0x70 \<longleftrightarrow> lower_bytes b = bs ''http''"
    unfolding length_4_cases
    by (auto simp: or_20_letter lower_bytes_def bs_def map_eq_Cons_conv)
  have 5: "length b = 5 \<and> (b ! 0) OR 0x20 = 0x68 \<and> (b ! 1) OR 0x20 = 0x74
      \<and> (b ! 2) OR 0x20 = 0x74 \<and> (b ! 3) OR 0x20 = 0x70 \<and> (b ! 4) OR 0x20 = 0x73
      \<longleftrightarrow> lower_bytes b = bs ''https''"
    unfolding length_5_cases
    by (auto simp: or_20_letter lower_bytes_def bs_def map_eq_Cons_conv)
  show ?thesis unfolding scheme_try_from_def 4 5 ..
qed

interpretation scheme_token: wire_token "\<lambda>_. True" scheme_as_bytes scheme_try_from lower_bytes
proof
  fix t :: Scheme
  show "lower_bytes (scheme_as_bytes t) = scheme_as_bytes t"
    by (cases t) (simp_all add: lower_bytes_def bs_def to_ascii_lowercase_def is_ascii_uppercase_def)
  then show "scheme_try_from (scheme_as_bytes t) = Inr t"
    by (cases t) (simp_all add: scheme_try_from_eq bs_def)
qed (auto simp: scheme_try_from_eq split: if_splits)

interpretation version_token: wire_token "\<lambda>_. True" version_as_bytes version_try_from "\<lambda>b. b"
proof
  fix t :: Version
  show "version_try_from (version_as_bytes t) = Inr t" by (cases t) (simp_all add: version_try_from_def bs_def)
qed (auto simp: version_try_from_def split: if_splits)

interpretation method_token: wire_token "\<lambda>_. True" token method_try_from "\<lambda>b. b"
proof
  fix t :: Method
  show "method_try_from (token t) = Inr t" by (cases t) (simp_all add: method_try_from_def bs_def)
qed (auto simp: method_try_from_def split: if_splits)

subsection \<open>Status codes\<close>

definition status_valid :: "StatusCode \<Rightarrow> bool" where
  "status_valid s = (100 \<le> unat (as_u16 s) \<and> unat (as_u16 s) \<le> 999)"

lemma digit_bytes:
  assumes "is_ascii_digit b"
  shows "DIGIT0 + of_nat (digit_value b) = b" "digit_value b < 10"
proof -
  have "\<forall>b. is_ascii_digit b \<longrightarrow> digit_value b < 10" unfolding all_bytes by code_simp
  then show "digit_value b < 10" using assms by blast
qed (simp add: digit_value_def)

lemma to_decimal_3:
  assumes "h < 10" "t < 10" "u < 10" "0 < h"
  shows "to_decimal (h * 100 + t * 10 + u) =
    [DIGIT0 + of_nat h, DIGIT0 + of_nat t, DIGIT0 + of_nat u]"
proof -
  have a: "(h * 100 + t * 10 + u) div 10 = h * 10 + t" "(h * 100 + t * 10 + u) mod 10 = u"
    "\<not> h * 100 + t * 10 + u < 10" "(h * 10 + t) div 10 = h" "(h * 10 + t) mod 10 = t"
    "\<not> h * 10 + t < 10"
  proof -
    have e: "h * 100 + t * 10 + u = u + (h * 10 + t) * 10" by simp
    show "(h * 100 + t * 10 + u) div 10 = h * 10 + t" "(h * 100 + t * 10 + u) mod 10 = u"
      unfolding e using assms mod_mult_self1 [of u "h * 10 + t" 10] by simp_all
    have f: "h * 10 + t = t + h * 10" by simp
    show "(h * 10 + t) div 10 = h" "(h * 10 + t) mod 10 = t" unfolding f using assms by simp_all
    show "\<not> h * 100 + t * 10 + u < 10" "\<not> h * 10 + t < 10" using assms by linarith+
  qed
  have "to_decimal (h * 100 + t * 10 + u) = to_decimal (h * 10 + t) @ [DIGIT0 + of_nat u]"
    by (subst to_decimal.simps) (simp only: a if_False)
  also have "to_decimal (h * 10 + t) = to_decimal h @ [DIGIT0 + of_nat t]"
    by (subst to_decimal.simps) (simp only: a if_False)
  also have "to_decimal h = [DIGIT0 + of_nat h]"
    using assms(1) by (subst to_decimal.simps) simp
  finally show ?thesis by simp
qed

lemma from_u16_nat:
  "n < 1000 \<Longrightarrow> from_u16 (of_nat n) = (if 100 \<le> n then Inr (StatusCode (of_nat n)) else Inl InvalidStatusCode)"
  by (simp add: from_u16_def word_le_nat_alt unsigned_of_nat take_bit_nat_eq_self)

lemma status_try_from_digits:
  assumes "is_ascii_digit h" "is_ascii_digit t" "is_ascii_digit u"
  shows "status_try_from [h, t, u] =
    (let n = digit_value h * 100 + digit_value t * 10 + digit_value u in
     if 100 \<le> n then Inr (StatusCode (of_nat n)) else Inl (Parse InvalidStatusCode))"
proof -
  let ?n = "digit_value h * 100 + digit_value t * 10 + digit_value u"
  have n: "?n < 1000" 
    using digit_bytes(2) [OF assms(1)] digit_bytes(2) [OF assms(2)] digit_bytes(2) [OF assms(3)]
    by linarith
  have "(ucast (h - DIGIT0) :: u16) * 100 + ucast (t - DIGIT0) * 10 + ucast (u - DIGIT0) = of_nat ?n"
    by (simp add: digit_value_def)
  then show ?thesis using assms from_u16_nat [OF n]
    by (simp add: status_try_from_def digit_gt_9 Let_def del: of_nat_add of_nat_mult)
qed

lemma status_try_from_Inl:
  assumes "length b \<noteq> 3 \<or> \<not> list_all is_ascii_digit b"
  shows "status_try_from b = Inl (Parse InvalidStatusCode)"
  using assms unfolding status_try_from_def
  by (auto simp: length_3_cases digit_gt_9 Let_def)

lemma status_valid_digits:
  assumes "status_valid s"
  obtains h t u where "unat (as_u16 s) = h * 100 + t * 10 + u" "h < 10" "t < 10" "u < 10" "0 < h"
proof
  let ?n = "unat (as_u16 s)"
  have r: "100 \<le> ?n" "?n \<le> 999" using assms by (simp_all add: status_valid_def)
  have d: "?n div 10 * 10 + ?n mod 10 = ?n" "?n div 10 div 10 * 10 + ?n div 10 mod 10 = ?n div 10"
    by (rule div_mult_mod_eq)+
  then show "?n = (?n div 10 div 10) * 100 + (?n div 10 mod 10) * 10 + ?n mod 10" by linarith
  show m: "?n div 10 mod 10 < 10" "?n mod 10 < 10" by simp_all
  show "?n div 10 div 10 < 10" "0 < ?n div 10 div 10" using r d m by linarith+
qed

lemma status_try_from_display: "status_valid s \<Longrightarrow> status_try_from (status_display s) = Inr s"
proof (erule status_valid_digits)
  fix h t u
  assume n: "unat (as_u16 s) = h * 100 + t * 10 + u" and d: "h < 10" "t < 10" "u < 10" "0 < h"
  let ?m = "h * 100 + t * 10 + u"
  have "status_display s = [DIGIT0 + of_nat h, DIGIT0 + of_nat t, DIGIT0 + of_nat u]"
    using n d by (simp add: status_display_def to_decimal_3)
  moreover have "100 \<le> ?m" using d(4) by linarith
  moreover have "as_u16 s = of_nat ?m" unfolding n [symmetric] by simp
  then have "s = StatusCode (of_nat ?m)" by (metis StatusCode.collapse)
  ultimately show ?thesis using d by (simp add: status_try_from_digits digit_of_nat Let_def)
qed

lemma status_try_from_sound:
  assumes "status_try_from b = Inr s"
  shows "status_valid s \<and> b = status_display s"
proof -
  have "length b = 3" "list_all is_ascii_digit b" using assms status_try_from_Inl [of b] by auto
  then obtain h t u where b: "b = [h, t, u]" and d: "is_ascii_digit h" "is_ascii_digit t" "is_ascii_digit u"
    by (auto simp: length_3_cases)
  let ?n = "digit_value h * 100 + digit_value t * 10 + digit_value u"
  note lt = digit_bytes(2) [OF d(1)] digit_bytes(2) [OF d(2)] digit_bytes(2) [OF d(3)]
  from assms b d have n: "100 \<le> ?n" and s: "s = StatusCode (of_nat ?n)"
    by (auto simp: status_try_from_digits Let_def split: if_splits)
  have "?n < 1000" using lt by linarith
  then have u: "unat (as_u16 s) = ?n"
    unfolding s by (simp add: unsigned_of_nat take_bit_nat_eq_self del: of_nat_add of_nat_mult)
  have "0 < digit_value h" using n lt by linarith
  with lt have "status_display s = [h, t, u]"
    unfolding status_display_def u by (simp add: to_decimal_3 digit_bytes(1) d)
  then show ?thesis using b n u \<open>?n < 1000\<close> by (simp add: status_valid_def)
qed

interpretation status_token: wire_token status_valid status_display status_try_from "\<lambda>b. b"
  by unfold_locales (simp_all add: status_try_from_display status_try_from_sound)

section \<open>Classes of status codes and methods\<close>

lemmas status_class_defs =
  is_informational_def is_success_def is_redirect_def is_client_error_def is_server_error_def

lemma status_try_from_valid: "status_try_from b = Inr s \<Longrightarrow> status_valid s"
  by (simp add: status_try_from_sound)

lemma replay_excludes: "is_replay_eligible m \<longleftrightarrow> m \<notin> {Post, Patch, Connect}"
  by (cases m) (simp_all add: is_replay_eligible_def)

lemma response_can_have_content_iff:
  "response_can_have_content m s \<longleftrightarrow> m \<noteq> Head \<and> \<not> (m = Connect \<and> is_success s)"
  by (cases m) (simp_all add: response_can_have_content_def)

text \<open>
  Parsing a token and rendering it are inverse to each other for the four wire tokens:
  a rendered scheme, version, method or in-range status code parses back to itself, and
  what parses is the rendering of its result (up to letter case for the scheme).
\<close>

theorem token_roundtrips:
  "(scheme_try_from b = Inr s \<longleftrightarrow> lower_bytes b = scheme_as_bytes s)
   \<and> (version_try_from b = Inr v \<longleftrightarrow> b = version_as_bytes v)
   \<and> (method_try_from b = Inr m \<longleftrightarrow> b = token m)
   \<and> (status_try_from b = Inr c \<longleftrightarrow> status_valid c \<and> b = status_display c)"
  using scheme_token.parse_iff version_token.parse_iff method_token.parse_iff
    status_try_from_sound status_try_from_display
  by blast

end
