(* ===== verification/Header_Name.thy ===== *)
theory Header_Name
  imports Tokens
begin

text \<open>
  \<^verbatim>\<open>xibalba-proto/src/header.rs\<close>: the token-character table, header names as a known name
  or raw bytes, their case-insensitive equality and the hash that goes with it, and the
  known-header lookup. The locale \<open>keyed_equality\<close> is the contract of \<^verbatim>\<open>PartialEq\<close>/\<^verbatim>\<open>Eq\<close>/
  \<^verbatim>\<open>Hash\<close>: equality is equality of a key. It is interpreted on byte strings and on header
  names, and gives the equivalence laws and the agreement of hash and equality.
\<close>

section \<open>Token characters\<close>

definition tchar_match :: "u8 \<Rightarrow> bool" where
  "tchar_match b =
     (b \<in> set (bs ''!#$%&'') \<or> b = 0x27 \<or> b \<in> set (bs ''*+-.^_`|~'')
      \<or> (0x30 \<le> b \<and> b \<le> 0x39) \<or> (0x41 \<le> b \<and> b \<le> 0x5A) \<or> (0x61 \<le> b \<and> b \<le> 0x7A))"

text \<open>The table is built by a loop over all 256 byte values.\<close>

definition TCHAR_TABLE :: bytes where
  "TCHAR_TABLE = map (\<lambda>n. if tchar_match (of_nat n) then 1 else 0) [0..<256]"

definition Tchar_is_valid :: "u8 \<Rightarrow> bool" where
  "Tchar_is_valid b = (TCHAR_TABLE ! unat b \<noteq> 0)"

section \<open>Header names\<close>

datatype KnownHeader =
    H_Host | H_ContentLength | H_ContentType | H_TransferEncoding | H_Connection | H_Accept
  | H_UserAgent | H_AcceptEncoding | H_Location | H_CacheControl | H_Date | H_Server
  | H_ContentEncoding | H_SetCookie | H_Cookie | H_Authorization

datatype HeaderName = Known KnownHeader | Other bytes

abbreviation HN_Host :: HeaderName where "HN_Host \<equiv> Known H_Host"
abbreviation HN_ContentLength :: HeaderName where "HN_ContentLength \<equiv> Known H_ContentLength"
abbreviation HN_TransferEncoding :: HeaderName where "HN_TransferEncoding \<equiv> Known H_TransferEncoding"
abbreviation HN_Connection :: HeaderName where "HN_Connection \<equiv> Known H_Connection"
abbreviation HN_Location :: HeaderName where "HN_Location \<equiv> Known H_Location"
abbreviation HN_Cookie :: HeaderName where "HN_Cookie \<equiv> Known H_Cookie"
abbreviation HN_Authorization :: HeaderName where "HN_Authorization \<equiv> Known H_Authorization"

fun canonical :: "KnownHeader \<Rightarrow> bytes" where
  "canonical H_Host = bs ''Host''"
| "canonical H_ContentLength = bs ''Content-Length''"
| "canonical H_ContentType = bs ''Content-Type''"
| "canonical H_TransferEncoding = bs ''Transfer-Encoding''"
| "canonical H_Connection = bs ''Connection''"
| "canonical H_Accept = bs ''Accept''"
| "canonical H_UserAgent = bs ''User-Agent''"
| "canonical H_AcceptEncoding = bs ''Accept-Encoding''"
| "canonical H_Location = bs ''Location''"
| "canonical H_CacheControl = bs ''Cache-Control''"
| "canonical H_Date = bs ''Date''"
| "canonical H_Server = bs ''Server''"
| "canonical H_ContentEncoding = bs ''Content-Encoding''"
| "canonical H_SetCookie = bs ''Set-Cookie''"
| "canonical H_Cookie = bs ''Cookie''"
| "canonical H_Authorization = bs ''Authorization''"

definition KNOWN_HEADERS :: "(KnownHeader \<times> bytes) list" where
  "KNOWN_HEADERS =
     [(H_Host, bs ''host''), (H_ContentLength, bs ''content-length''),
      (H_ContentType, bs ''content-type''), (H_TransferEncoding, bs ''transfer-encoding''),
      (H_Connection, bs ''connection''), (H_Accept, bs ''accept''),
      (H_UserAgent, bs ''user-agent''), (H_AcceptEncoding, bs ''accept-encoding''),
      (H_Location, bs ''location''), (H_CacheControl, bs ''cache-control''),
      (H_Date, bs ''date''), (H_Server, bs ''server''),
      (H_ContentEncoding, bs ''content-encoding''), (H_SetCookie, bs ''set-cookie''),
      (H_Cookie, bs ''cookie''), (H_Authorization, bs ''authorization'')]"

fun name_as_bytes :: "HeaderName \<Rightarrow> bytes" where
  "name_as_bytes (Known k) = canonical k"
| "name_as_bytes (Other raw) = raw"

definition from_bytes :: "bytes \<Rightarrow> HeaderName" where
  "from_bytes bytes =
     (case find (\<lambda>(_, lower). ascii_eq_ignore_case bytes lower) KNOWN_HEADERS of
        None \<Rightarrow> Other bytes
      | Some (known, _) \<Rightarrow> Known known)"

definition name_raw :: "bytes \<Rightarrow> HeaderName" where
  "name_raw bytes = Other bytes"

fun name_eq :: "HeaderName \<Rightarrow> HeaderName \<Rightarrow> bool" where
  "name_eq (Known a) (Known b) = (a = b)"
| "name_eq (Other a) (Other b) = ascii_eq_ignore_case a b"
| "name_eq (Other raw) (Known k) = ascii_eq_ignore_case raw (canonical k)"
| "name_eq (Known k) (Other raw) = ascii_eq_ignore_case raw (canonical k)"

text \<open>The bytes fed to the hasher.\<close>

definition name_hash_bytes :: "HeaderName \<Rightarrow> bytes" where
  "name_hash_bytes self =
     map to_ascii_lowercase (case self of Known k \<Rightarrow> canonical k | Other b \<Rightarrow> b)"

record Header =
  hname :: HeaderName
  hvalue :: bytes

definition Header_empty :: Header where
  "Header_empty = \<lparr> hname = HN_Host, hvalue = [] \<rparr>"

section \<open>The contract of equality and hashing\<close>

locale keyed_equality =
  fixes eq :: "'a \<Rightarrow> 'a \<Rightarrow> bool" and key :: "'a \<Rightarrow> 'k"
  assumes eq_iff_key: "eq a b \<longleftrightarrow> key a = key b"
begin

lemma eq_refl [simp]: "eq a a"
  by (simp add: eq_iff_key)

lemma eq_sym: "eq a b \<longleftrightarrow> eq b a"
  by (auto simp: eq_iff_key)

lemma eq_trans: "eq a b \<Longrightarrow> eq b c \<Longrightarrow> eq a c"
  by (simp add: eq_iff_key)

lemma eq_cong: "eq a b \<Longrightarrow> eq a c \<longleftrightarrow> eq b c"
  by (simp add: eq_iff_key)

end

interpretation bytes_ci: keyed_equality ascii_eq_ignore_case lower_bytes
  by unfold_locales (rule ascii_eq_ignore_case_iff)

section \<open>Lemmas\<close>

lemma Tchar_is_valid_iff [code]: "Tchar_is_valid b = tchar_match b"
proof -
  have "[0..<256] ! unat b = unat b" by simp
  then have "TCHAR_TABLE ! unat b = (if tchar_match b then 1 else 0)"
    unfolding TCHAR_TABLE_def by (subst nth_map) simp_all
  then show ?thesis by (simp add: Tchar_is_valid_def)
qed

lemma tchar_facts:
  assumes "Tchar_is_valid b"
  shows "b \<noteq> COLON" "b \<noteq> CR" "b \<noteq> LF" "b \<noteq> SP" "b \<noteq> HTAB" "0x20 < b" "b < 0x7F"
  using assms unfolding Tchar_is_valid_iff
  by (auto simp: tchar_match_def bs_def word_le_nat_alt word_less_nat_alt)

lemma known_canonical:
  "map (\<lambda>(k, l). (k, lower_bytes (canonical k))) KNOWN_HEADERS = KNOWN_HEADERS"
  by code_simp

lemma known_complete: "(k, lower_bytes (canonical k)) \<in> set KNOWN_HEADERS"
proof -
  have "k \<in> fst ` set KNOWN_HEADERS" by (cases k) (simp_all add: KNOWN_HEADERS_def)
  then obtain l where kl: "(k, l) \<in> set KNOWN_HEADERS" by auto
  then have "(k, lower_bytes (canonical k)) \<in> (\<lambda>(k, l). (k, lower_bytes (canonical k))) ` set KNOWN_HEADERS"
    by force
  then show ?thesis by (metis known_canonical set_map)
qed

lemma known_lower: "(k, l) \<in> set KNOWN_HEADERS \<Longrightarrow> l = lower_bytes (canonical k)"
proof -
  assume kl: "(k, l) \<in> set KNOWN_HEADERS"
  have "list_all (\<lambda>(k, l). l = lower_bytes (canonical k)) KNOWN_HEADERS" by code_simp
  with kl show ?thesis by (auto simp: list_all_iff)
qed

lemma known_distinct: "distinct (map snd KNOWN_HEADERS)"
  by code_simp

lemma canonical_lower_inject: "lower_bytes (canonical j) = lower_bytes (canonical k) \<longleftrightarrow> j = k"
  using known_complete [of j] known_complete [of k] known_distinct
  by (metis (no_types, lifting) distinct_map inj_on_def prod.inject snd_conv)

lemma lower_bytes_idem [simp]: "lower_bytes (lower_bytes b) = lower_bytes b"
proof -
  have "\<forall>b. to_ascii_lowercase (to_ascii_lowercase b) = to_ascii_lowercase b"
    unfolding all_bytes by code_simp
  then show ?thesis by (simp add: lower_bytes_def)
qed

lemma name_eq_key: "name_eq a b \<longleftrightarrow> name_hash_bytes a = name_hash_bytes b"
  by (cases a; cases b)
    (auto simp: name_hash_bytes_def ascii_eq_ignore_case_iff canonical_lower_inject
      simp flip: lower_bytes_def)

interpretation name_ci: keyed_equality name_eq name_hash_bytes
  by unfold_locales (rule name_eq_key)

lemma name_hash_bytes_lower: "name_hash_bytes n = lower_bytes (name_as_bytes n)"
  by (cases n) (simp_all add: name_hash_bytes_def lower_bytes_def)

lemma from_bytes_Known_iff: "from_bytes b = Known k \<longleftrightarrow> lower_bytes b = lower_bytes (canonical k)"
proof
  assume "from_bytes b = Known k"
  then obtain l where "find (\<lambda>(_, l). ascii_eq_ignore_case b l) KNOWN_HEADERS = Some (k, l)"
    by (auto simp: from_bytes_def split: option.splits prod.splits)
  then have "(k, l) \<in> set KNOWN_HEADERS" "ascii_eq_ignore_case b l"
    by (auto simp: find_Some_iff in_set_conv_nth)
  then show "lower_bytes b = lower_bytes (canonical k)"
    using known_lower by (force simp: ascii_eq_ignore_case_iff)
next
  assume e: "lower_bytes b = lower_bytes (canonical k)"
  let ?f = "find (\<lambda>(_, l). ascii_eq_ignore_case b l) KNOWN_HEADERS"
  have "?f \<noteq> None" using known_complete [of k] e
    by (auto simp: find_None_iff ascii_eq_ignore_case_iff intro!: exI [of _ k] exI [of _ "lower_bytes (canonical k)"])
  then obtain j l where f: "?f = Some (j, l)" by auto
  then have "(j, l) \<in> set KNOWN_HEADERS" "ascii_eq_ignore_case b l"
    by (auto simp: find_Some_iff in_set_conv_nth)
  then have "lower_bytes (canonical j) = lower_bytes (canonical k)"
    using e known_lower by (force simp: ascii_eq_ignore_case_iff)
  then show "from_bytes b = Known k" using f by (simp add: from_bytes_def canonical_lower_inject)
qed

lemma from_bytes_Other: "from_bytes b = Other c \<Longrightarrow> c = b"
  by (auto simp: from_bytes_def split: option.splits prod.splits)

lemma from_bytes_hash: "name_hash_bytes (from_bytes b) = lower_bytes b"
proof (cases "from_bytes b")
  case (Known k)
  then show ?thesis using from_bytes_Known_iff [of b k] by (simp add: name_hash_bytes_lower)
next
  case (Other c)
  then show ?thesis using from_bytes_Other [of b c] by (simp add: name_hash_bytes_lower)
qed

text \<open>
  Two header names are equal exactly when their wire bytes are equal up to ASCII letter
  case, whichever of the two representations (known name, raw bytes) each has; equality
  agrees with the bytes fed to the hasher, and the known-name lookup gives a name equal to
  the raw one.
\<close>

theorem header_name_equality:
  "(name_eq a b \<longleftrightarrow> lower_bytes (name_as_bytes a) = lower_bytes (name_as_bytes b))
   \<and> (name_eq a b \<longleftrightarrow> name_hash_bytes a = name_hash_bytes b)
   \<and> name_eq (from_bytes w) (name_raw w)
   \<and> (from_bytes w = Known k \<longleftrightarrow> lower_bytes w = lower_bytes (canonical k))"
  by (simp add: name_ci.eq_iff_key name_hash_bytes_lower from_bytes_Known_iff)
    (simp add: from_bytes_hash name_raw_def flip: name_hash_bytes_lower)

end
