(* ===== verification/Framing.thy ===== *)
theory Framing
  imports Header_Name
begin

text \<open>
  \<^verbatim>\<open>xibalba-proto/src/coding.rs\<close> and \<^verbatim>\<open>xibalba-proto/src/response/framing.rs\<close>: the
  \<^verbatim>\<open>Transfer-Encoding\<close> list as one ordered sequence of codings, and the decision how the
  body of a response is delimited. The lemmas give the exact answer for every header list,
  and that a transfer coding makes \<^verbatim>\<open>Content-Length\<close> irrelevant.
\<close>

section \<open>Transfer codings\<close>

datatype TransferCoding = Absent | CodingChunked | CodingIdentity

text \<open>The inner loop over one header's value.\<close>

definition push_codings :: "bytes \<Rightarrow> bytes list \<Rightarrow> bytes list" where
  "push_codings v codings =
     foldl (\<lambda>acc part. let coding = trim_ows part in if coding \<noteq> [] then acc @ [coding] else acc)
       codings (split_on (\<lambda>b. b = COMMA) v)"

fun collect_codings :: "Header list \<Rightarrow> bool \<times> bytes list \<Rightarrow> bool \<times> bytes list" where
  "collect_codings [] (present, codings) = (present, codings)"
| "collect_codings (header # headers) (present, codings) =
     (if \<not> name_eq (hname header) HN_TransferEncoding
      then collect_codings headers (present, codings)
      else collect_codings headers (True, push_codings (hvalue header) codings))"

definition TransferCodings_parse :: "Header list \<Rightarrow> ParseError + TransferCoding" where
  "TransferCodings_parse headers =
     (let (present, codings) = collect_codings headers (False, []) in
      if \<not> present then Inr Absent
      else if codings = [] then Inr CodingIdentity
      else
        let chunked_count = length (filter (\<lambda>c. ascii_eq_ignore_case c (bs ''chunked'')) codings) in
        if chunked_count > 1 then Inl InvalidTransferEncoding
        else
          let chunked_is_final = ascii_eq_ignore_case (last codings) (bs ''chunked'') in
          if chunked_count = 1 \<and> \<not> chunked_is_final then Inl InvalidTransferEncoding
          else
            let leading = (if chunked_is_final then butlast codings else codings) in
            if list_ex (\<lambda>c. \<not> ascii_eq_ignore_case c (bs ''identity'')) leading
            then Inl UnsupportedTransferCoding
            else if chunked_is_final then Inr CodingChunked else Inr CodingIdentity)"

section \<open>Body framing\<close>

datatype BodyFraming = ContentLength u64 | Chunked | UntilClose | NoBody

text \<open>The loop over the \<^verbatim>\<open>Content-Length\<close> headers.\<close>

fun content_length_loop :: "Header list \<Rightarrow> u64 option \<Rightarrow> ParseError + u64 option" where
  "content_length_loop [] content_length = Inr content_length"
| "content_length_loop (h # headers) content_length =
     (if name_eq (hname h) HN_ContentLength then
        res_bind (ok_or (parse_u64 (hvalue h)) InvalidContentLength) (\<lambda>len.
          if (case content_length of None \<Rightarrow> False | Some prev \<Rightarrow> prev \<noteq> len)
          then Inl InvalidContentLength
          else content_length_loop headers (Some len))
      else content_length_loop headers content_length)"

definition from_response :: "StatusCode \<Rightarrow> Method \<Rightarrow> Header list \<Rightarrow> ParseError + BodyFraming" where
  "from_response status request_method headers =
     (if is_informational status \<or> status = NO_CONTENT \<or> status = NOT_MODIFIED
         \<or> \<not> response_can_have_content request_method status
      then Inr NoBody
      else res_bind (TransferCodings_parse headers) (\<lambda>coding.
        case coding of
          CodingChunked \<Rightarrow> Inr Chunked
        | CodingIdentity \<Rightarrow> Inr UntilClose
        | Absent \<Rightarrow>
            res_bind (content_length_loop headers None) (\<lambda>content_length.
              case content_length of
                Some len \<Rightarrow> Inr (ContentLength len)
              | None \<Rightarrow> Inr UntilClose)))"

section \<open>The list of codings\<close>

text \<open>Reference: the non-empty trimmed elements of all \<^verbatim>\<open>Transfer-Encoding\<close> values, in order.\<close>

definition is_te :: "Header \<Rightarrow> bool" where
  "is_te h = name_eq (hname h) HN_TransferEncoding"

definition is_cl :: "Header \<Rightarrow> bool" where
  "is_cl h = name_eq (hname h) HN_ContentLength"

definition list_elements :: "bytes \<Rightarrow> bytes list" where
  "list_elements v = filter (\<lambda>c. c \<noteq> []) (map trim_ows (split_on (\<lambda>b. b = COMMA) v))"

definition te_codings :: "Header list \<Rightarrow> bytes list" where
  "te_codings hs = map lower_bytes (concat (map (list_elements \<circ> hvalue) (filter is_te hs)))"

lemma push_codings_eq: "push_codings v codings = codings @ list_elements v"
proof -
  have "foldl (\<lambda>acc part. let coding = trim_ows part in if coding \<noteq> [] then acc @ [coding] else acc)
      codings parts = codings @ filter (\<lambda>c. c \<noteq> []) (map trim_ows parts)" for parts
    by (induction parts arbitrary: codings) (simp_all add: Let_def)
  then show ?thesis by (simp add: push_codings_def list_elements_def)
qed

lemma collect_codings_eq:
  "collect_codings hs (p, cs) =
     (p \<or> list_ex is_te hs, cs @ concat (map (list_elements \<circ> hvalue) (filter is_te hs)))"
  by (induction hs arbitrary: p cs) (auto simp: is_te_def push_codings_eq)

abbreviation CHUNKED :: bytes where "CHUNKED \<equiv> bs ''chunked''"
abbreviation IDENTITY :: bytes where "IDENTITY \<equiv> bs ''identity''"

lemma lower_literals [simp]: "lower_bytes CHUNKED = CHUNKED" "lower_bytes IDENTITY = IDENTITY"
  by code_simp+

lemma coding_literals [simp]: "CHUNKED \<noteq> IDENTITY" "IDENTITY \<noteq> CHUNKED"
  by code_simp+

lemma ci_chunked: "ascii_eq_ignore_case c CHUNKED \<longleftrightarrow> lower_bytes c = CHUNKED"
  and ci_identity: "ascii_eq_ignore_case c IDENTITY \<longleftrightarrow> lower_bytes c = IDENTITY"
  by (simp_all add: ascii_eq_ignore_case_iff)

text \<open>The decision on the lower-cased list.\<close>

definition codings_verdict :: "bytes list \<Rightarrow> ParseError + TransferCoding" where
  "codings_verdict cs =
     (if cs = [] then Inr CodingIdentity
      else if count_list cs CHUNKED > 1 \<or> (CHUNKED \<in> set cs \<and> last cs \<noteq> CHUNKED)
      then Inl InvalidTransferEncoding
      else if \<exists>c\<in>set cs. c \<noteq> IDENTITY \<and> c \<noteq> CHUNKED then Inl UnsupportedTransferCoding
      else if last cs = CHUNKED then Inr CodingChunked else Inr CodingIdentity)"

lemma filter_chunked_count:
  "length (filter (\<lambda>c. lower_bytes c = CHUNKED) cs) = count_list (map lower_bytes cs) CHUNKED"
  by (induction cs) auto

lemma count_last_butlast:
  assumes "cs \<noteq> []" "count_list cs x = Suc 0" "last cs = x"
  shows "x \<notin> set (butlast cs)"
proof -
  obtain ys where "cs = ys @ [x]" using assms(1,3) by (metis append_butlast_last_id)
  with assms(2) show ?thesis by (simp add: count_list_0_iff)
qed

lemma repeated_or_inner:
  "(count_list cs x > 1 \<or> (x \<in> set cs \<and> last cs \<noteq> x)) \<longleftrightarrow> (\<exists>a b. cs = a @ [x] @ b \<and> b \<noteq> [])"
  (is "?L \<longleftrightarrow> ?R")
proof
  assume ?L
  then have "x \<in> set cs" using count_list_0_iff [of cs x] by auto
  then obtain a b where ab: "cs = a @ x # b" "x \<notin> set a" by (metis split_list_first)
  have "b \<noteq> []"
  proof
    assume "b = []"
    with ab have "count_list cs x = 1" "last cs = x" by simp_all
    with \<open>?L\<close> show False by simp
  qed
  with ab show ?R by auto
next
  assume ?R
  then obtain a b where ab: "cs = a @ [x] @ b" "b \<noteq> []" by blast
  show ?L
  proof (cases "last cs = x")
    case True
    then have "x \<in> set b" using ab last_in_set [of b] by simp
    then have "count_list b x \<noteq> 0" by (simp add: count_list_0_iff)
    then show ?thesis using ab by simp
  next
    case False
    then show ?thesis using ab by simp
  qed
qed

lemma TransferCodings_parse_eq:
  "TransferCodings_parse hs =
     (if list_ex is_te hs then codings_verdict (te_codings hs) else Inr Absent)"
proof (cases "list_ex is_te hs")
  case False
  then show ?thesis by (simp add: TransferCodings_parse_def collect_codings_eq)
next
  case True
  define cs where "cs = concat (map (list_elements \<circ> hvalue) (filter is_te hs))"
  have te: "te_codings hs = map lower_bytes cs" by (simp add: te_codings_def cs_def)
  have cc: "collect_codings hs (False, []) = (True, cs)"
    using True by (simp add: collect_codings_eq cs_def)
  let ?ls = "map lower_bytes cs"
  have count0: "count_list ?ls CHUNKED = 0 \<longleftrightarrow> CHUNKED \<notin> set ?ls" by (rule count_list_0_iff)
  have inI: "list_ex (\<lambda>c. \<not> ascii_eq_ignore_case c IDENTITY) xs
      \<longleftrightarrow> (\<exists>c\<in>set (map lower_bytes xs). c \<noteq> IDENTITY)" for xs
    by (auto simp: list_ex_iff ci_identity)
  show ?thesis
  proof (cases "cs = []")
    case True
    then show ?thesis using \<open>list_ex is_te hs\<close> cc te
      by (simp add: TransferCodings_parse_def codings_verdict_def)
  next
    case False
    let ?n = "count_list ?ls CHUNKED"
    have ne: "?ls \<noteq> []" using False by simp
    have lst: "last ?ls = lower_bytes (last cs)" and bl: "map lower_bytes (butlast cs) = butlast ?ls"
      using False by (simp_all add: last_map map_butlast)
    have parse: "TransferCodings_parse hs =
       (if ?n > 1 then Inl InvalidTransferEncoding
        else if ?n = 1 \<and> last ?ls \<noteq> CHUNKED then Inl InvalidTransferEncoding
        else if \<exists>c\<in>set (if last ?ls = CHUNKED then butlast ?ls else ?ls). c \<noteq> IDENTITY
        then Inl UnsupportedTransferCoding
        else if last ?ls = CHUNKED then Inr CodingChunked else Inr CodingIdentity)"
      unfolding TransferCodings_parse_def cc using False
      by (simp only: prod.case not_True_eq_False if_False Let_def filter_chunked_count inI ci_chunked
          lst bl if_distrib [of "map lower_bytes"])
    have mem: "last ?ls \<in> set ?ls" using ne by (rule last_in_set)
    have sub: "set (butlast ?ls) \<subseteq> set ?ls" by (auto dest: in_set_butlastD)
    have split: "c \<in> set ?ls \<Longrightarrow> c = last ?ls \<or> c \<in> set (butlast ?ls)" for c
    proof -
      have "set ?ls = set (butlast ?ls @ [last ?ls])" unfolding append_butlast_last_id [OF ne] ..
      then show "c \<in> set ?ls \<Longrightarrow> c = last ?ls \<or> c \<in> set (butlast ?ls)" by auto
    qed
    consider "?n > 1" | "?n = 1" "last ?ls \<noteq> CHUNKED" | "?n = 1" "last ?ls = CHUNKED" | "?n = 0"
      by linarith
    then have "TransferCodings_parse hs = codings_verdict ?ls"
    proof cases
      case 1
      then show ?thesis using ne by (simp add: parse codings_verdict_def)
    next
      case 2
      then have "CHUNKED \<in> set ?ls" using count0 by auto
      with 2 show ?thesis using ne by (simp add: parse codings_verdict_def del: set_map)
    next
      case 3
      then have "CHUNKED \<notin> set (butlast ?ls)" using count_last_butlast [OF ne] by simp
      then have "(\<exists>c\<in>set (butlast ?ls). c \<noteq> IDENTITY) \<longleftrightarrow> (\<exists>c\<in>set ?ls. c \<noteq> IDENTITY \<and> c \<noteq> CHUNKED)"
        using sub split 3(2) by blast
      with 3 show ?thesis using ne by (simp add: parse codings_verdict_def del: set_map)
    next
      case 4
      then have "CHUNKED \<notin> set ?ls" using count0 by auto
      then have "(\<exists>c\<in>set ?ls. c \<noteq> IDENTITY) \<longleftrightarrow> (\<exists>c\<in>set ?ls. c \<noteq> IDENTITY \<and> c \<noteq> CHUNKED)"
        "last ?ls \<noteq> CHUNKED" using mem by metis+
      with 4 \<open>CHUNKED \<notin> set ?ls\<close> show ?thesis using ne
        by (simp add: parse codings_verdict_def del: set_map)
    qed
    then show ?thesis using \<open>list_ex is_te hs\<close> te by simp
  qed
qed

lemma verdict_not_absent: "codings_verdict cs \<noteq> Inr Absent"
  by (simp add: codings_verdict_def)

lemma verdict_invalid:
  "codings_verdict cs = Inl InvalidTransferEncoding \<longleftrightarrow> (\<exists>a b. cs = a @ [CHUNKED] @ b \<and> b \<noteq> [])"
proof -
  have "codings_verdict cs = Inl InvalidTransferEncoding \<longleftrightarrow>
    count_list cs CHUNKED > 1 \<or> (CHUNKED \<in> set cs \<and> last cs \<noteq> CHUNKED)"
    by (simp add: codings_verdict_def)
  then show ?thesis by (simp only: repeated_or_inner)
qed

lemma verdict_chunked:
  "codings_verdict cs = Inr CodingChunked \<longleftrightarrow> (\<exists>n. cs = replicate n IDENTITY @ [CHUNKED])"
proof
  assume c: "codings_verdict cs = Inr CodingChunked"
  then have ne: "cs \<noteq> []" and l: "last cs = CHUNKED" and le: "\<not> count_list cs CHUNKED > 1"
    and all: "\<forall>c\<in>set cs. c = IDENTITY \<or> c = CHUNKED"
    by (auto simp: codings_verdict_def split: if_splits)
  from ne l obtain ys where ys: "cs = ys @ [CHUNKED]" by (metis append_butlast_last_id)
  with le have "CHUNKED \<notin> set ys" by (simp add: count_list_0_iff)
  with all ys have "\<forall>c\<in>set ys. c = IDENTITY" by auto
  then have "ys = replicate (length ys) IDENTITY" by (simp add: replicate_length_same)
  with ys show "\<exists>n. cs = replicate n IDENTITY @ [CHUNKED]" by metis
next
  assume "\<exists>n. cs = replicate n IDENTITY @ [CHUNKED]"
  then obtain n where "cs = replicate n IDENTITY @ [CHUNKED]" ..
  moreover have "count_list (replicate n IDENTITY) CHUNKED = 0" by (simp add: count_list_0_iff)
  ultimately show "codings_verdict cs = Inr CodingChunked" by (auto simp: codings_verdict_def)
qed

lemma verdict_identity:
  "codings_verdict cs = Inr CodingIdentity \<longleftrightarrow> (\<exists>n. cs = replicate n IDENTITY)"
proof
  assume c: "codings_verdict cs = Inr CodingIdentity"
  have "\<forall>c\<in>set cs. c = IDENTITY"
  proof (cases "cs = []")
    case False
    with c have "\<not> (CHUNKED \<in> set cs \<and> last cs \<noteq> CHUNKED)" "last cs \<noteq> CHUNKED"
      "\<forall>c\<in>set cs. c = IDENTITY \<or> c = CHUNKED"
      by (auto simp: codings_verdict_def split: if_splits)
    then show ?thesis by auto
  qed simp
  then show "\<exists>n. cs = replicate n IDENTITY" by (metis replicate_length_same)
next
  assume "\<exists>n. cs = replicate n IDENTITY"
  then obtain n where "cs = replicate n IDENTITY" ..
  moreover have "count_list (replicate n IDENTITY) CHUNKED = 0" by (simp add: count_list_0_iff)
  ultimately show "codings_verdict cs = Inr CodingIdentity" by (simp add: codings_verdict_def)
qed

text \<open>
  The exact meaning of a list of \<^verbatim>\<open>Transfer-Encoding\<close> headers. The body is chunked exactly
  when the codings, over all the headers in order, are any number of \<^verbatim>\<open>identity\<close> followed by
  one final \<^verbatim>\<open>chunked\<close>; a repeated or non-final \<^verbatim>\<open>chunked\<close> is invalid, and otherwise any
  other coding is unsupported.
\<close>

theorem transfer_codings_meaning:
  "(TransferCodings_parse hs = Inr Absent \<longleftrightarrow> \<not> list_ex is_te hs)
   \<and> (TransferCodings_parse hs = Inr CodingChunked \<longleftrightarrow>
        (\<exists>n. te_codings hs = replicate n IDENTITY @ [CHUNKED]))
   \<and> (TransferCodings_parse hs = Inr CodingIdentity \<longleftrightarrow>
        list_ex is_te hs \<and> (\<exists>n. te_codings hs = replicate n IDENTITY))
   \<and> (TransferCodings_parse hs = Inl InvalidTransferEncoding \<longleftrightarrow>
        (\<exists>a b. te_codings hs = a @ [CHUNKED] @ b \<and> b \<noteq> []))"
proof -
  have "te_codings hs = []" if "\<not> list_ex is_te hs"
    using that by (simp add: te_codings_def filter_empty_conv list_ex_iff)
  then show ?thesis
    using verdict_not_absent [of "te_codings hs"]
    unfolding TransferCodings_parse_eq
    by (cases "list_ex is_te hs") (simp_all add: verdict_chunked verdict_identity verdict_invalid)
qed

section \<open>Content-Length\<close>

lemma content_length_loop_Inr:
  "content_length_loop hs acc = Inr r \<longleftrightarrow>
     (if list_ex is_cl hs
      then \<exists>n. r = Some n \<and> acc \<in> {None, Some n}
           \<and> (\<forall>h\<in>set hs. is_cl h \<longrightarrow> parse_u64 (hvalue h) = Some n)
      else r = acc)"
proof (induction hs arbitrary: acc)
  case (Cons h hs)
  show ?case
  proof (cases "is_cl h")
    case False
    then show ?thesis using Cons.IH by (simp add: is_cl_def)
  next
    case cl: True
    then have ne: "name_eq (hname h) HN_ContentLength" by (simp add: is_cl_def)
    show ?thesis
    proof (cases "parse_u64 (hvalue h)")
      case None
      then show ?thesis using cl ne by simp
    next
      case (Some n)
      show ?thesis
      proof (cases "acc \<in> {None, Some n}")
        case True
        then have "content_length_loop (h # hs) acc = content_length_loop hs (Some n)"
          using ne Some by auto
        then show ?thesis using Cons.IH [of "Some n"] True cl Some
          by (auto simp: list_ex_iff simp del: content_length_loop.simps)
      next
        case False
        then have "content_length_loop (h # hs) acc = Inl InvalidContentLength"
          using ne Some by (cases acc) auto
        then show ?thesis using False cl Some by auto
      qed
    qed
  qed
qed auto

lemma content_length_loop_Inl: "content_length_loop hs acc = Inl e \<Longrightarrow> e = InvalidContentLength"
  by (induction hs arbitrary: acc) (auto simp: res_simps split: if_splits)

lemma content_length_loop_filter: "content_length_loop (filter is_cl hs) acc = content_length_loop hs acc"
proof (induction hs arbitrary: acc)
  case (Cons h hs)
  then show ?case by (simp add: is_cl_def cong: if_cong)
qed simp

section \<open>Framing decisions\<close>

definition bodiless :: "StatusCode \<Rightarrow> Method \<Rightarrow> bool" where
  "bodiless status m =
     (is_informational status \<or> as_u16 status = 204 \<or> as_u16 status = 304
      \<or> m = Head \<or> (m = Connect \<and> is_success status))"

lemma from_response_bodiless: "bodiless s m \<Longrightarrow> from_response s m hs = Inr NoBody"
  by (cases s) (auto simp: bodiless_def from_response_def response_can_have_content_iff)

lemma from_response_body:
  assumes "\<not> bodiless s m"
  shows "from_response s m hs =
    (if list_ex is_te hs
     then res_bind (codings_verdict (te_codings hs)) (\<lambda>c. Inr (if c = CodingChunked then Chunked else UntilClose))
     else res_bind (content_length_loop hs None) (\<lambda>l. Inr (case l of Some n \<Rightarrow> ContentLength n | None \<Rightarrow> UntilClose)))"
proof -
  from assms have "\<not> (is_informational s \<or> s = NO_CONTENT \<or> s = NOT_MODIFIED \<or> \<not> response_can_have_content m s)"
    by (cases s) (auto simp: bodiless_def response_can_have_content_iff)
  then have "from_response s m hs = res_bind (TransferCodings_parse hs) (\<lambda>coding.
        case coding of
          CodingChunked \<Rightarrow> Inr Chunked
        | CodingIdentity \<Rightarrow> Inr UntilClose
        | Absent \<Rightarrow>
            res_bind (content_length_loop hs None) (\<lambda>content_length.
              case content_length of
                Some len \<Rightarrow> Inr (ContentLength len)
              | None \<Rightarrow> Inr UntilClose))"
    unfolding from_response_def by (simp only: if_False)
  then show ?thesis
    using verdict_not_absent [of "te_codings hs"] unfolding TransferCodings_parse_eq
    by (cases "codings_verdict (te_codings hs)"; cases "content_length_loop hs None")
      (auto split: TransferCoding.splits option.splits)
qed


text \<open>
  C20: request smuggling through conflicting lengths is closed. When any \<^verbatim>\<open>Transfer-Encoding\<close>
  header is present, removing every \<^verbatim>\<open>Content-Length\<close> header (or adding one, read the other
  way) changes nothing in the framing, errors included; two \<^verbatim>\<open>Content-Length\<close> headers that
  parse to different numbers, or one that does not parse, never yield a body length.
\<close>

theorem framing_no_smuggling:
  "(list_ex is_te hs \<longrightarrow> from_response s m (filter (\<lambda>h. \<not> is_cl h) hs) = from_response s m hs)
   \<and> (h \<in> set hs \<and> is_cl h \<and> h' \<in> set hs \<and> is_cl h' \<and> parse_u64 (hvalue h) \<noteq> parse_u64 (hvalue h')
       \<and> \<not> bodiless s m \<and> \<not> list_ex is_te hs
      \<longrightarrow> from_response s m hs = Inl InvalidContentLength)"
proof (intro conjI impI)
  assume te: "list_ex is_te hs"
  have disj: "is_te h \<Longrightarrow> \<not> is_cl h" for h
    unfolding is_te_def is_cl_def using name_ci.eq_cong [of "hname h" HN_TransferEncoding HN_ContentLength] by simp
  then have "filter is_te (filter (\<lambda>h. \<not> is_cl h) hs) = filter is_te hs"
    by (induction hs) auto
  then have "te_codings (filter (\<lambda>h. \<not> is_cl h) hs) = te_codings hs" by (simp only: te_codings_def)
  moreover have "list_ex is_te (filter (\<lambda>h. \<not> is_cl h) hs)" using te disj by (auto simp: list_ex_iff)
  ultimately show "from_response s m (filter (\<lambda>h. \<not> is_cl h) hs) = from_response s m hs"
    using te by (cases "bodiless s m") (simp_all add: from_response_bodiless from_response_body)
next
  assume a: "h \<in> set hs \<and> is_cl h \<and> h' \<in> set hs \<and> is_cl h' \<and> parse_u64 (hvalue h) \<noteq> parse_u64 (hvalue h')
       \<and> \<not> bodiless s m \<and> \<not> list_ex is_te hs"
  then have "list_ex is_cl hs" by (auto simp: list_ex_iff)
  moreover have "\<not> (\<forall>h\<in>set hs. is_cl h \<longrightarrow> parse_u64 (hvalue h) = Some n)" for n using a by metis
  ultimately have "\<And>r. content_length_loop hs None \<noteq> Inr r" by (simp add: content_length_loop_Inr)
  then obtain e where "content_length_loop hs None = Inl e" by (cases "content_length_loop hs None") auto
  then show "from_response s m hs = Inl InvalidContentLength"
    using a content_length_loop_Inl by (simp add: from_response_body)
qed

theorem framing_no_smuggling_witness:
  "from_response (StatusCode 200) Get
     (filter (\<lambda>h. \<not> is_cl h)
        [\<lparr> hname = Other (bs ''content-length''), hvalue = bs ''5'' \<rparr>,
         \<lparr> hname = Other (bs ''transfer-encoding''), hvalue = bs ''chunked'' \<rparr>])
   = from_response (StatusCode 200) Get
        [\<lparr> hname = Other (bs ''content-length''), hvalue = bs ''5'' \<rparr>,
         \<lparr> hname = Other (bs ''transfer-encoding''), hvalue = bs ''chunked'' \<rparr>]
   \<and> from_response (StatusCode 200) Get
        [\<lparr> hname = HN_ContentLength, hvalue = bs ''5'' \<rparr>, \<lparr> hname = HN_ContentLength, hvalue = bs ''6'' \<rparr>]
     = Inl InvalidContentLength"
proof -
  have te: "list_ex is_te
      [\<lparr> hname = Other (bs ''content-length''), hvalue = bs ''5'' \<rparr>,
       \<lparr> hname = Other (bs ''transfer-encoding''), hvalue = bs ''chunked'' \<rparr>]"
    by code_simp
  have cl: "is_cl \<lparr> hname = HN_ContentLength, hvalue = v \<rparr>" for v
    by (simp add: is_cl_def)
  have ne: "parse_u64 (bs ''5'') \<noteq> parse_u64 (bs ''6'')" by code_simp
  have nb: "\<not> bodiless (StatusCode 200) Get" by code_simp
  have nte: "\<not> list_ex is_te [\<lparr> hname = HN_ContentLength, hvalue = bs ''5'' \<rparr>,
      \<lparr> hname = HN_ContentLength, hvalue = bs ''6'' \<rparr>]" by (simp add: is_te_def)
  show ?thesis
    by (intro conjI)
      (rule framing_no_smuggling [THEN conjunct1, rule_format, OF te],
       rule framing_no_smuggling [THEN conjunct2, rule_format,
         of "\<lparr> hname = HN_ContentLength, hvalue = bs ''5'' \<rparr>" _ "\<lparr> hname = HN_ContentLength, hvalue = bs ''6'' \<rparr>"],
       use cl ne nb nte in simp)
qed


end
