(* ===== verification/Response_Head.thy ===== *)
theory Response_Head
  imports Framing
begin

text \<open>
  \<^verbatim>\<open>xibalba-proto/src/response/head.rs\<close>: the response-head parser. A slice the parser
  borrows from the buffer is a \<open>span\<close>, its start and end offset; the headers written to the
  caller's slots hold the contents, and the parser model returns the spans beside them
  (they are what the pointers of the borrowed slices carry). The lemmas give the grammar of
  one header line in both directions, and that an answer other than \<^verbatim>\<open>Incomplete\<close> is final
  under any further input.
\<close>

section \<open>Definitions\<close>

type_synonym span = "usize \<times> usize"

definition span_bytes :: "bytes \<Rightarrow> span \<Rightarrow> bytes" where
  "span_bytes buf s = slice buf (fst s) (snd s)"

definition is_ctl :: "u8 \<Rightarrow> bool" where
  "is_ctl b = ((b < 0x20 \<or> b = 0x7F) \<and> b \<noteq> HTAB)"

record ResponseHead =
  version :: Version
  status :: StatusCode
  reason :: bytes
  header_count :: usize

definition head_headers :: "ResponseHead \<Rightarrow> Header list \<Rightarrow> ParseError + Header list" where
  "head_headers self slots =
     (if header_count self \<le> length slots then Inr (take (header_count self) slots)
      else Inl TooManyHeaders)"

text \<open>Phase 1: the scan of the name, up to the colon.\<close>

fun scan_name :: "bytes \<Rightarrow> usize \<Rightarrow> Error + usize option" where
  "scan_name [] idx = Inr None"
| "scan_name (b # rest) idx =
     (if b = COLON then Inr (Some idx)
      else if \<not> Tchar_is_valid b then Inl (Parse InvalidHeaderName)
      else scan_name rest (idx + 1))"

text \<open>Phase 2: skipping leading whitespace, \<open>i\<close> being the index of the first byte of the list.\<close>

fun skip_ows :: "bytes \<Rightarrow> usize \<Rightarrow> usize" where
  "skip_ows [] i = i"
| "skip_ows (b # rest) i = (if b = SP \<or> b = HTAB then skip_ows rest (i + 1) else i)"

text \<open>The trailing-whitespace cut: the length of \<^verbatim>\<open>raw_value\<close> that is kept.\<close>

definition trimmed_len :: "bytes \<Rightarrow> usize" where
  "trimmed_len raw_value =
     (if raw_value \<noteq> [] \<and> (last raw_value = SP \<or> last raw_value = HTAB)
      then (case rposition (\<lambda>b. b \<noteq> SP \<and> b \<noteq> HTAB) raw_value of None \<Rightarrow> 0 | Some p \<Rightarrow> p + 1)
      else length raw_value)"

definition parse_header_line :: "bytes \<Rightarrow> Error + span \<times> span \<times> usize" where
  "parse_header_line line =
     (if line = [] then Inl (Parse InvalidHeaderName)
      else res_bind (scan_name line 0) (\<lambda>name_len.
        res_bind (ok_or name_len (Parse Incomplete)) (\<lambda>i.
          if i = 0 then Inl (Parse InvalidHeaderName)
          else
            let name_bytes = (0, i);
                value_start = skip_ows (drop (i + 1) line) (i + 1)
            in res_bind (ok_or (position is_ctl (drop value_start line)) (Parse Incomplete)) (\<lambda>ctl_pos.
              let crlf = value_start + ctl_pos in
              if line ! crlf \<noteq> CR then Inl (Parse InvalidHeaderValue)
              else if crlf + 1 \<ge> length line \<or> line ! (crlf + 1) \<noteq> LF then Inl (Parse Incomplete)
              else
                let raw_value = slice line value_start crlf in
                Inr (name_bytes, (value_start, value_start + trimmed_len raw_value), crlf + 2)))))"

text \<open>A span of the line as a span of the whole buffer.\<close>

definition shift_span :: "usize \<Rightarrow> span \<Rightarrow> span" where
  "shift_span pos s = (pos + fst s, pos + snd s)"

lemma res_bind_cong [fundef_cong]:
  "r = r' \<Longrightarrow> (\<And>x. r' = Inr x \<Longrightarrow> f x = g x) \<Longrightarrow> res_bind r f = res_bind r' g"
  by (cases r') simp_all

lemma parse_header_line_consumed: "parse_header_line line = Inr (ns, vs, n) \<Longrightarrow> 0 < n"
  by (auto simp: parse_header_line_def res_simps Let_def split: if_splits)

text \<open>The header loop. The last list is the spans of the headers parsed so far.\<close>

function parse_headers ::
  "bytes \<Rightarrow> usize \<Rightarrow> usize \<Rightarrow> Header list \<Rightarrow> (span \<times> span) list
   \<Rightarrow> Error + (Header list \<times> (span \<times> span) list) \<times> usize \<times> usize" where
  "parse_headers buf pos count slots spans =
     (if pos \<ge> length buf then Inl (Parse Incomplete)
      else if buf ! pos = CR \<and> pos + 1 \<ge> length buf then Inl (Parse Incomplete)
      else if buf ! pos = CR \<and> buf ! (pos + 1) = LF then Inr ((slots, spans), count, pos + 2)
      else res_bind (parse_header_line (drop pos buf)) (\<lambda>(name_span, value_span, line_end).
        if count \<ge> length slots then Inl (Parse TooManyHeaders)
        else
          parse_headers buf (pos + line_end) (count + 1)
            (slots[count := \<lparr> hname = name_raw (span_bytes (drop pos buf) name_span),
                              hvalue = span_bytes (drop pos buf) value_span \<rparr>])
            (spans @ [(shift_span pos name_span, shift_span pos value_span)])))"
  by pat_completeness auto
termination
  by (relation "measure (\<lambda>(buf, pos, _). length buf - pos)")
    (auto dest: parse_header_line_consumed)

declare parse_headers.simps [simp del]

text \<open>The status line, without its CRLF: lines 49 to 75 of the parser.\<close>

definition parse_status_line :: "bytes \<Rightarrow> Error + Version \<times> StatusCode \<times> bytes" where
  "parse_status_line status_line =
     (if length status_line < 12 then Inl (Parse InvalidVersion)
      else res_bind (version_try_from (take 8 status_line)) (\<lambda>ver.
        if status_line ! 8 \<noteq> SP then Inl (Parse InvalidVersion)
        else res_bind (status_try_from (slice status_line 9 12)) (\<lambda>st.
          res_bind
            (if length status_line \<le> 12 then Inr []
             else if status_line ! 12 = SP then Inr (drop 13 status_line)
             else Inl (Parse InvalidStatusCode)) (\<lambda>rsn.
            if list_ex (\<lambda>b. b \<noteq> HTAB \<and> (b < 0x20 \<or> b = 0x7F)) rsn
            then Inl (Parse InvalidReasonPhrase)
            else Inr (ver, st, rsn)))))"

text \<open>
  \<open>parse_head buf slots\<close> gives the head, the caller's slots with the headers written to
  them, the spans of those headers, and the number of bytes consumed.
\<close>

definition parse_head ::
  "bytes \<Rightarrow> Header list \<Rightarrow> Error + ResponseHead \<times> Header list \<times> (span \<times> span) list \<times> usize" where
  "parse_head buf slots =
     res_bind (ok_or (find_crlf buf) (Parse Incomplete)) (\<lambda>status_line_end.
       res_bind (parse_status_line (take status_line_end buf)) (\<lambda>(ver, st, rsn).
         res_bind (parse_headers buf (status_line_end + 2) 0 slots []) (\<lambda>((slots', spans), count, pos).
           Inr (\<lparr> version = ver, status = st, reason = rsn, header_count = count \<rparr>,
                slots', spans, pos))))"

section \<open>The phases of a header line\<close>

lemma scan_name_Some:
  "scan_name line k = Inr (Some i) \<longleftrightarrow>
     k \<le> i \<and> i - k < length line \<and> line ! (i - k) = COLON
     \<and> list_all Tchar_is_valid (take (i - k) line)"
proof (induction line arbitrary: k)
  case (Cons b line)
  show ?case
  proof (cases "i - k")
    case 0
    then show ?thesis using Cons.IH [of "Suc k"] tchar_facts(1) by auto
  next
    case (Suc j)
    then have "i - Suc k = j" "k \<le> i" by simp_all
    then show ?thesis using Cons.IH [of "Suc k"] Suc tchar_facts(1) [of b] by auto
  qed
qed simp

lemma scan_name_None: "scan_name line k = Inr None \<longleftrightarrow> list_all Tchar_is_valid line"
  using tchar_facts(1) by (induction line arbitrary: k) auto

lemma scan_name_Inl: "scan_name line k = Inl e \<Longrightarrow> e = Parse InvalidHeaderName"
  by (induction line arbitrary: k) (auto split: if_splits)

lemma scan_name_append:
  "scan_name line k \<noteq> Inr None \<Longrightarrow> scan_name (line @ ys) k = scan_name line k"
  by (induction line arbitrary: k) auto

lemma skip_ows_eq: "skip_ows xs i = i + length (takeWhile is_ows xs)"
  by (induction xs arbitrary: i) (auto simp: is_ows_def)

lemma is_ctl_facts:
  "is_ctl CR" "is_ctl LF" "\<not> is_ctl SP" "\<not> is_ctl HTAB" "is_ows b \<Longrightarrow> \<not> is_ctl b"
  by (auto simp: is_ctl_def is_ows_def)

lemma trimmed_len_eq:
  "take (trimmed_len v) v = rev (dropWhile is_ows (rev v))" "trimmed_len v \<le> length v"
proof -
  let ?p = "\<lambda>b. b \<noteq> SP \<and> b \<noteq> HTAB"
  have np: "(\<lambda>b. b = SP \<or> b = HTAB) = is_ows" by (auto simp: is_ows_def)
  show "take (trimmed_len v) v = rev (dropWhile is_ows (rev v))"
  proof (cases "v \<noteq> [] \<and> is_ows (last v)")
    case False
    then have "dropWhile is_ows (rev v) = rev v" by (auto simp: dropWhile_eq_self_iff hd_rev)
    moreover have "trimmed_len v = length v" using False by (auto simp: trimmed_len_def is_ows_def)
    ultimately show ?thesis by simp
  next
    case True
    then have t: "trimmed_len v = (case rposition ?p v of None \<Rightarrow> 0 | Some p \<Rightarrow> p + 1)"
      by (auto simp: trimmed_len_def is_ows_def)
    show ?thesis
    proof (cases "position ?p (rev v)")
      case None
      then have "\<forall>b\<in>set (rev v). is_ows b" by (auto simp: position_None_iff is_ows_def)
      then have "dropWhile is_ows (rev v) = []" by simp
      then show ?thesis using t None by (simp only: rposition_def) simp
    next
      case (Some k)
      then have "dropWhile is_ows (rev v) = drop k (rev v)"
        using position_dropWhile [OF Some] by (simp add: np)
      moreover have "k < length v" using position_less [OF Some] by simp
      ultimately show ?thesis using t Some by (simp add: rposition_def drop_rev Suc_diff_Suc)
    qed
  qed
  show "trimmed_len v \<le> length v"
    by (auto simp: trimmed_len_def rposition_Some_iff Suc_le_eq split: option.splits)
qed

section \<open>A header line: grammar\<close>

text \<open>Reference: the text of a header line, with optional whitespace around the value.\<close>

definition header_text :: "bytes \<Rightarrow> bytes \<Rightarrow> bytes \<Rightarrow> bytes \<Rightarrow> bytes" where
  "header_text nm o1 v o2 = nm @ [COLON] @ o1 @ v @ o2 @ CRLF"

definition name_ok :: "bytes \<Rightarrow> bool" where
  "name_ok nm = (nm \<noteq> [] \<and> list_all Tchar_is_valid nm)"

definition ows_ok :: "bytes \<Rightarrow> bool" where
  "ows_ok w = list_all is_ows w"

definition value_ok :: "bytes \<Rightarrow> bool" where
  "value_ok v = (list_all (\<lambda>b. \<not> is_ctl b) v \<and> (v = [] \<or> \<not> is_ows (hd v) \<and> \<not> is_ows (last v)))"

lemma split_raw_value:
  obtains o2 where "raw = take (trimmed_len raw) raw @ o2" "ows_ok o2"
    and "take (trimmed_len raw) raw = [] \<or> \<not> is_ows (last (take (trimmed_len raw) raw))"
proof
  show "raw = take (trimmed_len raw) raw @ rev (takeWhile is_ows (rev raw))"
    unfolding trimmed_len_eq by (metis rev_append rev_rev_ident takeWhile_dropWhile_id)
  show "ows_ok (rev (takeWhile is_ows (rev raw)))"
    by (auto simp: ows_ok_def list_all_iff dest: set_takeWhileD)
  show "take (trimmed_len raw) raw = [] \<or> \<not> is_ows (last (take (trimmed_len raw) raw))"
    unfolding trimmed_len_eq using hd_dropWhile [of is_ows "rev raw"]
    by (auto simp: last_rev simp del: dropWhile_eq_Nil_conv)
qed

text \<open>What follows the colon: the leading whitespace and the rest.\<close>

definition value_part :: "bytes \<Rightarrow> usize \<Rightarrow> bytes" where
  "value_part line i = dropWhile is_ows (drop (i + 1) line)"

definition value_offset :: "bytes \<Rightarrow> usize \<Rightarrow> usize" where
  "value_offset line i = i + 1 + length (takeWhile is_ows (drop (i + 1) line))"

lemma parse_header_line_eq:
  assumes sc: "scan_name line 0 = Inr (Some i)"
  shows "parse_header_line line =
    (if i = 0 then Inl (Parse InvalidHeaderName)
     else case position is_ctl (value_part line i) of
       None \<Rightarrow> Inl (Parse Incomplete)
     | Some c \<Rightarrow>
         if value_part line i ! c \<noteq> CR then Inl (Parse InvalidHeaderValue)
         else if \<not> c + 1 < length (value_part line i) \<or> value_part line i ! (c + 1) \<noteq> LF
         then Inl (Parse Incomplete)
         else Inr ((0, i), (value_offset line i,
                value_offset line i + trimmed_len (take c (value_part line i))),
                value_offset line i + c + 2))"
proof -
  let ?a = "value_offset line i" and ?d = "value_part line i"
  have ne: "line \<noteq> []" using sc scan_name_Some [of line 0 i] by auto
  have i: "i < length line" using sc scan_name_Some [of line 0 i] by auto
  have so: "skip_ows (drop (i + 1) line) (i + 1) = ?a" by (simp add: skip_ows_eq value_offset_def)
  have d: "drop ?a line = ?d"
    by (simp add: dropWhile_eq_drop value_part_def value_offset_def add.commute)
  have al: "?a \<le> length line"
    using i length_takeWhile_le [of is_ows "drop (i + 1) line"] by (simp add: value_offset_def)
  have len: "length ?d = length line - ?a" using d by (metis length_drop)
  show ?thesis
  proof (cases "position is_ctl ?d")
    case None
    then show ?thesis using sc ne unfolding parse_header_line_def Let_def
      by (simp only: res_bind.simps ok_or.simps so d if_False option.case)
  next
    case (Some c)
    have c: "c < length line - ?a" using position_less [OF Some] len by simp
    have n0: "line ! (?a + c) = ?d ! c" using d al by (metis nth_drop)
    have n1: "line ! (?a + c + 1) = ?d ! (c + 1)" using d al by (metis add.assoc nth_drop)
    have sl: "slice line ?a (?a + c) = take c ?d" using d by (simp add: slice_def)
    have b: "?a + c + 1 \<ge> length line \<longleftrightarrow> \<not> c + 1 < length ?d" using len c by linarith
    show ?thesis using sc ne Some unfolding parse_header_line_def Let_def
      by (simp only: res_bind.simps ok_or.simps so d sl n0 n1 b if_False option.case)
  qed
qed

lemma parse_header_line_Inr_scan:
  "parse_header_line line = Inr r \<Longrightarrow> \<exists>i. scan_name line 0 = Inr (Some i)"
  by (auto simp: parse_header_line_def res_simps split: if_splits)

lemma header_line_shape:
  assumes "scan_name line 0 = Inr (Some i)"
  shows "line = take i line @ COLON # takeWhile is_ows (drop (i + 1) line) @ value_part line i"
    and "list_all Tchar_is_valid (take i line)" "length (take i line) = i"
proof -
  have i: "i < length line" "line ! i = COLON" using assms scan_name_Some [of line 0 i] by auto
  then have "line = take i line @ COLON # drop (i + 1) line"
    by (metis Suc_eq_plus1 id_take_nth_drop)
  then show "line = take i line @ COLON # takeWhile is_ows (drop (i + 1) line) @ value_part line i"
    by (simp add: value_part_def)
  show "list_all Tchar_is_valid (take i line)" using assms scan_name_Some [of line 0 i] by simp
  show "length (take i line) = i" using i by simp
qed

theorem parse_header_line_sound:
  assumes "parse_header_line line = Inr (ns, vs, n)"
  obtains o1 o2 where "name_ok (span_bytes line ns)" "ows_ok o1" "ows_ok o2" "value_ok (span_bytes line vs)"
    and "line = header_text (span_bytes line ns) o1 (span_bytes line vs) o2 @ drop n line"
    and "n = length (header_text (span_bytes line ns) o1 (span_bytes line vs) o2)"
    and "fst ns \<le> snd ns" "snd ns < fst vs" "fst vs \<le> snd vs" "snd vs + 2 \<le> n"
proof -
  obtain i where sc: "scan_name line 0 = Inr (Some i)" using parse_header_line_Inr_scan [OF assms] by blast
  let ?a = "value_offset line i" and ?d = "value_part line i"
  obtain c where i: "i \<noteq> 0" and c: "position is_ctl ?d = Some c" and cr: "?d ! c = CR"
    and cl: "c + 1 < length ?d" and lf: "?d ! (c + 1) = LF" and ns: "ns = (0, i)"
    and vs: "vs = (?a, ?a + trimmed_len (take c ?d))" and n: "n = ?a + c + 2"
    using assms unfolding parse_header_line_eq [OF sc] by (auto split: if_splits option.splits)
  note sh = header_line_shape [OF sc]
  let ?o1 = "takeWhile is_ows (drop (i + 1) line)"
  have a: "drop ?a line = ?d" "?a = i + 1 + length ?o1"
    by (simp_all add: dropWhile_eq_drop value_part_def value_offset_def add.commute)
  obtain o2 where raw: "take c ?d = take (trimmed_len (take c ?d)) (take c ?d) @ o2" and o2: "ows_ok o2"
    and le: "take (trimmed_len (take c ?d)) (take c ?d) = [] \<or>
      \<not> is_ows (last (take (trimmed_len (take c ?d)) (take c ?d)))"
    by (rule split_raw_value)
  have v: "span_bytes line vs = take (trimmed_len (take c ?d)) (take c ?d)"
    using trimmed_len_eq(2) [of "take c ?d"] cl vs a(1) by (simp add: span_bytes_def slice_def min_absorb1)
  have nm: "span_bytes line ns = take i line" using ns by (simp add: span_bytes_def slice_def)
  have "?d = take c ?d @ ?d ! c # ?d ! (c + 1) # drop (c + 2) ?d"
    using cl by (metis Cons_nth_drop_Suc Suc_eq_plus1 Suc_lessD add_2_eq_Suc' append_take_drop_id)
  then have dd: "?d = span_bytes line vs @ o2 @ CRLF @ drop (c + 2) ?d"
    using raw v cr lf by (metis append.assoc append_Cons append_Nil)
  have line: "line = header_text (take i line) ?o1 (span_bytes line vs) o2 @ drop (c + 2) ?d"
    using sh(1) dd by (simp add: header_text_def)
  have hl: "n = length (header_text (take i line) ?o1 (span_bytes line vs) o2)"
  proof -
    have "length (take c ?d) = length (span_bytes line vs) + length o2"
      using arg_cong [OF raw, of length] v by (simp only: length_append)
    then have "c = length (span_bytes line vs) + length o2" using cl by simp
    then show ?thesis using n a(2) sh(3) by (simp add: header_text_def)
  qed
  show thesis
  proof
    show "name_ok (span_bytes line ns)" using sh i by (auto simp: name_ok_def nm)
    show "ows_ok ?o1" by (auto simp: ows_ok_def list_all_iff dest: set_takeWhileD)
    show "ows_ok o2" by (rule o2)
    show "value_ok (span_bytes line vs)"
      unfolding value_ok_def list_all_iff
    proof (intro conjI ballI)
      fix b assume "b \<in> set (span_bytes line vs)"
      then have "b \<in> set (take c ?d)" unfolding v by (rule in_set_takeD)
      then show "\<not> is_ctl b" by (rule position_take_clean [OF c])
    next
      have "\<not> is_ows (hd (span_bytes line vs))" if "span_bytes line vs \<noteq> []"
      proof -
        have "hd (span_bytes line vs) = hd ?d" using dd that by (metis hd_append2)
        moreover have "?d \<noteq> []" using cl by auto
        ultimately show ?thesis unfolding value_part_def by (metis hd_dropWhile)
      qed
      then show "span_bytes line vs = [] \<or> \<not> is_ows (hd (span_bytes line vs)) \<and> \<not> is_ows (last (span_bytes line vs))"
        using le v by metis
    qed
    show "line = header_text (span_bytes line ns) ?o1 (span_bytes line vs) o2 @ drop n line"
      using line hl nm by (metis append_eq_conv_conj)
    show "n = length (header_text (span_bytes line ns) ?o1 (span_bytes line vs) o2)" using hl nm by simp
    show "fst ns \<le> snd ns" "snd ns < fst vs" "fst vs \<le> snd vs" using ns vs a(2) by simp_all
    show "snd vs + 2 \<le> n" using vs n trimmed_len_eq(2) [of "take c ?d"] by simp
  qed
qed

lemma dropWhile_stop: "xs \<noteq> [] \<Longrightarrow> \<not> P (hd xs) \<Longrightarrow> dropWhile P xs = xs"
  by (cases xs) simp_all

lemma position_ctl_stop:
  assumes "list_all (\<lambda>b. \<not> is_ctl b) xs"
  shows "position is_ctl (xs @ CR # ys) = Some (length xs)"
  using assms by (induction xs) (simp_all add: is_ctl_facts)

lemma ows_ok_not_ctl: "ows_ok w \<Longrightarrow> list_all (\<lambda>b. \<not> is_ctl b) w"
  using is_ctl_facts(5) by (auto simp: ows_ok_def list_all_iff)

lemma trimmed_value:
  assumes "ows_ok o2" "v \<noteq> []" "\<not> is_ows (last v)"
  shows "take (trimmed_len (v @ o2)) (v @ o2) = v"
proof -
  have "dropWhile is_ows (rev o2 @ rev v) = dropWhile is_ows (rev v)"
    using assms(1) by (subst dropWhile_append2) (auto simp: ows_ok_def list_all_iff)
  also have "\<dots> = rev v" using assms by (intro dropWhile_stop) (simp_all add: hd_rev)
  finally show ?thesis by (subst trimmed_len_eq(1)) simp
qed

theorem parse_header_line_complete:
  assumes nm: "name_ok nm" and o1: "ows_ok o1" and o2: "ows_ok o2" and v: "value_ok v"
    and line: "line = header_text nm o1 v o2 @ rest"
  shows "\<exists>ns vs. parse_header_line line = Inr (ns, vs, length (header_text nm o1 v o2))
    \<and> span_bytes line ns = nm \<and> span_bytes line vs = v"
proof -
  let ?i = "length nm"
  have sc: "scan_name line 0 = Inr (Some ?i)"
    unfolding scan_name_Some using nm by (auto simp: line header_text_def name_ok_def)
  have i0: "?i \<noteq> 0" using nm by (simp add: name_ok_def)
  have dr: "drop (?i + 1) line = o1 @ v @ o2 @ CR # LF # rest" by (simp add: line header_text_def)
  have ow: "\<forall>x\<in>set o1. is_ows x" "\<forall>x\<in>set o2. is_ows x" using o1 o2 by (auto simp: ows_ok_def list_all_iff)
  have ncr: "\<not> is_ows CR" by (simp add: is_ows_def)
  have vc: "list_all (\<lambda>b. \<not> is_ctl b) v" and ve: "v \<noteq> [] \<Longrightarrow> \<not> is_ows (hd v) \<and> \<not> is_ows (last v)"
    using v by (auto simp: value_ok_def)
  define raw where "raw = (if v = [] then [] else v @ o2)"
  have vp: "value_part line ?i = raw @ CR # LF # rest"
    and vo: "value_offset line ?i = length nm + 1 + length o1 + (if v = [] then length o2 else 0)"
    using ow ncr ve unfolding value_part_def value_offset_def dr raw_def
    by (auto simp: dropWhile_append2 takeWhile_append2 dropWhile_stop hd_append takeWhile_eq_Nil_iff)
  have pos: "position is_ctl (value_part line ?i) = Some (length raw)"
    unfolding vp by (rule position_ctl_stop) (use vc ows_ok_not_ctl [OF o2] in \<open>simp add: raw_def\<close>)
  have tr: "take (trimmed_len raw) raw = v"
    using trimmed_value [OF o2] ve by (simp add: raw_def)
  have tk: "take (length raw) (value_part line ?i) = raw" by (simp add: vp)
  let ?a = "value_offset line ?i"
  have ph: "parse_header_line line = Inr ((0, ?i), (?a, ?a + trimmed_len raw), ?a + length raw + 2)"
    unfolding parse_header_line_eq [OF sc] pos option.case tk using i0 by (simp add: vp nth_append)
  have d: "drop ?a line = value_part line ?i"
    by (simp add: dropWhile_eq_drop value_part_def value_offset_def add.commute)
  have "take (trimmed_len raw) (raw @ CR # LF # rest) = v"
    using tr trimmed_len_eq(2) [of raw] by simp
  then have "span_bytes line (?a, ?a + trimmed_len raw) = v"
    using d vp by (simp add: span_bytes_def slice_def)
  moreover have "span_bytes line (0, ?i) = nm" by (simp add: span_bytes_def slice_def line header_text_def)
  moreover have "?a + length raw + 2 = length (header_text nm o1 v o2)"
    by (simp add: vo raw_def header_text_def)
  ultimately show ?thesis using ph by auto
qed

section \<open>Answers are final\<close>

lemma takeWhile_dropWhile_append:
  assumes "dropWhile P xs \<noteq> []"
  shows "takeWhile P (xs @ ys) = takeWhile P xs" "dropWhile P (xs @ ys) = dropWhile P xs @ ys"
proof -
  from assms have "\<exists>x\<in>set xs. \<not> P x" by auto
  then show "takeWhile P (xs @ ys) = takeWhile P xs" "dropWhile P (xs @ ys) = dropWhile P xs @ ys"
    by (auto simp: takeWhile_append1 dropWhile_append1)
qed

lemma parse_header_line_append:
  assumes "line \<noteq> []" and final: "parse_header_line line \<noteq> Inl (Parse Incomplete)"
  shows "parse_header_line (line @ ys) = parse_header_line line"
proof (cases "scan_name line 0")
  case (Inl e)
  then have "scan_name (line @ ys) 0 = Inl e" using scan_name_append by (metis Inl_Inr_False)
  with Inl show ?thesis by (simp add: parse_header_line_def assms(1))
next
  case (Inr r)
  show ?thesis
  proof (cases r)
    case None
    with Inr have "parse_header_line line = Inl (Parse Incomplete)"
      by (simp add: parse_header_line_def assms(1))
    with final show ?thesis by simp
  next
    case (Some i)
    then have sc: "scan_name line 0 = Inr (Some i)" using Inr by simp
    then have sc': "scan_name (line @ ys) 0 = Inr (Some i)" by (simp add: scan_name_append)
    have il: "i < length line" using sc scan_name_Some [of line 0 i] by simp
    show ?thesis
    proof (cases "i = 0")
      case True
      then show ?thesis using parse_header_line_eq [OF sc] parse_header_line_eq [OF sc'] by simp
    next
      case False
      let ?d = "value_part line i"
      obtain c where c: "position is_ctl ?d = Some c"
        using final False unfolding parse_header_line_eq [OF sc] by (auto split: option.splits)
      have cl: "c < length ?d" using c by (rule position_less)
      then have dn: "dropWhile is_ows (drop (i + 1) line) \<noteq> []"
        unfolding value_part_def by (metis length_greater_0_conv less_nat_zero_code list.size(3))
      have vp: "value_part (line @ ys) i = ?d @ ys" "value_offset (line @ ys) i = value_offset line i"
        using il takeWhile_dropWhile_append [OF dn, of ys] by (simp_all add: value_part_def value_offset_def)
      have c': "position is_ctl (?d @ ys) = Some c" using c by (simp add: position_append)
      have nx: "?d ! c = CR \<Longrightarrow> c + 1 < length ?d"
        using final False c unfolding parse_header_line_eq [OF sc] by (auto split: if_splits)
      show ?thesis
        unfolding parse_header_line_eq [OF sc] parse_header_line_eq [OF sc'] vp c c' option.case
        using cl nx by (auto simp: nth_append)
    qed
  qed
qed

lemma slice_append: "b \<le> length xs \<Longrightarrow> slice (xs @ ys) a b = slice xs a b"
  by (simp add: slice_def)

lemma parse_header_line_spans:
  assumes "parse_header_line line = Inr (ns, vs, n)"
  shows "snd ns \<le> length line" "snd vs \<le> length line" "n \<le> length line" "n \<ge> 4"
    "fst ns = 0" "snd ns < fst vs" "fst vs \<le> snd vs" "snd vs + 2 \<le> n"
proof -
  obtain o1 o2 where l: "line = header_text (span_bytes line ns) o1 (span_bytes line vs) o2 @ drop n line"
    and n: "n = length (header_text (span_bytes line ns) o1 (span_bytes line vs) o2)"
    and o: "fst ns \<le> snd ns" "snd ns < fst vs" "fst vs \<le> snd vs" "snd vs + 2 \<le> n"
    and nm: "name_ok (span_bytes line ns)"
    by (rule parse_header_line_sound [OF assms])
  show nl: "n \<le> length line" using arg_cong [OF l, of length] n by (simp only: length_append)
  show "n \<ge> 4" using n nm by (cases "span_bytes line ns") (simp_all add: header_text_def name_ok_def)
  show "fst ns = 0"
    using assms parse_header_line_Inr_scan [OF assms]
    by (auto simp: parse_header_line_eq split: if_splits option.splits)
  show "snd ns \<le> length line" "snd vs \<le> length line" "snd ns < fst vs" "fst vs \<le> snd vs" "snd vs + 2 \<le> n"
    using o nl by simp_all
qed

text \<open>The four cases of one round of the header loop.\<close>

abbreviation slot_header :: "bytes \<Rightarrow> span \<Rightarrow> span \<Rightarrow> Header" where
  "slot_header line ns vs \<equiv> \<lparr> hname = name_raw (span_bytes line ns), hvalue = span_bytes line vs \<rparr>"

definition at_gap :: "bytes \<Rightarrow> usize \<Rightarrow> bool" where
  "at_gap buf pos = (pos \<ge> length buf \<or> buf ! pos = CR \<and> pos + 1 \<ge> length buf)"

definition at_end :: "bytes \<Rightarrow> usize \<Rightarrow> bool" where
  "at_end buf pos = (pos + 1 < length buf \<and> buf ! pos = CR \<and> buf ! (pos + 1) = LF)"

lemma parse_headers_gap: "at_gap buf pos \<Longrightarrow> parse_headers buf pos count slots spans = Inl (Parse Incomplete)"
  by (subst parse_headers.simps) (auto simp: at_gap_def)

lemma parse_headers_end: "at_end buf pos \<Longrightarrow> parse_headers buf pos count slots spans = Inr ((slots, spans), count, pos + 2)"
  by (subst parse_headers.simps) (auto simp: at_end_def)

lemma parse_headers_line:
  "\<not> at_gap buf pos \<Longrightarrow> \<not> at_end buf pos \<Longrightarrow>
   parse_headers buf pos count slots spans =
     (case parse_header_line (drop pos buf) of
        Inl e \<Rightarrow> Inl e
      | Inr (ns, vs, n) \<Rightarrow>
          if count \<ge> length slots then Inl (Parse TooManyHeaders)
          else parse_headers buf (pos + n) (count + 1)
            (slots[count := slot_header (drop pos buf) ns vs])
            (spans @ [(shift_span pos ns, shift_span pos vs)]))"
  by (subst parse_headers.simps) (auto simp: at_gap_def at_end_def split: sum.splits)

text \<open>The induction rule that goes with these cases.\<close>

lemma parse_headers_induct [case_names gap final line]:
  assumes "\<And>buf pos count slots spans. at_gap buf pos \<Longrightarrow> P buf pos count slots spans"
    and "\<And>buf pos count slots spans. at_end buf pos \<Longrightarrow> P buf pos count slots spans"
    and "\<And>buf pos count slots spans. \<not> at_gap buf pos \<Longrightarrow> \<not> at_end buf pos \<Longrightarrow>
      (\<And>ns vs n. parse_header_line (drop pos buf) = Inr (ns, vs, n) \<Longrightarrow> count < length slots \<Longrightarrow>
         P buf (pos + n) (count + 1) (slots[count := slot_header (drop pos buf) ns vs])
           (spans @ [(shift_span pos ns, shift_span pos vs)])) \<Longrightarrow> P buf pos count slots spans"
  shows "P buf pos count slots spans"
proof (induction buf pos count slots spans rule: parse_headers.induct)
  case (1 buf pos count slots spans)
  show ?case
  proof (cases "at_gap buf pos \<or> at_end buf pos")
    case True
    then show ?thesis using assms(1,2) by blast
  next
    case False
    have ih: "P buf (pos + n) (count + 1) (slots[count := slot_header (drop pos buf) ns vs])
           (spans @ [(shift_span pos ns, shift_span pos vs)])"
      if "parse_header_line (drop pos buf) = Inr (ns, vs, n)" "count < length slots" for ns vs n
      by (rule 1 [OF _ _ _ that(1) refl refl])
        (use False that in \<open>auto simp: at_gap_def at_end_def\<close>)
    show ?thesis
    proof (rule assms(3))
      show "\<not> at_gap buf pos" "\<not> at_end buf pos" using False by simp_all
    qed (rule ih)
  qed
qed

lemma at_gap_end_append:
  assumes "\<not> at_gap buf pos"
  shows "\<not> at_gap (buf @ ys) pos" "at_end (buf @ ys) pos = at_end buf pos"
    "drop pos (buf @ ys) = drop pos buf @ ys"
  using assms by (auto simp: at_gap_def at_end_def nth_append)

lemma parse_headers_append:
  "parse_headers buf pos count slots spans \<noteq> Inl (Parse Incomplete) \<Longrightarrow>
   parse_headers (buf @ ys) pos count slots spans = parse_headers buf pos count slots spans"
proof (induction buf pos count slots spans rule: parse_headers_induct)
  case (gap buf pos count slots spans)
  then show ?case by (simp add: parse_headers_gap)
next
  case (final buf pos count slots spans)
  then have "at_end (buf @ ys) pos" by (auto simp: at_end_def nth_append)
  with final show ?case by (simp add: parse_headers_end)
next
  case (line buf pos count slots spans)
  note app = at_gap_end_append [OF line(1), of ys]
  note eq = parse_headers_line [OF line(1,2), of count slots spans]
  have eq': "parse_headers (buf @ ys) pos count slots spans =
     (case parse_header_line (drop pos buf @ ys) of
        Inl e \<Rightarrow> Inl e
      | Inr (ns, vs, n) \<Rightarrow>
          if count \<ge> length slots then Inl (Parse TooManyHeaders)
          else parse_headers (buf @ ys) (pos + n) (count + 1)
            (slots[count := slot_header (drop pos buf @ ys) ns vs])
            (spans @ [(shift_span pos ns, shift_span pos vs)]))"
    using parse_headers_line [OF app(1)] line(2) unfolding app by simp
  have "parse_header_line (drop pos buf) \<noteq> Inl (Parse Incomplete)" using line(4) eq by auto
  then have pl: "parse_header_line (drop pos buf @ ys) = parse_header_line (drop pos buf)"
    using line(1) by (intro parse_header_line_append) (auto simp: at_gap_def)
  show ?case
  proof (cases "parse_header_line (drop pos buf)")
    case (Inl e)
    then show ?thesis using eq eq' pl by simp
  next
    case (Inr r)
    obtain ns vs n where "r = (ns, vs, n)" by (metis prod_cases3)
    with Inr have ph: "parse_header_line (drop pos buf) = Inr (ns, vs, n)" by simp
    have sp: "span_bytes (drop pos buf @ ys) ns = span_bytes (drop pos buf) ns"
      "span_bytes (drop pos buf @ ys) vs = span_bytes (drop pos buf) vs"
      using parse_header_line_spans [OF ph] unfolding span_bytes_def by (simp_all only: slice_append)
    show ?thesis
    proof (cases "count < length slots")
      case True
      with ph eq line(4) have "parse_headers buf (pos + n) (count + 1)
            (slots[count := slot_header (drop pos buf) ns vs])
            (spans @ [(shift_span pos ns, shift_span pos vs)]) \<noteq> Inl (Parse Incomplete)" by simp
      then show ?thesis using line(3) [OF ph True] eq eq' pl ph True sp by simp
    qed (use eq eq' pl ph in simp)
  qed
qed

lemma find_crlf_append: "find_crlf xs = Some i \<Longrightarrow> find_crlf (xs @ ys) = Some i"
  by (induction xs arbitrary: i rule: induct_list012) (auto split: if_splits)

lemma find_crlf_Some:
  "find_crlf xs = Some i \<Longrightarrow> i + 2 \<le> length xs \<and> xs = take i xs @ CRLF @ drop (i + 2) xs"
  by (induction xs arbitrary: i rule: induct_list012) (auto split: if_splits)

lemma parse_head_append:
  assumes "parse_head buf slots \<noteq> Inl (Parse Incomplete)"
  shows "parse_head (buf @ ys) slots = parse_head buf slots"
proof (cases "find_crlf buf")
  case None
  then show ?thesis using assms by (simp add: parse_head_def)
next
  case (Some e)
  then have t: "take e (buf @ ys) = take e buf" using find_crlf_Some [OF Some] by simp
  show ?thesis
  proof (cases "parse_status_line (take e buf)")
    case (Inl err)
    then show ?thesis using Some find_crlf_append [OF Some, of ys] t
      unfolding parse_head_def by (simp del: take_append)
  next
    case (Inr r)
    obtain ver st rsn where r: "r = (ver, st, rsn)" by (metis prod_cases3)
    have "parse_headers buf (e + 2) 0 slots [] \<noteq> Inl (Parse Incomplete)"
      using assms Some Inr r by (auto simp: parse_head_def)
    then have "parse_headers (buf @ ys) (e + 2) 0 slots [] = parse_headers buf (e + 2) 0 slots []"
      by (rule parse_headers_append)
    then show ?thesis using Some find_crlf_append [OF Some, of ys] t Inr r
      unfolding parse_head_def by (simp del: take_append)
  qed
qed

end
