(* ===== verification/Head_Grammar.thy ===== *)
theory Head_Grammar
  imports Response_Head
begin

text \<open>
  The response-head parser against a grammar of heads: every accepted head is a text of the
  grammar and every such text is accepted, with the parts it names. From both and from
  finality follow the properties of incremental reading and what an accepted head
  guarantees to the caller.
\<close>

section \<open>The head grammar\<close>

text \<open>Reference: a header line as name, whitespace, value, whitespace; a head as its lines.\<close>

type_synonym header_line = "bytes \<times> bytes \<times> bytes \<times> bytes"

definition line_text :: "header_line \<Rightarrow> bytes" where
  "line_text l = (case l of (nm, o1, v, o2) \<Rightarrow> header_text nm o1 v o2)"

definition line_ok :: "header_line \<Rightarrow> bool" where
  "line_ok l = (case l of (nm, o1, v, o2) \<Rightarrow> name_ok nm \<and> ows_ok o1 \<and> value_ok v \<and> ows_ok o2)"

definition line_header :: "header_line \<Rightarrow> Header" where
  "line_header l = (case l of (nm, o1, v, o2) \<Rightarrow> \<lparr> hname = Other nm, hvalue = v \<rparr>)"

definition lines_text :: "header_line list \<Rightarrow> bytes" where
  "lines_text ls = concat (map line_text ls)"

definition reason_ok :: "bytes \<Rightarrow> bool" where
  "reason_ok r = list_all (\<lambda>b. \<not> is_ctl b) r"

text \<open>The separator before the reason may be missing with the reason.\<close>

definition status_text :: "Version \<Rightarrow> StatusCode \<Rightarrow> bytes option \<Rightarrow> bytes" where
  "status_text ver st r =
     version_as_bytes ver @ [SP] @ status_display st @ (case r of None \<Rightarrow> [] | Some x \<Rightarrow> SP # x)"

definition head_text :: "Version \<Rightarrow> StatusCode \<Rightarrow> bytes option \<Rightarrow> header_line list \<Rightarrow> bytes" where
  "head_text ver st r ls = status_text ver st r @ CRLF @ lines_text ls @ CRLF"

lemma lines_text_Cons: "lines_text (l # ls) = line_text l @ lines_text ls"
  by (simp add: lines_text_def)

lemma lines_text_Nil [simp]: "lines_text [] = []"
  by (simp add: lines_text_def)

lemma slots_fill:
  assumes "count < length slots"
  shows "take (Suc count) (slots[count := h]) = take count slots @ [h]"
    "drop (Suc count + k) (slots[count := h]) = drop (Suc count + k) slots"
  using assms by (simp_all add: take_Suc_conv_app_nth)

lemma shift_span_bytes: "span_bytes buf (shift_span pos s) = span_bytes (drop pos buf) s"
  by (simp add: span_bytes_def shift_span_def slice_def add.commute)

lemma parse_headers_sound:
  assumes "parse_headers buf pos count slots spans = Inr ((slots', spans'), count', pos')"
    and "count \<le> length slots"
  shows "\<exists>ls sps. list_all line_ok ls \<and> drop pos buf = lines_text ls @ CRLF @ drop pos' buf
    \<and> pos' = pos + length (lines_text ls) + 2 \<and> pos' \<le> length buf
    \<and> count' = count + length ls \<and> count' \<le> length slots
    \<and> slots' = take count slots @ map line_header ls @ drop count' slots
    \<and> spans' = spans @ sps
    \<and> map (\<lambda>(n, v). \<lparr> hname = Other (span_bytes buf n), hvalue = span_bytes buf v \<rparr>) sps
       = map line_header ls
    \<and> list_all (\<lambda>(n, v). pos \<le> fst n \<and> fst n < snd n \<and> snd n < fst v \<and> fst v \<le> snd v \<and> snd v + 4 \<le> pos') sps"
  using assms
proof (induction buf pos count slots spans rule: parse_headers_induct)
  case (gap buf pos count slots spans)
  then show ?case by (simp add: parse_headers_gap)
next
  case (final buf pos count slots spans)
  then have r: "slots' = slots" "spans' = spans" "count' = count" "pos' = pos + 2"
    by (auto simp: parse_headers_end)
  have e: "pos + 1 < length buf" "buf ! pos = CR" "buf ! (pos + 1) = LF"
    using final(1) by (auto simp: at_end_def)
  then have "drop pos buf = CR # LF # drop (pos + 2) buf"
    by (metis Cons_nth_drop_Suc Suc_eq_plus1 Suc_lessD add_2_eq_Suc')
  with r e final(3) show ?case by (intro exI [of _ "[]"]) auto
next
  case (line buf pos count slots spans)
  note eq = parse_headers_line [OF line(1,2), of count slots spans]
  obtain ns vs n where ph: "parse_header_line (drop pos buf) = Inr (ns, vs, n)"
    using line(4) eq by (auto split: sum.splits)
  let ?line = "drop pos buf"
  let ?h = "slot_header ?line ns vs"
  have cl: "count < length slots" using line(4) eq ph by (auto split: if_splits)
  have rec: "parse_headers buf (pos + n) (count + 1) (slots[count := ?h])
      (spans @ [(shift_span pos ns, shift_span pos vs)]) = Inr ((slots', spans'), count', pos')"
    using line(4) eq ph cl by simp
  obtain ls sps where ih: "list_all line_ok ls" "drop (pos + n) buf = lines_text ls @ CRLF @ drop pos' buf"
    "pos' = pos + n + length (lines_text ls) + 2" "pos' \<le> length buf"
    "count' = count + 1 + length ls" "count' \<le> length slots"
    "slots' = take (count + 1) (slots[count := ?h]) @ map line_header ls @ drop count' (slots[count := ?h])"
    "spans' = (spans @ [(shift_span pos ns, shift_span pos vs)]) @ sps"
    "map (\<lambda>(n, v). \<lparr> hname = Other (span_bytes buf n), hvalue = span_bytes buf v \<rparr>) sps = map line_header ls"
    "list_all (\<lambda>(m, v). pos + n \<le> fst m \<and> fst m < snd m \<and> snd m < fst v \<and> fst v \<le> snd v \<and> snd v + 4 \<le> pos') sps"
    using line(3) [OF ph cl rec] cl by auto
  obtain o1 o2 where l: "name_ok (span_bytes ?line ns)" "ows_ok o1" "ows_ok o2" "value_ok (span_bytes ?line vs)"
    "?line = header_text (span_bytes ?line ns) o1 (span_bytes ?line vs) o2 @ drop n ?line"
    "n = length (header_text (span_bytes ?line ns) o1 (span_bytes ?line vs) o2)"
    using parse_header_line_sound [OF ph] by metis
  let ?l = "(span_bytes ?line ns, o1, span_bytes ?line vs, o2)"
  note sp = parse_header_line_spans [OF ph]
  have "0 < snd ns" using l(1) sp(5) by (auto simp: name_ok_def span_bytes_def slice_def)
  show ?case
  proof (intro exI [of _ "?l # ls"] exI [of _ "(shift_span pos ns, shift_span pos vs) # sps"] conjI)
    show "list_all line_ok (?l # ls)" using ih(1) l by (simp add: line_ok_def)
    show "?line = lines_text (?l # ls) @ CRLF @ drop pos' buf"
      using l(5) ih(2) by (simp add: lines_text_Cons line_text_def add.commute)
    show "pos' = pos + length (lines_text (?l # ls)) + 2"
      using ih(3) l(6) by (simp add: lines_text_Cons line_text_def)
    show "slots' = take count slots @ map line_header (?l # ls) @ drop count' slots"
      using ih(5,7) slots_fill(1) [OF cl, of ?h] slots_fill(2) [OF cl, of "length ls" ?h] by (simp add: line_header_def name_raw_def)
    show "map (\<lambda>(n, v). \<lparr> hname = Other (span_bytes buf n), hvalue = span_bytes buf v \<rparr>)
        ((shift_span pos ns, shift_span pos vs) # sps) = map line_header (?l # ls)"
      using ih(9) by (simp add: line_header_def shift_span_bytes)
    show "list_all (\<lambda>(n, v). pos \<le> fst n \<and> fst n < snd n \<and> snd n < fst v \<and> fst v \<le> snd v \<and> snd v + 4 \<le> pos')
        ((shift_span pos ns, shift_span pos vs) # sps)"
      using ih(3,10) sp \<open>0 < snd ns\<close> by (auto simp: shift_span_def list_all_iff)
  qed (use ih in auto)
qed

lemma at_line_start:
  assumes "line_ok l"
  shows "\<not> at_gap (pre @ line_text l @ ys) (length pre)" "\<not> at_end (pre @ line_text l @ ys) (length pre)"
proof -
  obtain nm o1 v o2 where l: "l = (nm, o1, v, o2)" by (metis prod_cases4)
  with assms obtain b nm' where nm: "nm = b # nm'" "Tchar_is_valid b"
    by (cases nm) (auto simp: line_ok_def name_ok_def)
  then have "(pre @ line_text l @ ys) ! length pre = b" by (simp add: l line_text_def header_text_def)
  moreover have "b \<noteq> CR" using nm(2) by (rule tchar_facts)
  ultimately show "\<not> at_gap (pre @ line_text l @ ys) (length pre)" "\<not> at_end (pre @ line_text l @ ys) (length pre)"
    using nm by (auto simp: at_gap_def at_end_def l line_text_def header_text_def)
qed

lemma parse_headers_step:
  assumes "line_ok l"
  shows "\<exists>sp. parse_headers (pre @ line_text l @ tail) (length pre) count slots spans =
    (if count \<ge> length slots then Inl (Parse TooManyHeaders)
     else parse_headers ((pre @ line_text l) @ tail) (length (pre @ line_text l)) (count + 1)
       (slots[count := line_header l]) (spans @ [sp]))"
proof -
  obtain nm o1 v o2 where l: "l = (nm, o1, v, o2)" by (metis prod_cases4)
  let ?buf = "pre @ line_text l @ tail"
  have dr: "drop (length pre) ?buf = header_text nm o1 v o2 @ tail" by (simp add: l line_text_def)
  obtain ns vs where ph: "parse_header_line (drop (length pre) ?buf) = Inr (ns, vs, length (line_text l))"
    and nv: "span_bytes (drop (length pre) ?buf) ns = nm" "span_bytes (drop (length pre) ?buf) vs = v"
    using parse_header_line_complete [OF _ _ _ _ dr] assms by (auto simp: l line_ok_def line_text_def)
  have "parse_headers ?buf (length pre) count slots spans =
    (if count \<ge> length slots then Inl (Parse TooManyHeaders)
     else parse_headers ((pre @ line_text l) @ tail) (length (pre @ line_text l)) (count + 1)
       (slots[count := line_header l])
       (spans @ [(shift_span (length pre) ns, shift_span (length pre) vs)]))"
    using parse_headers_line [OF at_line_start [OF assms], of pre tail count slots spans]
    unfolding ph sum.case prod.case nv by (simp add: l line_header_def name_raw_def)
  then show ?thesis by blast
qed

lemma parse_headers_run:
  assumes "list_all line_ok ls" "count + length ls \<le> length slots"
  shows "\<exists>sps. parse_headers (pre @ lines_text ls @ tail) (length pre) count slots spans =
    parse_headers (pre @ lines_text ls @ tail) (length pre + length (lines_text ls)) (count + length ls)
      (take count slots @ map line_header ls @ drop (count + length ls) slots) (spans @ sps)"
  using assms
proof (induction ls arbitrary: pre count slots spans)
  case Nil
  then show ?case by (intro exI [of _ "[]"]) simp
next
  case (Cons l ls)
  have ok: "line_ok l" "list_all line_ok ls" and c: "count < length slots" using Cons.prems by simp_all
  obtain sp where st: "parse_headers (pre @ line_text l @ lines_text ls @ tail) (length pre) count slots spans =
     parse_headers ((pre @ line_text l) @ lines_text ls @ tail) (length (pre @ line_text l)) (count + 1)
       (slots[count := line_header l]) (spans @ [sp])"
    using parse_headers_step [OF ok(1), of pre "lines_text ls @ tail" count slots spans] c by auto
  have "count + 1 + length ls \<le> length (slots[count := line_header l])" using Cons.prems by simp
  from Cons.IH [OF ok(2) this, of "pre @ line_text l" "spans @ [sp]"]
  obtain sps where "parse_headers ((pre @ line_text l) @ lines_text ls @ tail) (length (pre @ line_text l)) (count + 1)
       (slots[count := line_header l]) (spans @ [sp]) =
     parse_headers ((pre @ line_text l) @ lines_text ls @ tail)
       (length (pre @ line_text l) + length (lines_text ls)) (count + 1 + length ls)
       (take (count + 1) (slots[count := line_header l]) @ map line_header ls
          @ drop (count + 1 + length ls) (slots[count := line_header l])) ((spans @ [sp]) @ sps)"
    by blast
  then show ?case
    using st slots_fill(1) [OF c, of "line_header l"] slots_fill(2) [OF c, of "length ls" "line_header l"]
    by (intro exI [of _ "sp # sps"]) (simp add: lines_text_Cons add.assoc)
qed

lemma parse_headers_complete:
  assumes "list_all line_ok ls" "count + length ls \<le> length slots"
  shows "\<exists>sps. parse_headers (pre @ lines_text ls @ CRLF @ rest) (length pre) count slots spans =
      Inr ((take count slots @ map line_header ls @ drop (count + length ls) slots, spans @ sps),
           count + length ls, length pre + length (lines_text ls) + 2)"
proof -
  have "at_end (pre @ lines_text ls @ CRLF @ rest) (length pre + length (lines_text ls))"
    by (simp add: at_end_def nth_append)
  then show ?thesis
    using parse_headers_run [OF assms, of pre "CRLF @ rest" spans]
    by (metis parse_headers_end)
qed

lemma parse_headers_overflow:
  assumes "list_all line_ok ls" "count \<le> length slots" "length slots < count + length ls"
  shows "parse_headers (pre @ lines_text ls @ tail) (length pre) count slots spans = Inl (Parse TooManyHeaders)"
proof -
  let ?k = "length slots - count"
  define us where "us = take ?k ls"
  obtain l ws where ls: "ls = us @ l # ws"
    unfolding us_def using assms(2,3) by (metis Cons_nth_drop_Suc append_take_drop_id less_diff_conv2 add.commute)
  have al: "length us = ?k" unfolding us_def using assms(2,3) by simp
  have ok: "list_all line_ok us" "line_ok l" using assms(1) ls by simp_all
  have tx: "lines_text ls @ tail = lines_text us @ line_text l @ lines_text ws @ tail"
    by (simp add: ls lines_text_def)
  let ?t = "line_text l @ lines_text ws @ tail"
  obtain sps where "parse_headers (pre @ lines_text us @ ?t) (length pre) count slots spans =
    parse_headers ((pre @ lines_text us) @ ?t) (length (pre @ lines_text us)) (count + length us)
      (take count slots @ map line_header us @ drop (count + length us) slots) (spans @ sps)"
    using parse_headers_run [OF ok(1), of count slots pre ?t spans] al assms(2) by auto
  moreover have "length (take count slots @ map line_header us @ drop (count + length us) slots) \<le> count + length us"
    using al assms(2) by simp
  ultimately show ?thesis
    unfolding tx using parse_headers_step [OF ok(2), of "pre @ lines_text us" "lines_text ws @ tail"
        "count + length us" "take count slots @ map line_header us @ drop (count + length us) slots" "spans @ sps"]
    by auto
qed

lemma is_ctl_reason: "(b \<noteq> HTAB \<and> (b < 0x20 \<or> b = 0x7F)) = is_ctl b"
  by (auto simp: is_ctl_def)

lemma version_length [simp]: "length (version_as_bytes ver) = 8"
  by (cases ver) (simp_all add: bs_def)

lemma status_length: "status_valid st \<Longrightarrow> length (status_display st) = 3"
  by (erule status_valid_digits) (simp add: status_display_def to_decimal_3)

lemma split_status_line:
  assumes "12 \<le> length sl"
  shows "sl = take 8 sl @ sl ! 8 # slice sl 9 12 @ drop 12 sl"
proof -
  have "sl = take 8 sl @ drop 8 sl" by simp
  also have "drop 8 sl = sl ! 8 # drop 9 sl" using assms Cons_nth_drop_Suc [of 8 sl] by simp
  also have "drop 9 sl = slice sl 9 12 @ drop 12 sl"
    unfolding slice_def using append_take_drop_id [of 3 "drop 9 sl"] by simp
  finally show ?thesis .
qed

lemma parse_status_line_iff:
  "parse_status_line sl = Inr (ver, st, rsn) \<longleftrightarrow>
     (\<exists>r. sl = status_text ver st r \<and> status_valid st
        \<and> rsn = (case r of None \<Rightarrow> [] | Some x \<Rightarrow> x) \<and> reason_ok rsn)"
  (is "?L \<longleftrightarrow> ?R")
proof
  assume L: ?L
  then have len: "12 \<le> length sl" and v: "take 8 sl = version_as_bytes ver" and sp: "sl ! 8 = SP"
    and s: "status_valid st" "slice sl 9 12 = status_display st"
    and rs: "length sl \<le> 12 \<and> rsn = [] \<or> 12 < length sl \<and> sl ! 12 = SP \<and> rsn = drop 13 sl"
    and ok: "reason_ok rsn"
    using version_token.parse_sound status_try_from_sound
    by (auto simp: parse_status_line_def res_simps is_ctl_reason reason_ok_def list_ex_iff list_all_iff
        split: if_splits)
  have d: "drop 12 sl = sl ! 12 # drop 13 sl" if "12 < length sl"
    using that Cons_nth_drop_Suc [of 12 sl] by simp
  from rs show ?R
  proof
    assume a: "length sl \<le> 12 \<and> rsn = []"
    then have "sl = status_text ver st None"
      using split_status_line [OF len] v sp s by (simp add: status_text_def)
    with a ok s show ?thesis by (intro exI [of _ None]) simp
  next
    assume a: "12 < length sl \<and> sl ! 12 = SP \<and> rsn = drop 13 sl"
    then have "sl = status_text ver st (Some rsn)"
      using split_status_line [OF len] v sp s d by (simp add: status_text_def)
    with a ok s show ?thesis by (intro exI [of _ "Some rsn"]) simp
  qed
next
  assume ?R
  then obtain r where sl: "sl = status_text ver st r" and s: "status_valid st"
    and rsn: "rsn = (case r of None \<Rightarrow> [] | Some x \<Rightarrow> x)" and ok: "reason_ok rsn" by blast
  let ?t = "case r of None \<Rightarrow> [] | Some x \<Rightarrow> SP # x"
  have l3: "length (status_display st) = 3" by (rule status_length [OF s])
  have t: "take 8 sl = version_as_bytes ver" "sl ! 8 = SP" "slice sl 9 12 = status_display st"
    "drop 12 sl = ?t" "length sl = 12 + length ?t"
    by (simp_all add: sl status_text_def nth_append slice_def l3)
  have "12 < length sl \<Longrightarrow> sl ! 12 = ?t ! 0" using t(4) by (metis add.right_neutral less_imp_le nth_drop)
  moreover have "drop 13 sl = tl ?t" using t(4) by (metis add_2_eq_Suc' drop_Suc drop_drop drop_tl numeral_eq_Suc
     pred_numeral_simps(3) tl_drop)
  ultimately show ?L
    using t s ok rsn version_token.parse_render status_try_from_display
    by (cases r) (auto simp: parse_status_line_def is_ctl_reason reason_ok_def list_ex_iff list_all_iff)
qed

lemma find_crlf_text: "CR \<notin> set xs \<Longrightarrow> find_crlf (xs @ CR # LF # ys) = Some (length xs)"
proof (induction xs)
  case (Cons x xs)
  then show ?case by (cases xs) auto
qed simp

lemma status_text_no_CR:
  assumes "reason_ok (case r of None \<Rightarrow> [] | Some x \<Rightarrow> x)"
  shows "CR \<notin> set (status_text ver st r)"
proof -
  have "CR \<notin> set (version_as_bytes ver)" by (cases ver) (simp_all add: bs_def)
  moreover have "CR \<notin> set (status_display st)"
    using decimal_digits_ascii by (force simp: status_display_def is_ascii_digit_def)
  moreover have "CR \<notin> set (case r of None \<Rightarrow> [] | Some x \<Rightarrow> SP # x)"
    using assms is_ctl_facts(1) by (cases r) (auto simp: reason_ok_def list_all_iff)
  ultimately show ?thesis by (simp add: status_text_def)
qed

definition head_ok :: "Version \<Rightarrow> StatusCode \<Rightarrow> bytes option \<Rightarrow> header_line list \<Rightarrow> bool" where
  "head_ok ver st r ls =
     (status_valid st \<and> reason_ok (case r of None \<Rightarrow> [] | Some x \<Rightarrow> x) \<and> list_all line_ok ls)"

definition head_value :: "Version \<Rightarrow> StatusCode \<Rightarrow> bytes option \<Rightarrow> header_line list \<Rightarrow> ResponseHead" where
  "head_value ver st r ls =
     \<lparr> version = ver, status = st, reason = (case r of None \<Rightarrow> [] | Some x \<Rightarrow> x),
       header_count = length ls \<rparr>"

lemma parse_head_status:
  assumes "head_ok ver st r ls"
  shows "parse_head (status_text ver st r @ CRLF @ tail) slots =
    res_bind (parse_headers ((status_text ver st r @ CRLF) @ tail) (length (status_text ver st r @ CRLF)) 0 slots [])
      (\<lambda>((slots', spans), count, pos).
        Inr (\<lparr> version = ver, status = st, reason = (case r of None \<Rightarrow> [] | Some x \<Rightarrow> x),
               header_count = count \<rparr>, slots', spans, pos))"
proof -
  have "find_crlf (status_text ver st r @ CRLF @ tail) = Some (length (status_text ver st r))"
    using assms find_crlf_text status_text_no_CR by (simp add: head_ok_def)
  moreover have "parse_status_line (status_text ver st r) = Inr (ver, st, case r of None \<Rightarrow> [] | Some x \<Rightarrow> x)"
    using assms unfolding parse_status_line_iff head_ok_def by blast
  ultimately show ?thesis unfolding parse_head_def by simp
qed

lemma parse_head_sound:
  assumes "parse_head buf slots = Inr (h, slots', spans, n)"
  obtains ver st r ls where "head_ok ver st r ls" "h = head_value ver st r ls"
    "buf = head_text ver st r ls @ drop n buf" "n = length (head_text ver st r ls)"
    "length ls \<le> length slots" "slots' = map line_header ls @ drop (length ls) slots"
    "map (\<lambda>(n, v). \<lparr> hname = Other (span_bytes buf n), hvalue = span_bytes buf v \<rparr>) spans = map line_header ls"
    "list_all (\<lambda>(m, v). fst m < snd m \<and> snd m < fst v \<and> fst v \<le> snd v \<and> snd v + 4 \<le> n) spans"
proof -
  obtain e ver st rsn where e: "find_crlf buf = Some e"
    and st: "parse_status_line (take e buf) = Inr (ver, st, rsn)"
    and ph: "parse_headers buf (e + 2) 0 slots [] = Inr ((slots', spans), header_count h, n)"
    and h: "h = \<lparr> version = ver, status = st, reason = rsn, header_count = header_count h \<rparr>"
    using assms by (auto simp: parse_head_def res_simps)
  obtain r where r: "take e buf = status_text ver st r" "status_valid st"
    "rsn = (case r of None \<Rightarrow> [] | Some x \<Rightarrow> x)" "reason_ok rsn"
    using st unfolding parse_status_line_iff by blast
  obtain ls sps where ls: "list_all line_ok ls" "drop (e + 2) buf = lines_text ls @ CRLF @ drop n buf"
    "n = e + 2 + length (lines_text ls) + 2" "n \<le> length buf"
    "header_count h = length ls" "length ls \<le> length slots"
    "slots' = map line_header ls @ drop (length ls) slots" "spans = sps"
    "map (\<lambda>(n, v). \<lparr> hname = Other (span_bytes buf n), hvalue = span_bytes buf v \<rparr>) sps = map line_header ls"
    "list_all (\<lambda>(m, v). e + 2 \<le> fst m \<and> fst m < snd m \<and> snd m < fst v \<and> fst v \<le> snd v \<and> snd v + 4 \<le> n) sps"
    using parse_headers_sound [OF ph] by auto
  have b: "buf = take e buf @ CRLF @ drop (e + 2) buf" and el: "e + 2 \<le> length buf"
    using find_crlf_Some [OF e] by auto
  show thesis
  proof (rule that)
    show "head_ok ver st r ls" using r ls(1) by (simp add: head_ok_def)
    show "h = head_value ver st r ls" using h ls(5) r(3) by (simp add: head_value_def)
    show "buf = head_text ver st r ls @ drop n buf" using b ls(2) r(1) by (simp add: head_text_def)
    have "length (status_text ver st r) = e" using r(1) el by (metis add_leD1 length_take min_absorb2)
    then show "n = length (head_text ver st r ls)" using ls(3) by (simp add: head_text_def)
  qed (use ls in \<open>auto simp: list_all_iff\<close>)
qed

lemma parse_head_complete:
  assumes "head_ok ver st r ls" "length ls \<le> length slots"
  shows "\<exists>spans. parse_head (head_text ver st r ls @ rest) slots =
    Inr (head_value ver st r ls, map line_header ls @ drop (length ls) slots, spans, length (head_text ver st r ls))"
proof -
  let ?pre = "status_text ver st r @ CRLF"
  obtain sps where "parse_headers (?pre @ lines_text ls @ CRLF @ rest) (length ?pre) 0 slots [] =
    Inr ((take 0 slots @ map line_header ls @ drop (0 + length ls) slots, [] @ sps), 0 + length ls,
      length ?pre + length (lines_text ls) + 2)"
    using parse_headers_complete [of ls 0 slots ?pre rest "[]"] assms by (auto simp: head_ok_def)
  then show ?thesis
    using parse_head_status [OF assms(1), of "lines_text ls @ CRLF @ rest" slots]
    by (auto simp: head_text_def head_value_def)
qed

section \<open>Properties of the head parser\<close>

text \<open>
  Every answer of the head parser but \<^verbatim>\<open>Incomplete\<close> is final: a success (with its head,
  headers and consumed length) or a specific error does not change when more bytes are
  appended to the buffer, so an incremental caller may act on it.
\<close>

theorem parse_head_final:
  assumes "parse_head buf slots \<noteq> Inl (Parse Incomplete)"
  shows "parse_head (buf @ ys) slots = parse_head buf slots"
  by (rule parse_head_append [OF assms])

text \<open>
  C17: the head parser accepts exactly the head grammar. It succeeds with consumed length
  \<open>n\<close> exactly when the first \<open>n\<close> bytes are a version, a space, a three-digit status, an
  optional space and reason without control bytes, CRLF, header lines (token, colon,
  optional whitespace, value without control bytes, optional whitespace, CRLF) no more than
  the caller's slots, and a final CRLF; the result is the head with exactly those parts, the
  values stripped of surrounding whitespace.
\<close>

theorem parse_head_grammar:
  "(\<exists>spans. parse_head buf slots = Inr (h, slots', spans, n)) \<longleftrightarrow>
     (\<exists>ver st r ls. head_ok ver st r ls \<and> length ls \<le> length slots
        \<and> n = length (head_text ver st r ls) \<and> take n buf = head_text ver st r ls
        \<and> h = head_value ver st r ls \<and> slots' = map line_header ls @ drop (length ls) slots)"
  (is "?L \<longleftrightarrow> ?R")
proof
  assume ?L
  then obtain spans where p: "parse_head buf slots = Inr (h, slots', spans, n)" ..
  show ?R
  proof (rule parse_head_sound [OF p])
    fix ver st r ls
    assume a: "head_ok ver st r ls" "h = head_value ver st r ls"
      "buf = head_text ver st r ls @ drop n buf" "n = length (head_text ver st r ls)"
      "length ls \<le> length slots" "slots' = map line_header ls @ drop (length ls) slots"
    then have "take n buf = head_text ver st r ls" by (metis append_eq_conv_conj)
    with a show ?R by blast
  qed
next
  assume ?R
  then obtain ver st r ls where a: "head_ok ver st r ls" "length ls \<le> length slots"
    "n = length (head_text ver st r ls)" "take n buf = head_text ver st r ls"
    "h = head_value ver st r ls" "slots' = map line_header ls @ drop (length ls) slots" by blast
  have "buf = head_text ver st r ls @ drop n buf" using a(4) by (metis append_take_drop_id)
  then show ?L using parse_head_complete [OF a(1,2), of "drop n buf"] a by auto
qed

text \<open>
  C18: incremental reading is exact. If the head of a buffer parses with consumed length \<open>n\<close>,
  then every shorter prefix answers \<^verbatim>\<open>Incomplete\<close> (never a premature error), and every prefix
  of at least \<open>n\<close> bytes gives the same result.
\<close>

theorem parse_head_incremental:
  assumes "parse_head buf slots = Inr (h, slots', spans, n)"
  shows "n \<le> length buf
    \<and> (\<forall>k<n. parse_head (take k buf) slots = Inl (Parse Incomplete))
    \<and> (\<forall>k\<ge>n. parse_head (take k buf) slots = Inr (h, slots', spans, n))"
proof (rule parse_head_sound [OF assms], intro conjI allI impI)
  fix ver st r ls
  assume a: "head_ok ver st r ls" "buf = head_text ver st r ls @ drop n buf"
    "n = length (head_text ver st r ls)" "length ls \<le> length slots"
  show nl: "n \<le> length buf" using a(3) arg_cong [OF a(2), of length] by simp
  show "parse_head (take k buf) slots = Inl (Parse Incomplete)" if "k < n" for k
  proof (rule ccontr)
    assume c: "parse_head (take k buf) slots \<noteq> Inl (Parse Incomplete)"
    then have s: "parse_head (take k buf) slots = Inr (h, slots', spans, n)"
      using parse_head_append [OF c, of "drop k buf"] assms by simp
    have "n \<le> length (take k buf)"
    proof (rule parse_head_sound [OF s])
      fix ver st r ls
      assume "take k buf = head_text ver st r ls @ drop n (take k buf)" "n = length (head_text ver st r ls)"
      then show ?thesis using arg_cong [of "take k buf" _ length] by (metis le_add1 length_append)
    qed
    with \<open>k < n\<close> show False by simp
  qed
  show "parse_head (take k buf) slots = Inr (h, slots', spans, n)" if "n \<le> k" for k
  proof -
    have "take k buf = head_text ver st r ls @ take (k - n) (drop n buf)"
      using a(2,3) that by (metis take_all_iff take_append)
    then obtain x where x: "parse_head (take k buf) slots = Inr x"
      using parse_head_complete [OF a(1,4)] by metis
    then have "parse_head (take k buf) slots \<noteq> Inl (Parse Incomplete)" by simp
    from parse_head_append [OF this, of "drop k buf"] x assms show ?thesis by simp
  qed
qed

text \<open>
  What a caller may rely on after a successful parse: the header count fits the slots,
  the slots beyond it are untouched, the status is in range, every header name is a
  non-empty token, and no value and no reason phrase contains CR, LF, NUL or another control
  byte but HTAB.
\<close>

theorem parse_head_safe:
  assumes "parse_head buf slots = Inr (h, slots', spans, n)"
  shows "header_count h \<le> length slots \<and> length slots' = length slots
    \<and> drop (header_count h) slots' = drop (header_count h) slots
    \<and> head_headers h slots' = Inr (take (header_count h) slots')
    \<and> status_valid (status h) \<and> reason_ok (reason h)
    \<and> list_all (\<lambda>f. name_ok (name_as_bytes (hname f)) \<and> value_ok (hvalue f)
         \<and> {0, CR, LF} \<inter> set (hvalue f) = {}) (take (header_count h) slots')"
proof (rule parse_head_sound [OF assms])
  fix ver st r ls
  assume a: "head_ok ver st r ls" "h = head_value ver st r ls" "length ls \<le> length slots"
    "slots' = map line_header ls @ drop (length ls) slots"
  have "{0, CR, LF} \<inter> set v = {}" if "value_ok v" for v
    using that by (auto simp: value_ok_def list_all_iff is_ctl_def)
  with a show ?thesis
    by (auto simp: head_ok_def head_value_def head_headers_def line_ok_def line_header_def list_all_iff)
qed

text \<open>
  A CR that is not followed by LF inside a header value is answered \<^verbatim>\<open>Incomplete\<close> whatever
  follows: the parser asks for more input although no input can complete the head.
\<close>

theorem parse_head_bare_cr_never_resolves:
  assumes "head_ok ver st r ls" "length ls \<le> length slots"
    and "name_ok nm" "list_all (\<lambda>b. \<not> is_ctl b) v" "b \<noteq> LF"
  shows "parse_head (status_text ver st r @ CRLF @ lines_text ls @ nm @ [COLON] @ v @ [CR, b] @ more_bytes) slots
    = Inl (Parse Incomplete)"
proof -
  let ?pre = "status_text ver st r @ CRLF"
  let ?line = "nm @ [COLON] @ v @ [CR, b] @ more_bytes"
  let ?pre2 = "?pre @ lines_text ls"
  have sc: "scan_name ?line 0 = Inr (Some (length nm))"
    unfolding scan_name_Some using assms(3) by (auto simp: name_ok_def)
  have "\<not> is_ows CR" by (simp add: is_ows_def)
  then have vp: "value_part ?line (length nm) = dropWhile is_ows v @ CR # b # more_bytes"
    unfolding value_part_def by (simp add: dropWhile_append)
  have clean: "list_all (\<lambda>b. \<not> is_ctl b) (dropWhile is_ows v)"
    using assms(4) by (auto simp: list_all_iff dest: set_dropWhileD)
  have pl: "parse_header_line ?line = Inl (Parse Incomplete)"
    unfolding parse_header_line_eq [OF sc] vp position_ctl_stop [OF clean]
    using assms(3,5) by (simp add: name_ok_def nth_append)
  obtain c nm' where nm: "nm = c # nm'" "c \<noteq> CR"
    using assms(3) tchar_facts(2) by (cases nm) (auto simp: name_ok_def)
  have at: "\<not> at_gap (?pre2 @ ?line) (length ?pre2)" "\<not> at_end (?pre2 @ ?line) (length ?pre2)"
    using nm by (auto simp: at_gap_def at_end_def nth_append)
  have dr: "drop (length ?pre2) (?pre2 @ ?line) = ?line" by simp
  have "parse_headers (?pre2 @ ?line) (length ?pre2) cnt sl sps = Inl (Parse Incomplete)" for cnt sl sps
    unfolding parse_headers_line [OF at] dr pl by simp
  moreover obtain sps where "parse_headers (?pre @ lines_text ls @ ?line) (length ?pre) 0 slots [] =
    parse_headers (?pre @ lines_text ls @ ?line) (length ?pre + length (lines_text ls)) (0 + length ls)
      (take 0 slots @ map line_header ls @ drop (0 + length ls) slots) ([] @ sps)"
    using parse_headers_run [of ls 0 slots ?pre ?line "[]"] assms(1,2) by (auto simp: head_ok_def)
  ultimately have "parse_headers (?pre @ lines_text ls @ ?line) (length ?pre) 0 slots [] = Inl (Parse Incomplete)"
    by simp
  then show ?thesis
    using parse_head_status [OF assms(1), of "lines_text ls @ ?line" slots] by simp
qed

section \<open>Instances\<close>

text \<open>A small response head, at which the properties are applied.\<close>

definition sample_head :: bytes where
  "sample_head = bs ''HTTP/1.1 200 OK'' @ CRLF @ bs ''A: b'' @ CRLF @ CRLF"

lemma sample_head_parses:
  "parse_head sample_head [Header_empty] =
     Inr (\<lparr> version = Http11, status = StatusCode 200, reason = bs ''OK'', header_count = 1 \<rparr>,
          [\<lparr> hname = Other (bs ''A''), hvalue = bs ''b'' \<rparr>], [((17, 18), (20, 21))], 25)"
  by code_simp

theorem parse_head_final_witness:
  "parse_head (sample_head @ bs ''body'') [Header_empty] = parse_head sample_head [Header_empty]"
  by (rule parse_head_final) (simp add: sample_head_parses)

theorem parse_head_incremental_witness:
  "parse_head (take 24 sample_head) [Header_empty] = Inl (Parse Incomplete)"
  using parse_head_incremental [OF sample_head_parses] by simp

theorem parse_head_safe_witness:
  "value_ok (bs ''b'') \<and> name_ok (bs ''A'')"
  using parse_head_safe [OF sample_head_parses] by simp

theorem parse_head_bare_cr_witness:
  "parse_head (status_text Http11 (StatusCode 200) (Some (bs ''OK'')) @ CRLF @ lines_text []
      @ bs ''A'' @ [COLON] @ bs '' b'' @ [CR, SP] @ sample_head) [Header_empty]
   = Inl (Parse Incomplete)"
proof (rule parse_head_bare_cr_never_resolves)
  show "head_ok Http11 (StatusCode 200) (Some (bs ''OK'')) []" by code_simp
  show "name_ok (bs ''A'')" by code_simp
  show "list_all (\<lambda>b. \<not> is_ctl b) (bs '' b'')" by code_simp
qed simp_all

end
