(* ===== verification/Header_Range.thy ===== *)
theory Header_Range
  imports Head_Grammar
begin

text \<open>
  \<^verbatim>\<open>xibalba-proto/src/response/ranges.rs\<close>: header positions as 32-bit offsets into the head
  buffer. The source compares pointers, so a borrowed slice is here an address with its
  contents. The main result: the ranges built from the headers the head parser wrote read
  exactly those headers back out of the buffer.
\<close>

section \<open>Definitions\<close>

definition MAX_HEADERS :: usize where
  "MAX_HEADERS = 64"

record HeaderRange =
  name_start :: u32
  name_len :: u32
  value_start :: u32
  value_len :: u32

definition HeaderRange_default :: HeaderRange where
  "HeaderRange_default = \<lparr> name_start = 0, name_len = 0, value_start = 0, value_len = 0 \<rparr>"

text \<open>A \<^verbatim>\<open>&[u8]\<close> with its address.\<close>

record Slice =
  addr :: usize
  contents :: bytes

definition offset_in_or_find :: "bytes \<Rightarrow> usize \<Rightarrow> usize \<Rightarrow> Slice \<Rightarrow> usize option" where
  "offset_in_or_find src src_base src_end part =
     (let ptr = addr part in
      if src_base \<le> ptr \<and> ptr < src_end then Some (ptr - src_base)
      else find_subsequence src (contents part))"

definition u32_or_overflow :: "usize \<Rightarrow> Error + u32" where
  "u32_or_overflow n = ok_or (u32_try_from n) (Connection HeaderRangeOverflow)"

definition from_parts :: "usize \<Rightarrow> usize \<Rightarrow> usize \<Rightarrow> usize \<Rightarrow> Error + HeaderRange" where
  "from_parts ns nl vs vl =
     res_bind (u32_or_overflow ns) (\<lambda>a.
     res_bind (u32_or_overflow nl) (\<lambda>b.
     res_bind (u32_or_overflow vs) (\<lambda>c.
     res_bind (u32_or_overflow vl) (\<lambda>d.
       Inr \<lparr> name_start = a, name_len = b, value_start = c, value_len = d \<rparr>))))"

text \<open>The loop over the headers, each a name slice and a value slice.\<close>

fun build_ranges_loop ::
  "(Slice \<times> Slice) list \<Rightarrow> Slice \<Rightarrow> usize \<Rightarrow> HeaderRange list \<Rightarrow> Error + HeaderRange list" where
  "build_ranges_loop [] src i ranges = Inr ranges"
| "build_ranges_loop ((nm, v) # hs) src i ranges =
     (let src_base = addr src; src_end = src_base + length (contents src) in
      res_bind (ok_or (offset_in_or_find (contents src) src_base src_end nm)
                  (Connection HeaderNotInBuffer)) (\<lambda>ns_off.
      res_bind (ok_or (offset_in_or_find (contents src) src_base src_end v)
                  (Connection HeaderNotInBuffer)) (\<lambda>vs_off.
      res_bind (from_parts ns_off (length (contents nm)) vs_off (length (contents v))) (\<lambda>r.
        build_ranges_loop hs src (i + 1) (ranges[i := r])))))"

definition build_ranges :: "(Slice \<times> Slice) list \<Rightarrow> Slice \<Rightarrow> Error + HeaderRange list" where
  "build_ranges headers src =
     (if length headers > MAX_HEADERS then Inl (Parse TooManyHeaders)
      else build_ranges_loop headers src 0 (replicate MAX_HEADERS HeaderRange_default))"

section \<open>Reading a range back\<close>

definition range_name :: "bytes \<Rightarrow> HeaderRange \<Rightarrow> bytes" where
  "range_name src r = take (unat (name_len r)) (drop (unat (name_start r)) src)"

definition range_value :: "bytes \<Rightarrow> HeaderRange \<Rightarrow> bytes" where
  "range_value src r = take (unat (value_len r)) (drop (unat (value_start r)) src)"

text \<open>A slice that lies where its address says, whenever that is inside the buffer.\<close>

definition borrowed_ok :: "Slice \<Rightarrow> Slice \<Rightarrow> bool" where
  "borrowed_ok src s =
     (addr src \<le> addr s \<and> addr s < addr src + length (contents src) \<longrightarrow>
        contents s = take (length (contents s)) (drop (addr s - addr src) (contents src)))"

lemma u32_or_overflow_Inr: "u32_or_overflow n = Inr w \<longleftrightarrow> n < 2 ^ 32 \<and> w = of_nat n"
proof -
  have "int n < 2 ^ 32 \<longleftrightarrow> n < 2 ^ 32"
    by (metis of_nat_less_iff of_nat_numeral of_nat_power)
  then show ?thesis by (auto simp: u32_or_overflow_def u32_try_from_def)
qed

lemma unat_of_nat_u32: "n < 2 ^ 32 \<Longrightarrow> unat (of_nat n :: u32) = n"
  by (simp add: unsigned_of_nat take_bit_nat_eq_self)

lemma offset_reads_back:
  assumes "offset_in_or_find (contents src) (addr src) (addr src + length (contents src)) s = Some k"
    and "borrowed_ok src s"
  shows "take (length (contents s)) (drop k (contents src)) = contents s"
proof (cases "addr src \<le> addr s \<and> addr s < addr src + length (contents src)")
  case True
  then show ?thesis using assms by (auto simp: offset_in_or_find_def borrowed_ok_def Let_def)
next
  case False
  then have f: "find_subsequence (contents src) (contents s) = Some k"
    using assms by (auto simp: offset_in_or_find_def Let_def)
  then show ?thesis
    by (cases "contents s = []") (simp_all add: find_subsequence_Some_iff)
qed

lemma from_parts_Inr:
  "from_parts ns nl vs vl = Inr r \<longleftrightarrow>
     ns < 2 ^ 32 \<and> nl < 2 ^ 32 \<and> vs < 2 ^ 32 \<and> vl < 2 ^ 32
     \<and> r = \<lparr> name_start = of_nat ns, name_len = of_nat nl, value_start = of_nat vs, value_len = of_nat vl \<rparr>"
  by (auto simp: from_parts_def res_simps u32_or_overflow_Inr)

lemma build_ranges_loop_sound:
  assumes "build_ranges_loop hs src i ranges = Inr rs" "i + length hs \<le> length ranges"
    and "list_all (\<lambda>(n, v). borrowed_ok src n \<and> borrowed_ok src v) hs"
  shows "length rs = length ranges \<and> take i rs = take i ranges
    \<and> drop (i + length hs) rs = drop (i + length hs) ranges
    \<and> map (\<lambda>r. (range_name (contents src) r, range_value (contents src) r)) (take (length hs) (drop i rs))
       = map (\<lambda>(n, v). (contents n, contents v)) hs"
  using assms
proof (induction hs arbitrary: i ranges)
  case (Cons nv hs)
  obtain n v where nv: "nv = (n, v)" by (cases nv)
  let ?r = "\<lambda>a b. \<lparr> name_start = of_nat a, name_len = of_nat (length (contents n)),
    value_start = of_nat b, value_len = of_nat (length (contents v)) \<rparr>"
  from Cons.prems(1) nv obtain a b where
    a: "offset_in_or_find (contents src) (addr src) (addr src + length (contents src)) n = Some a" and
    b: "offset_in_or_find (contents src) (addr src) (addr src + length (contents src)) v = Some b" and
    lt: "a < 2 ^ 32" "length (contents n) < 2 ^ 32" "b < 2 ^ 32" "length (contents v) < 2 ^ 32" and
    rec: "build_ranges_loop hs src (i + 1) (ranges[i := ?r a b]) = Inr rs"
    by (auto simp: res_simps Let_def from_parts_Inr)
  have ih: "length rs = length ranges" "take (i + 1) rs = take (i + 1) (ranges[i := ?r a b])"
    "drop (i + 1 + length hs) rs = drop (i + 1 + length hs) (ranges[i := ?r a b])"
    "map (\<lambda>r. (range_name (contents src) r, range_value (contents src) r)) (take (length hs) (drop (i + 1) rs))
       = map (\<lambda>(n, v). (contents n, contents v)) hs"
    using Cons.IH [OF rec] Cons.prems by simp_all
  have i: "i < length ranges" using Cons.prems(2) by simp
  have ri: "rs ! i = ?r a b"
    using arg_cong [OF ih(2), of "\<lambda>l. l ! i"] i by simp
  have ti: "take i rs = take i ranges"
    using arg_cong [OF ih(2), of "take i"] by simp
  have bo: "borrowed_ok src n" "borrowed_ok src v" using Cons.prems(3) nv by simp_all
  have rd: "range_name (contents src) (rs ! i) = contents n" "range_value (contents src) (rs ! i) = contents v"
    using offset_reads_back [OF a bo(1)] offset_reads_back [OF b bo(2)] lt
    by (simp_all add: ri range_name_def range_value_def unat_of_nat_u32)
  have "take (length (nv # hs)) (drop i rs) = rs ! i # take (length hs) (drop (i + 1) rs)"
    using i ih(1) by (simp add: Cons_nth_drop_Suc [symmetric])
  then show ?case using ih ti rd nv i by simp
qed simp

text \<open>A slice whose offset is found and fits 32 bits.\<close>

definition locatable :: "Slice \<Rightarrow> Slice \<Rightarrow> bool" where
  "locatable src s =
     (case offset_in_or_find (contents src) (addr src) (addr src + length (contents src)) s of
        None \<Rightarrow> False | Some a \<Rightarrow> a < 2 ^ 32 \<and> length (contents s) < 2 ^ 32)"

lemma build_ranges_loop_total:
  assumes "list_all (\<lambda>(n, v). locatable src n \<and> locatable src v) hs"
  shows "\<exists>rs. build_ranges_loop hs src i ranges = Inr rs"
  using assms
proof (induction hs arbitrary: i ranges)
  case (Cons nv hs)
  obtain n v where nv: "nv = (n, v)" by (cases nv)
  from Cons.prems nv obtain a b where
    a: "offset_in_or_find (contents src) (addr src) (addr src + length (contents src)) n = Some a" and
    b: "offset_in_or_find (contents src) (addr src) (addr src + length (contents src)) v = Some b" and
    lt: "a < 2 ^ 32" "b < 2 ^ 32" "length (contents n) < 2 ^ 32" "length (contents v) < 2 ^ 32"
    by (auto simp: locatable_def split: option.splits)
  then obtain r where "from_parts a (length (contents n)) b (length (contents v)) = Inr r"
    using from_parts_Inr by blast
  with a b nv Cons.IH Cons.prems show ?case by (simp add: Let_def)
qed simp

section \<open>Ranges of a parsed head\<close>

text \<open>The slices of the headers the parser wrote, the buffer being at address \<open>base\<close>.\<close>

definition span_slice :: "usize \<Rightarrow> bytes \<Rightarrow> span \<Rightarrow> Slice" where
  "span_slice base buf s = \<lparr> addr = base + fst s, contents = span_bytes buf s \<rparr>"

definition header_slices :: "usize \<Rightarrow> bytes \<Rightarrow> (span \<times> span) list \<Rightarrow> (Slice \<times> Slice) list" where
  "header_slices base buf spans = map (\<lambda>(n, v). (span_slice base buf n, span_slice base buf v)) spans"

lemma span_slice_ok:
  assumes "fst s \<le> snd s" "snd s < length buf" "src = \<lparr> addr = base, contents = buf \<rparr>"
  shows "borrowed_ok src (span_slice base buf s)"
    "length buf < 2 ^ 32 \<Longrightarrow> locatable src (span_slice base buf s)"
  using assms
  by (simp_all add: borrowed_ok_def locatable_def span_slice_def offset_in_or_find_def span_bytes_def slice_def)

lemma parsed_slices:
  assumes parsed: "parse_head buf slots = Inr (h, slots', spans, n)"
  shows "list_all (\<lambda>(n, v). borrowed_ok \<lparr> addr = base, contents = buf \<rparr> n
        \<and> borrowed_ok \<lparr> addr = base, contents = buf \<rparr> v) (header_slices base buf spans)"
    and "length buf < 2 ^ 32 \<Longrightarrow>
      list_all (\<lambda>(n, v). locatable \<lparr> addr = base, contents = buf \<rparr> n
        \<and> locatable \<lparr> addr = base, contents = buf \<rparr> v) (header_slices base buf spans)"
    and "length (header_slices base buf spans) = header_count h"
    and "map (\<lambda>(n, v). (contents n, contents v)) (header_slices base buf spans) =
      map (\<lambda>f. (name_as_bytes (hname f), hvalue f)) (take (header_count h) slots')"
proof -
  obtain ver st r ls where h: "h = head_value ver st r ls" and bl: "buf = head_text ver st r ls @ drop n buf"
    and nl: "n = length (head_text ver st r ls)" and sl: "slots' = map line_header ls @ drop (length ls) slots"
    and sp: "map (\<lambda>(n, v). \<lparr> hname = Other (span_bytes buf n), hvalue = span_bytes buf v \<rparr>) spans = map line_header ls"
    and ok: "list_all (\<lambda>(m, v). fst m < snd m \<and> snd m < fst v \<and> fst v \<le> snd v \<and> snd v + 4 \<le> n) spans"
    by (rule parse_head_sound [OF parsed])
  let ?src = "\<lparr> addr = base, contents = buf \<rparr>"
  let ?hs = "header_slices base buf spans"
  have n: "n \<le> length buf" using nl arg_cong [OF bl, of length] by simp
  have len: "length spans = length ls" using arg_cong [OF sp, of length] by simp
  have in1: "fst m \<le> snd m \<and> snd m < length buf \<and> fst v \<le> snd v \<and> snd v < length buf" if "(m, v) \<in> set spans" for m v
    using ok that n by (auto simp: list_all_iff)
  show "list_all (\<lambda>(n, v). borrowed_ok ?src n \<and> borrowed_ok ?src v) ?hs"
    using in1 span_slice_ok(1) [of _ buf ?src base] by (auto simp: list_all_iff header_slices_def)
  show "list_all (\<lambda>(n, v). locatable ?src n \<and> locatable ?src v) ?hs" if "length buf < 2 ^ 32"
    using in1 span_slice_ok(2) [of _ buf ?src base] that
    by (auto simp: list_all_iff header_slices_def simp del: fst_conv snd_conv)
  show "length ?hs = header_count h" using h by (simp add: header_slices_def len head_value_def)
  have "map (\<lambda>(n, v). (contents n, contents v)) ?hs = map (\<lambda>f. (name_as_bytes (hname f), hvalue f)) (map line_header ls)"
    unfolding sp [symmetric] by (simp add: header_slices_def span_slice_def split_def)
  then show "map (\<lambda>(n, v). (contents n, contents v)) ?hs = map (\<lambda>f. (name_as_bytes (hname f), hvalue f)) (take (header_count h) slots')"
    using h sl by (simp add: head_value_def)
qed

lemma parsed_ranges_sound:
  assumes parsed: "parse_head buf slots = Inr (h, slots', spans, n)"
    and b: "build_ranges (header_slices base buf spans) \<lparr> addr = base, contents = buf \<rparr> = Inr rs"
  shows "length rs = MAX_HEADERS
    \<and> map (\<lambda>r. (range_name buf r, range_value buf r)) (take (header_count h) rs)
       = map (\<lambda>f. (name_as_bytes (hname f), hvalue f)) (take (header_count h) slots')"
proof -
  let ?hs = "header_slices base buf spans"
  note ps = parsed_slices [OF parsed, of base]
  have rs: "build_ranges_loop ?hs \<lparr> addr = base, contents = buf \<rparr> 0 (replicate MAX_HEADERS HeaderRange_default) = Inr rs"
    and fit: "0 + length ?hs \<le> length (replicate MAX_HEADERS HeaderRange_default)"
    using b by (simp_all add: build_ranges_def split: if_splits)
  show ?thesis using build_ranges_loop_sound [OF rs fit ps(1)] ps(3,4) by simp
qed

lemma parsed_ranges_total:
  assumes parsed: "parse_head buf slots = Inr (h, slots', spans, n)"
    and small: "length buf < 2 ^ 32" and few: "header_count h \<le> MAX_HEADERS"
  shows "\<exists>rs. build_ranges (header_slices base buf spans) \<lparr> addr = base, contents = buf \<rparr> = Inr rs"
  using build_ranges_loop_total [OF parsed_slices(2) [OF parsed small, of base]] parsed_slices(3) [OF parsed, of base] few
  by (simp add: build_ranges_def)

text \<open>
  C27: the ranges of a parsed head are exact. For a head that parsed from a buffer below
  \<open>2 ^ 32\<close> bytes with at most 64 headers, building ranges succeeds and reading the i-th range
  out of the buffer gives the name and the value of the i-th header; wherever the buffer
  lies in memory.
\<close>

theorem ranges_read_back_headers:
  assumes parsed: "parse_head buf slots = Inr (h, slots', spans, n)"
    and small: "length buf < 2 ^ 32" and few: "header_count h \<le> MAX_HEADERS"
  shows "\<exists>rs. build_ranges (header_slices base buf spans) \<lparr> addr = base, contents = buf \<rparr> = Inr rs
    \<and> length rs = MAX_HEADERS
    \<and> map (\<lambda>r. (range_name buf r, range_value buf r)) (take (header_count h) rs)
       = map (\<lambda>f. (name_as_bytes (hname f), hvalue f)) (take (header_count h) slots')"
  using parsed_ranges_total [OF parsed small few] parsed_ranges_sound [OF parsed] by blast

theorem ranges_read_back_witness:
  "\<exists>rs. build_ranges (header_slices 4096 sample_head [((17, 18), (20, 21))])
      \<lparr> addr = 4096, contents = sample_head \<rparr> = Inr rs
    \<and> map (\<lambda>r. (range_name sample_head r, range_value sample_head r)) (take 1 rs)
       = [(bs ''A'', bs ''b'')]"
proof -
  have "length sample_head < 2 ^ 32" by (simp add: sample_head_def bs_def)
  from ranges_read_back_headers [OF sample_head_parses this, of 4096]
  show ?thesis by (auto simp: MAX_HEADERS_def)
qed

end
