(* ===== verification/Chunked.thy ===== *)
theory Chunked
  imports Framing
begin

text \<open>
  \<^verbatim>\<open>xibalba-proto/src/response/chunked.rs\<close>: the incremental decoder of chunked transfer
  encoding, with its metadata budgets, the chunk-extension and trailer grammars, and the
  deferral of a verdict behind data already decoded. The decoder, the byte loops and the
  output buffer are translated as written; a branch the source marks \<^verbatim>\<open>unreachable!()\<close> is the
  value \<open>Unreachable\<close>, and a \<open>decode\<close> that reached one would be \<open>None\<close>.
\<close>

section \<open>Metadata budgets\<close>

definition MAX_CHUNK_EXTENSION :: usize where "MAX_CHUNK_EXTENSION = 4096"
definition MAX_TRAILER_SECTION :: usize where "MAX_TRAILER_SECTION = 8192"
definition MAX_CHUNK_SIZE_DIGITS :: usize where "MAX_CHUNK_SIZE_DIGITS = 1024"

record MetadataBudget =
  size_digits :: usize
  extension :: usize
  trailer :: usize

definition MetadataBudget_new :: MetadataBudget where
  "MetadataBudget_new = \<lparr> size_digits = 0, extension = 0, trailer = 0 \<rparr>"

text \<open>A \<^verbatim>\<open>charge_*\<close> call gives the verdict and the charged budget.\<close>

definition charge_size_digit :: "MetadataBudget \<Rightarrow> bool \<times> MetadataBudget" where
  "charge_size_digit self =
     (let self = self\<lparr> size_digits := size_digits self + 1 \<rparr>
      in (size_digits self \<le> MAX_CHUNK_SIZE_DIGITS, self))"

definition charge_extension :: "MetadataBudget \<Rightarrow> bool \<times> MetadataBudget" where
  "charge_extension self =
     (let self = self\<lparr> extension := extension self + 1 \<rparr>
      in (extension self \<le> MAX_CHUNK_EXTENSION, self))"

definition charge_trailer :: "MetadataBudget \<Rightarrow> bool \<times> MetadataBudget" where
  "charge_trailer self =
     (let self = self\<lparr> trailer := trailer self + 1 \<rparr>
      in (trailer self \<le> MAX_TRAILER_SECTION, self))"

definition reset_size_digits :: "MetadataBudget \<Rightarrow> MetadataBudget" where
  "reset_size_digits self = self\<lparr> size_digits := 0 \<rparr>"

definition reset_extension :: "MetadataBudget \<Rightarrow> MetadataBudget" where
  "reset_extension self = self\<lparr> extension := 0 \<rparr>"

section \<open>The decoder state\<close>

datatype ExtPhase =
    BeforeName | Name | AfterName | BeforeValue | ValueToken | ValueQuoted | ValueQuotedEscaped
  | AfterValue

datatype TrailerPhase = FieldName | AfterColon

datatype ChunkedState =
    ReadingSize | ReadingExtension | ReadingSizeLf | ReadingData | ReadingDataCr | ReadingDataLf
  | ReadingTrailer | ReadingTrailerLf | Done | Failed ParseError

record ChunkedDecoder =
  cstate :: ChunkedState
  chunk_size :: u64
  saw_size_digit :: bool
  cremaining :: u64
  trailer_line_empty :: bool
  metadata :: MetadataBudget
  ext_phase :: ExtPhase
  trailer_phase :: TrailerPhase
  trailer_name_len :: usize

datatype DecodeResult = Data usize | NeedMore | DecodeDone | DecodeError ParseError

datatype ExtStep = ExtContinue | ExtEndOfLine | ExtInvalid

datatype Step = Advance usize | Yield DecodeResult usize | EmitAndContinue usize | Unreachable

datatype DataStep = Copied usize | BufferFull

definition ChunkedDecoder_new :: ChunkedDecoder where
  "ChunkedDecoder_new =
     \<lparr> cstate = ReadingSize, chunk_size = 0, saw_size_digit = False, cremaining = 0,
       trailer_line_empty = True, metadata = MetadataBudget_new, ext_phase = BeforeName,
       trailer_phase = FieldName, trailer_name_len = 0 \<rparr>"

definition is_done :: "ChunkedDecoder \<Rightarrow> bool" where
  "is_done self = (cstate self = Done)"

definition HexDigit_decode :: "u8 \<Rightarrow> u8 option" where
  "HexDigit_decode b =
     (if 0x30 \<le> b \<and> b \<le> 0x39 then Some (b - 0x30)
      else if 0x61 \<le> b \<and> b \<le> 0x66 then Some (b - 0x61 + 10)
      else if 0x41 \<le> b \<and> b \<le> 0x46 then Some (b - 0x41 + 10)
      else None)"

definition is_metadata_byte :: "u8 \<Rightarrow> bool" where
  "is_metadata_byte b = (b = HTAB \<or> (b \<ge> 0x20 \<and> b \<noteq> 0x7F))"

section \<open>Chunk extensions\<close>

text \<open>The arms of the match, in order.\<close>

definition step_extension :: "ChunkedDecoder \<Rightarrow> u8 \<Rightarrow> ChunkedDecoder \<times> ExtStep" where
  "step_extension self b =
     (let p = ext_phase self; is_bws = (b = SP \<or> b = HTAB) in
      if (p = BeforeName \<or> p = BeforeValue) \<and> is_bws then (self, ExtContinue)
      else if (p = Name \<or> p = AfterName \<or> p = ValueToken \<or> p = AfterValue) \<and> is_bws then
        (self\<lparr> ext_phase := (if p = ValueToken \<or> p = AfterValue then AfterValue else AfterName) \<rparr>,
         ExtContinue)
      else if p = BeforeName \<and> Tchar_is_valid b then (self\<lparr> ext_phase := Name \<rparr>, ExtContinue)
      else if p = Name \<and> Tchar_is_valid b then (self, ExtContinue)
      else if (p = Name \<or> p = AfterName) \<and> b = EQUALS then
        (self\<lparr> ext_phase := BeforeValue \<rparr>, ExtContinue)
      else if (p = Name \<or> p = AfterName \<or> p = ValueToken \<or> p = AfterValue) \<and> b = SEMICOLON then
        (self\<lparr> ext_phase := BeforeName \<rparr>, ExtContinue)
      else if (p = Name \<or> p = AfterName \<or> p = ValueToken \<or> p = AfterValue) \<and> b = CR then
        (self, ExtEndOfLine)
      else if p = BeforeValue \<and> b = DQUOTE then (self\<lparr> ext_phase := ValueQuoted \<rparr>, ExtContinue)
      else if (p = BeforeValue \<or> p = ValueToken) \<and> Tchar_is_valid b then
        (self\<lparr> ext_phase := ValueToken \<rparr>, ExtContinue)
      else if p = ValueQuoted \<and> b = BACKSLASH then
        (self\<lparr> ext_phase := ValueQuotedEscaped \<rparr>, ExtContinue)
      else if p = ValueQuoted \<and> b = DQUOTE then (self\<lparr> ext_phase := AfterValue \<rparr>, ExtContinue)
      else if p = ValueQuoted \<and> is_metadata_byte b then (self, ExtContinue)
      else if p = ValueQuotedEscaped \<and> is_metadata_byte b then
        (self\<lparr> ext_phase := ValueQuoted \<rparr>, ExtContinue)
      else (self, ExtInvalid))"

definition advance_extension :: "ChunkedDecoder \<Rightarrow> u8 \<Rightarrow> ChunkedDecoder \<times> DecodeResult option" where
  "advance_extension self b =
     (case step_extension self b of
        (self, ExtContinue) \<Rightarrow>
          (let (ok, m) = charge_extension (metadata self); self = self\<lparr> metadata := m \<rparr>
           in if ok then (self, None) else (self, Some (DecodeError InvalidChunkMetadata)))
      | (self, ExtEndOfLine) \<Rightarrow>
          (self\<lparr> cremaining := chunk_size self, cstate := ReadingSizeLf \<rparr>, None)
      | (self, ExtInvalid) \<Rightarrow> (self, Some (DecodeError InvalidChunkMetadata)))"

section \<open>The byte loops\<close>

text \<open>
  \<^verbatim>\<open>for (i, &b) in input.iter().enumerate() { body } Step::Advance(input.len())\<close>, where the
  body goes on (\<open>None\<close>) or returns a step.
\<close>

fun byte_loop ::
  "(ChunkedDecoder \<Rightarrow> u8 \<Rightarrow> usize \<Rightarrow> ChunkedDecoder \<times> Step option)
   \<Rightarrow> ChunkedDecoder \<Rightarrow> bytes \<Rightarrow> usize \<Rightarrow> ChunkedDecoder \<times> Step" where
  "byte_loop body self [] i = (self, Advance i)"
| "byte_loop body self (b # rest) i =
     (case body self b i of
        (self', None) \<Rightarrow> byte_loop body self' rest (i + 1)
      | (self', Some s) \<Rightarrow> (self', s))"

text \<open>\<^verbatim>\<open>if let Some(err) = self.advance_extension(b) { return Step::Yield((err, i)); }\<close>\<close>

definition extension_byte :: "ChunkedDecoder \<Rightarrow> u8 \<Rightarrow> usize \<Rightarrow> ChunkedDecoder \<times> Step option" where
  "extension_byte self b i =
     (case advance_extension self b of
        (self, Some err) \<Rightarrow> (self, Some (Yield err i))
      | (self, None) \<Rightarrow> (self, None))"

definition size_digit_byte :: "ChunkedDecoder \<Rightarrow> u8 \<Rightarrow> usize \<Rightarrow> ChunkedDecoder \<times> Step option" where
  "size_digit_byte self digit i =
     (let (ok, m) = charge_size_digit (metadata self); self = self\<lparr> metadata := m \<rparr> in
      if \<not> ok then (self, Some (Yield (DecodeError InvalidChunkSize) i))
      else
        let self = self\<lparr> saw_size_digit := True \<rparr> in
        case Option.bind (checked_mul (chunk_size self) 16) (\<lambda>v. checked_add v (ucast digit)) of
          Some v \<Rightarrow> (self\<lparr> chunk_size := v \<rparr>, None)
        | None \<Rightarrow> (self, Some (Yield (DecodeError InvalidChunkSize) i)))"

definition size_line_byte :: "ChunkedDecoder \<Rightarrow> u8 \<Rightarrow> usize \<Rightarrow> ChunkedDecoder \<times> Step option" where
  "size_line_byte self b i =
     (case cstate self of
        ReadingSize \<Rightarrow>
          (case HexDigit_decode b of
             Some digit \<Rightarrow> size_digit_byte self digit i
           | None \<Rightarrow>
               if (b = CR \<or> b = SEMICOLON \<or> b = SP \<or> b = HTAB) \<and> saw_size_digit self then
                 if b = CR then
                   (self\<lparr> cremaining := chunk_size self, cstate := ReadingSizeLf \<rparr>, None)
                 else
                   extension_byte (self\<lparr> cstate := ReadingExtension, ext_phase := AfterValue \<rparr>) b i
               else (self, Some (Yield (DecodeError InvalidChunkSize) i)))
      | ReadingExtension \<Rightarrow> extension_byte self b i
      | ReadingSizeLf \<Rightarrow>
          if b \<noteq> LF then (self, Some (Yield (DecodeError InvalidChunkTerminator) i))
          else if chunk_size self = 0 then
            (self\<lparr> cstate := ReadingTrailer, trailer_line_empty := True,
                   metadata := reset_extension (metadata self) \<rparr>, Some (Advance (i + 1)))
          else (self\<lparr> cstate := ReadingData \<rparr>, Some (EmitAndContinue (i + 1)))
      | _ \<Rightarrow> (self, Some Unreachable))"

definition read_size_line :: "ChunkedDecoder \<Rightarrow> bytes \<Rightarrow> ChunkedDecoder \<times> Step" where
  "read_size_line self input = byte_loop size_line_byte self input 0"

text \<open>
  \<^verbatim>\<open>read_data\<close>: the bytes copied to the front of \<^verbatim>\<open>output\<close>, a slice of \<open>cap\<close> bytes, are the
  first \<open>n\<close> of the input when the step is \<open>Copied n\<close>.
\<close>

definition read_data :: "ChunkedDecoder \<Rightarrow> bytes \<Rightarrow> usize \<Rightarrow> ChunkedDecoder \<times> DataStep" where
  "read_data self input cap =
     (if cap = 0 then (self, BufferFull)
      else
        let to_copy = min (min (length input) cap)
              (case usize_try_from (cremaining self) of Some r \<Rightarrow> r | None \<Rightarrow> 2 ^ 64 - 1) in
        if to_copy = 0 then (self\<lparr> cstate := ReadingDataCr \<rparr>, Copied 0)
        else
          let self = self\<lparr> cremaining := cremaining self - of_nat to_copy \<rparr> in
          (if cremaining self = 0 then self\<lparr> cstate := ReadingDataCr \<rparr> else self, Copied to_copy))"

definition data_terminator_byte :: "ChunkedDecoder \<Rightarrow> u8 \<Rightarrow> usize \<Rightarrow> ChunkedDecoder \<times> Step option" where
  "data_terminator_byte self b i =
     (case cstate self of
        ReadingDataCr \<Rightarrow>
          if b \<noteq> CR then (self, Some (Yield (DecodeError InvalidChunkTerminator) i))
          else (self\<lparr> cstate := ReadingDataLf \<rparr>, None)
      | ReadingDataLf \<Rightarrow>
          if b \<noteq> LF then (self, Some (Yield (DecodeError InvalidChunkTerminator) i))
          else
            (self\<lparr> chunk_size := 0, saw_size_digit := False,
                   metadata := reset_size_digits (reset_extension (metadata self)),
                   ext_phase := BeforeName, cstate := ReadingSize \<rparr>, Some (Advance (i + 1)))
      | _ \<Rightarrow> (self, Some Unreachable))"

definition read_data_terminator :: "ChunkedDecoder \<Rightarrow> bytes \<Rightarrow> ChunkedDecoder \<times> Step" where
  "read_data_terminator self input = byte_loop data_terminator_byte self input 0"

definition trailer_byte :: "ChunkedDecoder \<Rightarrow> u8 \<Rightarrow> usize \<Rightarrow> ChunkedDecoder \<times> Step option" where
  "trailer_byte self b i =
     (case cstate self of
        ReadingTrailer \<Rightarrow>
          if b = CR \<and> trailer_phase self = FieldName \<and> trailer_name_len self = 0 then
            (self\<lparr> cstate := ReadingTrailerLf \<rparr>, None)
          else
            let (ok, m) = charge_trailer (metadata self); self = self\<lparr> metadata := m \<rparr> in
            if \<not> ok then (self, Some (Yield (DecodeError InvalidChunkMetadata) i))
            else
              let self = self\<lparr> trailer_line_empty := False \<rparr>; p = trailer_phase self in
              if p = FieldName \<and> b = COLON \<and> trailer_name_len self > 0 then
                (self\<lparr> trailer_phase := AfterColon \<rparr>, None)
              else if p = FieldName \<and> Tchar_is_valid b then
                (self\<lparr> trailer_name_len := trailer_name_len self + 1 \<rparr>, None)
              else if p = AfterColon \<and> is_metadata_byte b then (self, None)
              else if p = AfterColon \<and> b = CR then (self\<lparr> cstate := ReadingTrailerLf \<rparr>, None)
              else (self, Some (Yield (DecodeError InvalidChunkMetadata) i))
      | ReadingTrailerLf \<Rightarrow>
          if b \<noteq> LF then (self, Some (Yield (DecodeError InvalidChunkTerminator) i))
          else if trailer_line_empty self then (self\<lparr> cstate := Done \<rparr>, Some (Advance (i + 1)))
          else
            (self\<lparr> cstate := ReadingTrailer, trailer_line_empty := True, trailer_phase := FieldName,
                   trailer_name_len := 0 \<rparr>, None)
      | _ \<Rightarrow> (self, Some Unreachable))"

definition read_trailer :: "ChunkedDecoder \<Rightarrow> bytes \<Rightarrow> ChunkedDecoder \<times> Step" where
  "read_trailer self input = byte_loop trailer_byte self input 0"

section \<open>decode\<close>

definition deliver ::
  "ChunkedDecoder \<Rightarrow> DecodeResult \<Rightarrow> usize \<Rightarrow> usize \<Rightarrow> ChunkedDecoder \<times> DecodeResult \<times> usize" where
  "deliver self result consumed out_pos =
     (case result of
        DecodeError e \<Rightarrow>
          if out_pos > 0 then (self\<lparr> cstate := Failed e \<rparr>, Data out_pos, consumed)
          else (self, result, consumed)
      | _ \<Rightarrow> (self, result, consumed))"

text \<open>Writing \<open>xs\<close> at position \<open>p\<close> of the output buffer.\<close>

definition write_at :: "bytes \<Rightarrow> usize \<Rightarrow> bytes \<Rightarrow> bytes" where
  "write_at output p xs = take p output @ xs @ drop (p + length xs) output"

lemma byte_loop_advance:
  assumes "byte_loop body self xs i = (self', s)"
    and "\<And>self b i self' n. body self b i = (self', Some (Advance n)) \<Longrightarrow> n = i + 1"
    and "\<And>self b i self' n. body self b i = (self', Some (EmitAndContinue n)) \<Longrightarrow> n = i + 1"
  shows "(s = Advance n \<or> s = EmitAndContinue n) \<Longrightarrow> xs \<noteq> [] \<Longrightarrow> i < n"
  using assms(1)
proof (induction xs arbitrary: self i)
  case (Cons b rest)
  obtain d r where br: "body self b i = (d, r)" by fastforce
  show ?case
  proof (cases r)
    case None
    then have l: "byte_loop body d rest (i + 1) = (self', s)" using Cons.prems br by simp
    show ?thesis
    proof (cases "rest = []")
      case True
      then show ?thesis using l Cons.prems(1) by auto
    next
      case False
      then show ?thesis using Cons.IH [OF Cons.prems(1) False l] by simp
    qed
  next
    case (Some s')
    then show ?thesis using Cons.prems br assms(2,3) by fastforce
  qed
qed simp

lemma size_line_byte_returns:
  "size_line_byte self b i = (self', Some (Advance n)) \<Longrightarrow> n = i + 1"
  "size_line_byte self b i = (self', Some (EmitAndContinue n)) \<Longrightarrow> n = i + 1"
  by (auto simp: size_line_byte_def size_digit_byte_def extension_byte_def Let_def
      split: ChunkedState.splits option.splits if_splits prod.splits)

lemma data_terminator_byte_returns:
  "data_terminator_byte self b i = (self', Some (Advance n)) \<Longrightarrow> n = i + 1"
  "data_terminator_byte self b i = (self', Some (EmitAndContinue n)) \<Longrightarrow> n = i + 1"
  by (auto simp: data_terminator_byte_def split: ChunkedState.splits if_splits)

lemma trailer_byte_returns:
  "trailer_byte self b i = (self', Some (Advance n)) \<Longrightarrow> n = i + 1"
  "trailer_byte self b i = (self', Some (EmitAndContinue n)) \<Longrightarrow> n = i + 1"
  by (auto simp: trailer_byte_def Let_def split: ChunkedState.splits if_splits prod.splits)

lemma reads_advance:
  assumes "xs \<noteq> []" "s = Advance n \<or> s = EmitAndContinue n"
  shows "read_size_line self xs = (self', s) \<Longrightarrow> 0 < n"
    "read_data_terminator self xs = (self', s) \<Longrightarrow> 0 < n"
    "read_trailer self xs = (self', s) \<Longrightarrow> 0 < n"
  using assms byte_loop_advance size_line_byte_returns data_terminator_byte_returns trailer_byte_returns
  unfolding read_size_line_def read_data_terminator_def read_trailer_def by blast+

text \<open>
  Why the loop of \<^verbatim>\<open>decode\<close> ends: a pass consumes input, but for the one that finds no chunk
  bytes left, which leaves \<open>ReadingData\<close>.
\<close>

lemma read_data_progress:
  assumes "read_data self xs cap = (self', Copied n)" "xs \<noteq> []"
  shows "0 < n \<or> cstate self' = ReadingDataCr"
  using assms by (auto simp: read_data_def Let_def split: if_splits)

lemma pass_consumes:
  assumes "p < length input"
  shows "(self', Advance n) = read_size_line self (drop p input) \<Longrightarrow> length input - (p + n) < length input - p"
    "(self', EmitAndContinue n) = read_size_line self (drop p input) \<Longrightarrow> length input - (p + n) < length input - p"
    "(self', Advance n) = read_data_terminator self (drop p input) \<Longrightarrow> length input - (p + n) < length input - p"
    "(self', Advance n) = read_trailer self (drop p input) \<Longrightarrow> length input - (p + n) < length input - p"
    "(self', Copied n) = read_data self (drop p input) cap \<Longrightarrow> cstate self' = ReadingData \<Longrightarrow>
       length input - (p + n) < length input - p"
proof -
  have ne: "drop p input \<noteq> []" using assms by simp
  have less: "0 < n \<Longrightarrow> length input - (p + n) < length input - p" using assms by simp
  show "(self', Advance n) = read_size_line self (drop p input) \<Longrightarrow> length input - (p + n) < length input - p"
    using reads_advance(1) [OF ne, of "Advance n" n] less by metis
  show "(self', EmitAndContinue n) = read_size_line self (drop p input) \<Longrightarrow> length input - (p + n) < length input - p"
    using reads_advance(1) [OF ne, of "EmitAndContinue n" n] less by metis
  show "(self', Advance n) = read_data_terminator self (drop p input) \<Longrightarrow> length input - (p + n) < length input - p"
    using reads_advance(2) [OF ne, of "Advance n" n] less by metis
  show "(self', Advance n) = read_trailer self (drop p input) \<Longrightarrow> length input - (p + n) < length input - p"
    using reads_advance(3) [OF ne, of "Advance n" n] less by metis
  show "(self', Copied n) = read_data self (drop p input) cap \<Longrightarrow> cstate self' = ReadingData \<Longrightarrow>
       length input - (p + n) < length input - p"
    using read_data_progress [OF _ ne, of self cap self' n] less by auto
qed

text \<open>
  The loop of \<^verbatim>\<open>decode\<close> with the code after it. A result is the decoder, the output buffer,
  the answer and the number of input bytes consumed; \<open>None\<close> is a panic.
\<close>

function decode_loop ::
  "bytes \<Rightarrow> ChunkedDecoder \<Rightarrow> usize \<Rightarrow> bytes \<Rightarrow> usize
   \<Rightarrow> (ChunkedDecoder \<times> bytes \<times> DecodeResult \<times> usize) option" where
  "decode_loop input self in_pos output out_pos =
     (if in_pos < length input \<and> cstate self \<noteq> Done then
        if cstate self = ReadingSize \<or> cstate self = ReadingExtension \<or> cstate self = ReadingSizeLf then
          (case read_size_line self (drop in_pos input) of
             (self, Advance n) \<Rightarrow> decode_loop input self (in_pos + n) output out_pos
           | (self, Yield result consumed) \<Rightarrow>
               (let (self, result, consumed) = deliver self result (in_pos + consumed) out_pos
                in Some (self, output, result, consumed))
           | (self, EmitAndContinue n) \<Rightarrow>
               if out_pos > 0 then Some (self, output, Data out_pos, in_pos + n)
               else decode_loop input self (in_pos + n) output out_pos
           | (self, Unreachable) \<Rightarrow> None)
        else if cstate self = ReadingData then
          (case read_data self (drop in_pos input) (length output - out_pos) of
             (self, Copied n) \<Rightarrow>
               decode_loop input self (in_pos + n)
                 (write_at output out_pos (take n (drop in_pos input))) (out_pos + n)
           | (self, BufferFull) \<Rightarrow> Some (self, output, Data out_pos, in_pos))
        else if cstate self = ReadingDataCr \<or> cstate self = ReadingDataLf then
          (case read_data_terminator self (drop in_pos input) of
             (self, Advance n) \<Rightarrow> decode_loop input self (in_pos + n) output out_pos
           | (self, Yield result consumed) \<Rightarrow>
               (let (self, result, consumed) = deliver self result (in_pos + consumed) out_pos
                in Some (self, output, result, consumed))
           | (self, EmitAndContinue n) \<Rightarrow> None
           | (self, Unreachable) \<Rightarrow> None)
        else if cstate self = ReadingTrailer \<or> cstate self = ReadingTrailerLf then
          (case read_trailer self (drop in_pos input) of
             (self, Advance n) \<Rightarrow> decode_loop input self (in_pos + n) output out_pos
           | (self, Yield result consumed) \<Rightarrow>
               (let (self, result, consumed) = deliver self result (in_pos + consumed) out_pos
                in Some (self, output, result, consumed))
           | (self, EmitAndContinue n) \<Rightarrow> None
           | (self, Unreachable) \<Rightarrow> None)
        else (case cstate self of Failed e \<Rightarrow> Some (self, output, DecodeError e, in_pos) | _ \<Rightarrow> None)
      else if out_pos > 0 then Some (self, output, Data out_pos, in_pos)
      else if is_done self then Some (self, output, DecodeDone, in_pos)
      else Some (self, output, NeedMore, in_pos))"
  by pat_completeness auto

termination
  apply (relation "measures [\<lambda>(input, self, in_pos, _). length input - in_pos,
    \<lambda>(input, self, in_pos, _). if cstate self = ReadingData then 1 else 0]")
       apply simp
      apply (rule measures_less, simp only: prod.case, elim conjE, erule (1) pass_consumes(1))
     apply (rule measures_less, simp only: prod.case, elim conjE, erule (1) pass_consumes(2))
  subgoal for input self in_pos outb out_pos x y n
    using pass_consumes(5) [of in_pos input x n self "length outb - out_pos"] by auto
   apply (rule measures_less, simp only: prod.case, elim conjE, erule (1) pass_consumes(3))
  apply (rule measures_less, simp only: prod.case, elim conjE, erule (1) pass_consumes(4))
  done

definition decode :: "ChunkedDecoder \<Rightarrow> bytes \<Rightarrow> bytes \<Rightarrow> (ChunkedDecoder \<times> bytes \<times> DecodeResult \<times> usize) option" where
  "decode self input output =
     (case cstate self of
        Failed e \<Rightarrow> Some (self, output, DecodeError e, 0)
      | _ \<Rightarrow> decode_loop input self 0 output 0)"

declare decode_loop.simps [simp del]

end
