(* ===== verification/Chunked_Spec.thy ===== *)
theory Chunked_Spec
  imports Chunked
begin

text \<open>
  The chunked decoder against a one-byte-at-a-time reference. \<open>chunk_step\<close> says what one byte
  does to a decoder, \<open>steps\<close> runs a whole string without buffers or calls. The locale
  \<open>byte_reader\<close> is the contract the three byte loops share; its lemma, used through three
  interpretations, lifts to \<open>decode\<close>: whatever the window and the buffer, a call consumes a
  prefix, emits exactly the reference's output for it, and its answer agrees with the
  reference.
\<close>

section \<open>The reference\<close>

datatype ByteOutcome = Next ChunkedDecoder bytes | Reject ParseError | Stop

fun loop_outcome :: "ChunkedDecoder \<times> Step option \<Rightarrow> ByteOutcome" where
  "loop_outcome (d, None) = Next d []"
| "loop_outcome (d, Some (Advance n)) = Next d []"
| "loop_outcome (d, Some (EmitAndContinue n)) = Next d []"
| "loop_outcome (d, Some (Yield (DecodeError e) n)) = Reject e"
| "loop_outcome (d, Some s) = Stop"

text \<open>The groups of states the three loops serve.\<close>

definition in_size :: "ChunkedDecoder \<Rightarrow> bool" where
  "in_size d = (cstate d = ReadingSize \<or> cstate d = ReadingExtension \<or> cstate d = ReadingSizeLf)"

definition in_terminator :: "ChunkedDecoder \<Rightarrow> bool" where
  "in_terminator d = (cstate d = ReadingDataCr \<or> cstate d = ReadingDataLf)"

definition in_trailer :: "ChunkedDecoder \<Rightarrow> bool" where
  "in_trailer d = (cstate d = ReadingTrailer \<or> cstate d = ReadingTrailerLf)"

definition data_byte :: "ChunkedDecoder \<Rightarrow> ChunkedDecoder" where
  "data_byte d =
     (let d = d\<lparr> cremaining := cremaining d - 1 \<rparr>
      in if cremaining d = 0 then d\<lparr> cstate := ReadingDataCr \<rparr> else d)"

definition chunk_step :: "ChunkedDecoder \<Rightarrow> u8 \<Rightarrow> ByteOutcome" where
  "chunk_step d b =
     (if in_size d then loop_outcome (size_line_byte d b 0)
      else if cstate d = ReadingData then Next (data_byte d) [b]
      else if in_terminator d then loop_outcome (data_terminator_byte d b 0)
      else if in_trailer d then loop_outcome (trailer_byte d b 0)
      else Stop)"

fun steps :: "ChunkedDecoder \<Rightarrow> bytes \<Rightarrow> (ChunkedDecoder \<times> bytes) option" where
  "steps d [] = Some (d, [])"
| "steps d (b # xs) =
     (case chunk_step d b of
        Next d' out \<Rightarrow> map_option (\<lambda>(d'', outs). (d'', out @ outs)) (steps d' xs)
      | _ \<Rightarrow> None)"

definition rejects :: "ChunkedDecoder \<Rightarrow> bytes \<Rightarrow> ParseError \<Rightarrow> bool" where
  "rejects d xs e = (xs \<noteq> [] \<and> chunk_step d (hd xs) = Reject e)"

lemma steps_append:
  "steps d (xs @ ys) =
     (case steps d xs of
        None \<Rightarrow> None
      | Some (d', out) \<Rightarrow> map_option (\<lambda>(d'', outs). (d'', out @ outs)) (steps d' ys))"
proof (induction xs arbitrary: d)
  case Nil
  show ?case by (cases "steps d ys") auto
next
  case (Cons b xs)
  show ?case
  proof (cases "chunk_step d b")
    case (Next d' out)
    then show ?thesis
      using Cons.IH [of d'] by (cases "steps d' xs") (auto simp: option.map_comp comp_def split_def split: option.splits)
  qed simp_all
qed

lemma steps_compose:
  "steps d xs = Some (d', o1) \<Longrightarrow> steps d' ys = Some (d'', o2) \<Longrightarrow> steps d (xs @ ys) = Some (d'', o1 @ o2)"
  by (simp add: steps_append)

section \<open>The contract of a byte loop\<close>

locale byte_reader =
  fixes body :: "ChunkedDecoder \<Rightarrow> u8 \<Rightarrow> usize \<Rightarrow> ChunkedDecoder \<times> Step option"
    and group :: "ChunkedDecoder \<Rightarrow> bool"
  assumes step_body: "group d \<Longrightarrow> chunk_step d b = loop_outcome (body d b 0)"
    and classified: "group d \<Longrightarrow>
      (\<exists>d'. group d' \<and> (\<forall>i. body d b i = (d', None)))
      \<or> (\<exists>d'. \<forall>i. body d b i = (d', Some (Advance (i + 1))))
      \<or> (\<exists>d'. \<forall>i. body d b i = (d', Some (EmitAndContinue (i + 1))))
      \<or> (\<exists>d' e. \<forall>i. body d b i = (d', Some (Yield (DecodeError e) i)))"
begin

lemma loop_sound:
  assumes "group d" "byte_loop body d xs i = (d', s)"
  shows "\<exists>k d1. k \<le> length xs \<and> steps d (take k xs) = Some (d1, [])
    \<and> ((s = Advance (i + k) \<or> s = EmitAndContinue (i + k)) \<and> d' = d1
       \<or> (\<exists>e. s = Yield (DecodeError e) (i + k) \<and> rejects d1 (drop k xs) e))"
  using assms
proof (induction xs arbitrary: d i)
  case Nil
  then show ?case by simp
next
  case (Cons b xs)
  note st = step_body [OF Cons.prems(1), of b]
  from classified [OF Cons.prems(1), of b]
  consider (go) d2 where "group d2" "\<forall>i. body d b i = (d2, None)"
    | (ret) d2 where "(\<forall>i. body d b i = (d2, Some (Advance (i + 1))))
        \<or> (\<forall>i. body d b i = (d2, Some (EmitAndContinue (i + 1))))"
    | (err) d2 e where "\<forall>i. body d b i = (d2, Some (Yield (DecodeError e) i))" by blast
  then show ?case
  proof cases
    case go
    then have "byte_loop body d2 xs (i + 1) = (d', s)" using Cons.prems(2) by simp
    from Cons.IH [OF go(1) this] obtain k d1 where k: "k \<le> length xs" "steps d2 (take k xs) = Some (d1, [])"
      and s: "(s = Advance (i + 1 + k) \<or> s = EmitAndContinue (i + 1 + k)) \<and> d' = d1
       \<or> (\<exists>e. s = Yield (DecodeError e) (i + 1 + k) \<and> rejects d1 (drop k xs) e)" by blast
    then show ?thesis using st go by (intro exI [of _ "Suc k"] exI [of _ d1]) auto
  next
    case ret
    then have "steps d (take 1 (b # xs)) = Some (d2, [])" using st by auto
    moreover have "(s = Advance (i + 1) \<or> s = EmitAndContinue (i + 1)) \<and> d' = d2"
      using ret Cons.prems(2) by auto
    ultimately show ?thesis by (intro exI [of _ 1] exI [of _ d2]) auto
  next
    case err
    then have "rejects d (drop 0 (b # xs)) e" using st by (simp add: rejects_def)
    moreover have "s = Yield (DecodeError e) i" using err Cons.prems(2) by auto
    ultimately show ?thesis by (intro exI [of _ 0] exI [of _ d]) auto
  qed
qed

lemma step_next:
  assumes "group d" "chunk_step d b = Next d' out"
  shows "out = [] \<and> (group d' \<or> body d b 0 = (d', Some (Advance 1)) \<or> body d b 0 = (d', Some (EmitAndContinue 1)))"
proof -
  have st: "loop_outcome (body d b 0) = Next d' out" using assms step_body by simp
  from classified [OF assms(1), of b] consider
    (go) d2 where "group d2" "body d b 0 = (d2, None)"
    | (adv) d2 where "body d b 0 = (d2, Some (Advance 1))"
    | (emit) d2 where "body d b 0 = (d2, Some (EmitAndContinue 1))"
    | (err) d2 e where "body d b 0 = (d2, Some (Yield (DecodeError e) 0))"
    by (metis add_0)
  then show ?thesis using st by cases auto
qed

end

section \<open>The three loops meet the contract\<close>

lemma step_extension_cstate: "cstate (fst (step_extension d b)) = cstate d"
  by (simp add: step_extension_def Let_def)

lemma extension_byte_cases:
  obtains (go) d' where "\<forall>i. extension_byte d b i = (d', None)" "cstate d' = cstate d \<or> cstate d' = ReadingSizeLf"
    | (err) d' where "\<forall>i. extension_byte d b i = (d', Some (Yield (DecodeError InvalidChunkMetadata) i))"
proof -
  obtain d2 r where se: "step_extension d b = (d2, r)" by fastforce
  then have c: "cstate d2 = cstate d" using step_extension_cstate [of d b] by simp
  show thesis
    by (cases r; cases "fst (charge_extension (metadata d2))")
      (use se c go err in \<open>auto simp: extension_byte_def advance_extension_def split_def Let_def\<close>)
qed

lemma size_digit_byte_cases:
  obtains (go) d' where "\<forall>i. size_digit_byte d g i = (d', None)" "cstate d' = cstate d"
    | (err) d' where "\<forall>i. size_digit_byte d g i = (d', Some (Yield (DecodeError InvalidChunkSize) i))"
proof -
  obtain ok m where ch: "charge_size_digit (metadata d) = (ok, m)" by fastforce
  show thesis
    by (cases ok; cases "Option.bind (checked_mul (chunk_size d) 16) (\<lambda>v. checked_add v (ucast g))")
      (use ch go err in \<open>auto simp: size_digit_byte_def Let_def\<close>)
qed

interpretation size_reader: byte_reader size_line_byte in_size
proof
  fix d b
  assume g: "in_size d"
  then show "chunk_step d b = loop_outcome (size_line_byte d b 0)" by (simp add: chunk_step_def)
  let ?C = "(\<exists>d'. in_size d' \<and> (\<forall>i. size_line_byte d b i = (d', None)))
      \<or> (\<exists>d'. \<forall>i. size_line_byte d b i = (d', Some (Advance (i + 1))))
      \<or> (\<exists>d'. \<forall>i. size_line_byte d b i = (d', Some (EmitAndContinue (i + 1))))
      \<or> (\<exists>d' e. \<forall>i. size_line_byte d b i = (d', Some (Yield (DecodeError e) i)))"
  from g consider "cstate d = ReadingSize" | "cstate d = ReadingExtension" | "cstate d = ReadingSizeLf"
    by (auto simp: in_size_def)
  then show ?C
  proof cases
    case 1
    show ?thesis
    proof (cases "HexDigit_decode b")
      case (Some digit)
      show ?thesis by (rule size_digit_byte_cases [of d digit]) (use 1 Some in \<open>auto simp: size_line_byte_def in_size_def\<close>)
    next
      case None
      let ?d = "d\<lparr> cstate := ReadingExtension, ext_phase := AfterValue \<rparr>"
      show ?thesis
        by (cases "(b = CR \<or> b = SEMICOLON \<or> b = SP \<or> b = HTAB) \<and> saw_size_digit d"; cases "b = CR";
            rule extension_byte_cases [of ?d b])
          (use 1 None in \<open>auto simp: size_line_byte_def in_size_def\<close>)
    qed
  next
    case 2
    show ?thesis by (rule extension_byte_cases [of d b]) (use 2 in \<open>auto simp: size_line_byte_def in_size_def\<close>)
  next
    case 3
    then show ?thesis by (auto simp: size_line_byte_def)
  qed
qed

interpretation terminator_reader: byte_reader data_terminator_byte in_terminator
proof
  fix d b
  assume g: "in_terminator d"
  then show "chunk_step d b = loop_outcome (data_terminator_byte d b 0)"
    by (auto simp: chunk_step_def in_size_def in_terminator_def)
  show "(\<exists>d'. in_terminator d' \<and> (\<forall>i. data_terminator_byte d b i = (d', None)))
      \<or> (\<exists>d'. \<forall>i. data_terminator_byte d b i = (d', Some (Advance (i + 1))))
      \<or> (\<exists>d'. \<forall>i. data_terminator_byte d b i = (d', Some (EmitAndContinue (i + 1))))
      \<or> (\<exists>d' e. \<forall>i. data_terminator_byte d b i = (d', Some (Yield (DecodeError e) i)))"
    using g by (auto simp: in_terminator_def data_terminator_byte_def)
qed

interpretation trailer_reader: byte_reader trailer_byte in_trailer
proof
  fix d b
  assume g: "in_trailer d"
  then show "chunk_step d b = loop_outcome (trailer_byte d b 0)"
    by (auto simp: chunk_step_def in_size_def in_terminator_def in_trailer_def)
  obtain ok m where ch: "charge_trailer (metadata d) = (ok, m)" by fastforce
  let ?C = "(\<exists>d'. in_trailer d' \<and> (\<forall>i. trailer_byte d b i = (d', None)))
      \<or> (\<exists>d'. \<forall>i. trailer_byte d b i = (d', Some (Advance (i + 1))))
      \<or> (\<exists>d'. \<forall>i. trailer_byte d b i = (d', Some (EmitAndContinue (i + 1))))
      \<or> (\<exists>d' e. \<forall>i. trailer_byte d b i = (d', Some (Yield (DecodeError e) i)))"
  from g consider "cstate d = ReadingTrailer" | "cstate d = ReadingTrailerLf" by (auto simp: in_trailer_def)
  then show ?C
  proof cases
    case 1
    then show ?thesis
      by (cases "b = CR \<and> trailer_phase d = FieldName \<and> trailer_name_len d = 0"; cases ok;
          cases "trailer_phase d"; cases "b = COLON \<and> trailer_name_len d > 0"; cases "Tchar_is_valid b";
          cases "is_metadata_byte b"; cases "b = CR")
        (simp_all add: trailer_byte_def ch Let_def in_trailer_def, auto)
  next
    case 2
    then show ?thesis
      by (cases "b = LF"; cases "trailer_line_empty d") (simp_all add: trailer_byte_def in_trailer_def)
  qed
qed

section \<open>Decoding refines the reference\<close>

text \<open>A chunk of size zero never enters the data state, and every other one with bytes to read.\<close>

definition chunk_inv :: "ChunkedDecoder \<Rightarrow> bool" where
  "chunk_inv d =
     ((cstate d = ReadingData \<longrightarrow> cremaining d \<noteq> 0)
      \<and> (cstate d = ReadingSizeLf \<longrightarrow> cremaining d = chunk_size d))"

lemma chunk_inv_new: "chunk_inv ChunkedDecoder_new"
  by (simp add: chunk_inv_def ChunkedDecoder_new_def)

lemma extension_byte_remaining:
  "extension_byte d b i = (d', None) \<Longrightarrow> cstate d = ReadingExtension \<Longrightarrow> chunk_inv d'"
  using step_extension_cstate [of d b]
  by (auto simp: extension_byte_def advance_extension_def chunk_inv_def Let_def
      split: prod.splits ExtStep.splits if_splits option.splits)

lemma trailer_advance_done:
  "trailer_byte d b i = (d', Some (Advance n)) \<Longrightarrow> cstate d' = Done"
  "trailer_byte d b i \<noteq> (d', Some (EmitAndContinue n))"
  by (auto simp: trailer_byte_def Let_def split: ChunkedState.splits if_splits prod.splits)

lemma chunk_inv_step:
  assumes "chunk_inv d" "chunk_step d b = Next d' out"
  shows "chunk_inv d'"
proof -
  have "in_size d \<or> cstate d = ReadingData \<or> in_terminator d \<or> in_trailer d"
    using assms(2) by (auto simp: chunk_step_def split: if_splits)
  then consider "cstate d = ReadingSize" | "cstate d = ReadingExtension" | "cstate d = ReadingSizeLf"
    | "cstate d = ReadingData" | "in_terminator d" | "in_trailer d" by (auto simp: in_size_def)
  then show ?thesis
  proof cases
    case 1
    then have s: "loop_outcome (size_line_byte d b 0) = Next d' out"
      using assms(2) by (simp add: chunk_step_def in_size_def)
    let ?d = "d\<lparr> cstate := ReadingExtension, ext_phase := AfterValue \<rparr>"
    show ?thesis
    proof (cases "HexDigit_decode b")
      case (Some g)
      show ?thesis by (rule size_digit_byte_cases [of d g])
        (use 1 s Some in \<open>auto simp: size_line_byte_def chunk_inv_def\<close>)
    next
      case None
      show ?thesis
        by (rule extension_byte_cases [of ?d b])
          (use 1 s None extension_byte_remaining [of ?d b 0] in
            \<open>auto simp: size_line_byte_def chunk_inv_def split: if_splits\<close>)
    qed
  next
    case 2
    then have s: "loop_outcome (extension_byte d b 0) = Next d' out"
      using assms(2) by (simp add: chunk_step_def in_size_def size_line_byte_def)
    show ?thesis
      by (rule extension_byte_cases [of d b]) (use 2 s extension_byte_remaining [of d b 0] in auto)
  next
    case 3
    then show ?thesis using assms
      by (auto simp: chunk_step_def in_size_def size_line_byte_def chunk_inv_def split: if_splits)
  next
    case 4
    then show ?thesis using assms
      by (auto simp: chunk_step_def in_size_def data_byte_def chunk_inv_def Let_def split: if_splits)
  next
    case 5
    then show ?thesis using assms
      by (auto simp: chunk_step_def in_size_def in_terminator_def data_terminator_byte_def chunk_inv_def
          split: if_splits)
  next
    case 6
    then have "in_trailer d' \<or> cstate d' = Done"
      using trailer_reader.step_next [OF 6 assms(2)] trailer_advance_done by auto
    then show ?thesis by (auto simp: chunk_inv_def in_trailer_def)
  qed
qed

lemma chunk_inv_steps: "chunk_inv d \<Longrightarrow> steps d xs = Some (d', out) \<Longrightarrow> chunk_inv d'"
  by (induction xs arbitrary: d out) (auto split: ByteOutcome.splits dest: chunk_inv_step)

text \<open>A run of chunk bytes is a run of the reference.\<close>

definition data_bytes :: "ChunkedDecoder \<Rightarrow> usize \<Rightarrow> ChunkedDecoder" where
  "data_bytes d n =
     (let d = d\<lparr> cremaining := cremaining d - of_nat n \<rparr>
      in if cremaining d = 0 then d\<lparr> cstate := ReadingDataCr \<rparr> else d)"

lemma steps_data:
  assumes "cstate d = ReadingData" "xs \<noteq> []" "length xs \<le> unat (cremaining d)"
  shows "steps d xs = Some (data_bytes d (length xs), xs)"
  using assms
proof (induction xs arbitrary: d)
  case (Cons b xs)
  have st: "chunk_step d b = Next (data_byte d) [b]"
    using Cons.prems(1) by (simp add: chunk_step_def in_size_def)
  show ?case
  proof (cases "xs = []")
    case True
    then show ?thesis using st by (simp add: data_byte_def data_bytes_def)
  next
    case False
    then have "1 < unat (cremaining d)" using Cons.prems(3) by (cases xs) auto
    then have u: "unat (cremaining d - 1) = unat (cremaining d) - 1" and nz: "cremaining d - 1 \<noteq> 0"
      by (auto simp: unat_sub word_le_nat_alt word_unat_eq_iff)
    have d: "data_byte d = d\<lparr> cremaining := cremaining d - 1 \<rparr>" using nz by (simp add: data_byte_def)
    have "steps (data_byte d) xs = Some (data_bytes (data_byte d) (length xs), xs)"
      using Cons.prems False d u by (intro Cons.IH) auto
    moreover have "data_bytes (data_byte d) (length xs) = data_bytes d (length (b # xs))"
      by (simp add: d data_bytes_def algebra_simps)
    ultimately show ?thesis using st by simp
  qed
qed simp

lemma read_data_cases:
  assumes "chunk_inv d" "cstate d = ReadingData" "xs \<noteq> []"
  shows "cap = 0 \<and> read_data d xs cap = (d, BufferFull)
    \<or> (\<exists>n. 0 < n \<and> n \<le> length xs \<and> n \<le> cap \<and> n \<le> unat (cremaining d)
         \<and> read_data d xs cap = (data_bytes d n, Copied n))"
proof (cases "cap = 0")
  case False
  have "0 < unat (cremaining d)" using assms by (simp add: chunk_inv_def unat_gt_0)
  then show ?thesis using False assms(3)
    by (intro disjI2 exI [of _ "min (min (length xs) cap) (unat (cremaining d))"])
      (simp add: read_data_def data_bytes_def Let_def min_le_iff_disj)
qed (simp add: read_data_def)

text \<open>
  What an answer means, for \<open>d1\<close> the reference's decoder after the consumed bytes, \<open>d'\<close> the
  decoder left behind, the unread input and the number of bytes now in the output buffer.
\<close>

fun answer_ok :: "ChunkedDecoder \<Rightarrow> ChunkedDecoder \<Rightarrow> bytes \<Rightarrow> usize \<Rightarrow> usize \<Rightarrow> DecodeResult \<Rightarrow> bool" where
  "answer_ok d1 d' unread m cap (Data k) =
     (k = m \<and> (0 < m \<or> cap = 0) \<and> (d' = d1 \<or> (\<exists>e. cstate d' = Failed e \<and> rejects d1 unread e)))"
| "answer_ok d1 d' unread m cap NeedMore = (m = 0 \<and> d' = d1 \<and> unread = [] \<and> cstate d1 \<noteq> Done)"
| "answer_ok d1 d' unread m cap DecodeDone = (m = 0 \<and> d' = d1 \<and> cstate d1 = Done)"
| "answer_ok d1 d' unread m cap (DecodeError e) = (m = 0 \<and> rejects d1 unread e)"

definition decode_post ::
  "bytes \<Rightarrow> ChunkedDecoder \<Rightarrow> usize \<Rightarrow> bytes \<Rightarrow> usize
   \<Rightarrow> (ChunkedDecoder \<times> bytes \<times> DecodeResult \<times> usize) option \<Rightarrow> bool" where
  "decode_post input d in_pos outb out_pos r =
     (\<exists>d' outb' res n d1 data. r = Some (d', outb', res, n)
        \<and> in_pos \<le> n \<and> n \<le> length input
        \<and> steps d (slice input in_pos n) = Some (d1, data)
        \<and> length outb' = length outb \<and> out_pos + length data \<le> length outb
        \<and> take (out_pos + length data) outb' = take out_pos outb @ data
        \<and> answer_ok d1 d' (drop n input) (out_pos + length data) (length outb) res)"

lemma decode_postI:
  assumes "in_pos \<le> n" "n \<le> length input" "steps d (slice input in_pos n) = Some (d1, [])"
    and "out_pos \<le> length outb" "answer_ok d1 d' (drop n input) out_pos (length outb) res"
  shows "decode_post input d in_pos outb out_pos (Some (d', outb, res, n))"
  using assms by (auto simp: decode_post_def)

lemma slice_self [simp]: "slice xs a a = []"
  by (simp add: slice_def)

lemma slice_split: "a \<le> b \<Longrightarrow> b \<le> c \<Longrightarrow> slice xs a c = slice xs a b @ slice xs b c"
proof -
  assume "a \<le> b" "b \<le> c"
  then have e: "c - a = (b - a) + (c - b)" "b = (b - a) + a" by simp_all
  have "take (c - a) (drop a xs) = take (b - a) (drop a xs) @ take (c - b) (drop (b - a) (drop a xs))"
    unfolding e(1) by (rule take_add)
  also have "drop (b - a) (drop a xs) = drop b xs" using e(2) by simp
  finally show ?thesis by (simp add: slice_def)
qed

lemma decode_post_step:
  assumes "decode_post input d2 p2 outb2 o2 r" "p \<le> p2" "steps d (slice input p p2) = Some (d2, xs)"
    and "o2 = out_pos + length xs" "length outb2 = length outb" "take o2 outb2 = take out_pos outb @ xs"
  shows "decode_post input d p outb out_pos r"
proof -
  obtain d' outb' res n d1 data where r: "r = Some (d', outb', res, n)" and n: "p2 \<le> n" "n \<le> length input"
    and st: "steps d2 (slice input p2 n) = Some (d1, data)"
    and l: "length outb' = length outb2" "o2 + length data \<le> length outb2"
    and t: "take (o2 + length data) outb' = take o2 outb2 @ data"
    and a: "answer_ok d1 d' (drop n input) (o2 + length data) (length outb2) res"
    using assms(1) by (auto simp: decode_post_def)
  have "steps d (slice input p n) = Some (d1, xs @ data)"
    using slice_split [OF assms(2) n(1), of input] steps_compose [OF assms(3) st] by simp
  then show ?thesis unfolding decode_post_def
    using r n l t a assms(2,4-6)
    by (intro exI [of _ d'] exI [of _ outb'] exI [of _ res] exI [of _ n] exI [of _ d1] exI [of _ "xs @ data"])
      (auto simp: add.assoc)
qed

lemma loop_pass:
  assumes post: "\<exists>k d1. k \<le> length (drop p input) \<and> steps d (take k (drop p input)) = Some (d1, [])
    \<and> ((s = Advance (0 + k) \<or> s = EmitAndContinue (0 + k)) \<and> d2 = d1
       \<or> (\<exists>e. s = Yield (DecodeError e) (0 + k) \<and> rejects d1 (drop k (drop p input)) e))"
    and p: "p < length input" "out_pos \<le> length outb"
  shows "(\<exists>n. (s = Advance n \<or> s = EmitAndContinue n) \<and> p + n \<le> length input
          \<and> steps d (slice input p (p + n)) = Some (d2, []))
    \<or> (\<exists>e n d' res m. s = Yield (DecodeError e) n \<and> deliver d2 (DecodeError e) (p + n) out_pos = (d', res, m)
          \<and> decode_post input d p outb out_pos (Some (d', outb, res, m)))"
proof -
  obtain k d1 where k: "k \<le> length (drop p input)" "steps d (take k (drop p input)) = Some (d1, [])"
    and c: "((s = Advance k \<or> s = EmitAndContinue k) \<and> d2 = d1
       \<or> (\<exists>e. s = Yield (DecodeError e) k \<and> rejects d1 (drop (p + k) input) e))"
    using post by (auto simp: add.commute)
  have sl: "slice input p (p + k) = take k (drop p input)" by (simp add: slice_def)
  have pk: "p + k \<le> length input" using k(1) p by simp
  from c show ?thesis
  proof
    assume "(s = Advance k \<or> s = EmitAndContinue k) \<and> d2 = d1"
    then show ?thesis using k(2) sl pk by auto
  next
    assume "\<exists>e. s = Yield (DecodeError e) k \<and> rejects d1 (drop (p + k) input) e"
    then obtain e where e: "s = Yield (DecodeError e) k" "rejects d1 (drop (p + k) input) e" by blast
    have "decode_post input d p outb out_pos (Some (fst (deliver d2 (DecodeError e) (p + k) out_pos), outb,
        fst (snd (deliver d2 (DecodeError e) (p + k) out_pos)), p + k))"
      by (rule decode_postI [of _ _ _ _ d1]) (use k sl pk p e in \<open>auto simp: deliver_def\<close>)
    then show ?thesis using e(1) by (auto simp: deliver_def split: if_splits)
  qed
qed

text \<open>Where one byte of each group leads.\<close>

lemma size_returns_state:
  "size_line_byte d b i = (d', Some (Advance n)) \<Longrightarrow> cstate d' = ReadingTrailer"
  "size_line_byte d b i = (d', Some (EmitAndContinue n)) \<Longrightarrow> cstate d' = ReadingData"
  by (auto simp: size_line_byte_def size_digit_byte_def extension_byte_def Let_def
      split: ChunkedState.splits option.splits if_splits prod.splits)

lemma terminator_returns_state:
  "data_terminator_byte d b i = (d', Some (Advance n)) \<Longrightarrow> cstate d' = ReadingSize"
  "data_terminator_byte d b i \<noteq> (d', Some (EmitAndContinue n))"
  by (auto simp: data_terminator_byte_def split: ChunkedState.splits if_splits)

lemma chunk_step_state:
  assumes "chunk_step d b = Next d' out"
  shows "in_size d' \<or> cstate d' = ReadingData \<or> in_terminator d' \<or> in_trailer d' \<or> cstate d' = Done"
proof -
  consider "in_size d" | "cstate d = ReadingData" | "in_terminator d" | "in_trailer d"
    using assms by (auto simp: chunk_step_def split: if_splits)
  then show ?thesis
  proof cases
    case 1
    then show ?thesis using size_reader.step_next [OF 1 assms] size_returns_state
      by (auto simp: in_trailer_def)
  next
    case 2
    then show ?thesis using assms
      by (auto simp: chunk_step_def in_size_def data_byte_def in_terminator_def Let_def split: if_splits)
  next
    case 3
    then show ?thesis using terminator_reader.step_next [OF 3 assms] terminator_returns_state
      by (auto simp: in_size_def)
  next
    case 4
    then show ?thesis using trailer_reader.step_next [OF 4 assms] trailer_advance_done by auto
  qed
qed

definition alive :: "ChunkedDecoder \<Rightarrow> bool" where
  "alive d = (case cstate d of Failed e \<Rightarrow> False | _ \<Rightarrow> True)"

lemma alive_steps: "alive d \<Longrightarrow> steps d xs = Some (d', out) \<Longrightarrow> alive d'"
proof (induction xs arbitrary: d out)
  case (Cons b xs)
  then obtain d2 o2 o3 where "chunk_step d b = Next d2 o2" "steps d2 xs = Some (d', o3)"
    by (auto split: ByteOutcome.splits)
  moreover from this(1) have "alive d2"
    using chunk_step_state [of d b d2 o2]
    by (auto simp: alive_def in_size_def in_terminator_def in_trailer_def)
  ultimately show ?case using Cons.IH by blast
qed simp

text \<open>The passes of the loop, by group.\<close>

lemma decode_loop_stop:
  "\<not> (p < length input \<and> cstate d \<noteq> Done) \<Longrightarrow>
   decode_loop input d p outb out_pos =
     Some (d, outb, if out_pos > 0 then Data out_pos else if is_done d then DecodeDone else NeedMore, p)"
  by (subst decode_loop.simps) simp

text \<open>The terminator and trailer loops never ask to emit.\<close>

lemma no_emit:
  assumes "\<And>d b i d' n. body d b i \<noteq> (d', Some (EmitAndContinue n))"
  shows "byte_loop body d xs i \<noteq> (d', EmitAndContinue n)"
proof (induction xs arbitrary: d i)
  case (Cons b xs)
  then show ?case using assms by (auto split: prod.splits option.splits)
qed simp

lemma terminator_no_emit: "read_data_terminator d xs \<noteq> (d', EmitAndContinue n)"
  unfolding read_data_terminator_def by (rule no_emit) (rule terminator_returns_state(2))

lemma trailer_no_emit: "read_trailer d xs \<noteq> (d', EmitAndContinue n)"
  unfolding read_trailer_def by (rule no_emit) (rule trailer_advance_done(2))

text \<open>What the loop does after a byte loop returned.\<close>

definition after_step ::
  "bytes \<Rightarrow> usize \<Rightarrow> bytes \<Rightarrow> usize \<Rightarrow> ChunkedDecoder \<Rightarrow> Step
   \<Rightarrow> (ChunkedDecoder \<times> bytes \<times> DecodeResult \<times> usize) option" where
  "after_step input p outb out_pos d s =
     (case s of
        Advance n \<Rightarrow> decode_loop input d (p + n) outb out_pos
      | Yield r n \<Rightarrow> (let (d', res, m) = deliver d r (p + n) out_pos in Some (d', outb, res, m))
      | EmitAndContinue n \<Rightarrow>
          if out_pos > 0 then Some (d, outb, Data out_pos, p + n) else decode_loop input d (p + n) outb out_pos
      | Unreachable \<Rightarrow> None)"

lemma decode_loop_size:
  assumes "p < length input" "in_size d" "read_size_line d (drop p input) = (d2, s)"
  shows "decode_loop input d p outb out_pos = after_step input p outb out_pos d2 s"
  using assms by (subst decode_loop.simps) (auto simp: in_size_def after_step_def split: Step.splits)

lemma decode_loop_terminator:
  assumes "p < length input" "in_terminator d" "read_data_terminator d (drop p input) = (d2, s)"
  shows "decode_loop input d p outb out_pos = after_step input p outb out_pos d2 s"
  using assms terminator_no_emit [of d "drop p input" d2]
  by (subst decode_loop.simps) (auto simp: in_terminator_def after_step_def split: Step.splits)

lemma decode_loop_trailer:
  assumes "p < length input" "in_trailer d" "read_trailer d (drop p input) = (d2, s)"
  shows "decode_loop input d p outb out_pos = after_step input p outb out_pos d2 s"
  using assms trailer_no_emit [of d "drop p input" d2]
  by (subst decode_loop.simps) (auto simp: in_trailer_def after_step_def split: Step.splits)

lemma decode_loop_data:
  assumes "p < length input" "cstate d = ReadingData"
    and "read_data d (drop p input) (length outb - out_pos) = (d2, s)"
  shows "decode_loop input d p outb out_pos =
    (case s of
       Copied n \<Rightarrow> decode_loop input d2 (p + n) (write_at outb out_pos (take n (drop p input))) (out_pos + n)
     | BufferFull \<Rightarrow> Some (d2, outb, Data out_pos, p))"
  using assms by (subst decode_loop.simps) (auto split: DataStep.splits)

text \<open>Every pass of the loop is \<open>after_step\<close> of a sound byte loop, or a copy.\<close>

lemma decode_loop_pass:
  assumes "p < length input" "out_pos \<le> length outb" "in_size d \<or> in_terminator d \<or> in_trailer d"
  obtains d2 s where "decode_loop input d p outb out_pos = after_step input p outb out_pos d2 s"
    and "\<And>n. s = Advance n \<or> s = EmitAndContinue n \<Longrightarrow> 0 < n"
    and "(\<exists>n. (s = Advance n \<or> s = EmitAndContinue n) \<and> p + n \<le> length input
          \<and> steps d (slice input p (p + n)) = Some (d2, []))
        \<or> (\<exists>e n d' res m. s = Yield (DecodeError e) n \<and> deliver d2 (DecodeError e) (p + n) out_pos = (d', res, m)
          \<and> decode_post input d p outb out_pos (Some (d', outb, res, m)))"
proof -
  have ne: "drop p input \<noteq> []" using assms(1) by simp
  consider (sz) "in_size d" | (tm) "in_terminator d" | (tr) "in_trailer d" using assms(3) by blast
  then show thesis
  proof cases
    case sz
    obtain d2 s where rs: "read_size_line d (drop p input) = (d2, s)" by fastforce
    show thesis
      by (rule that [OF decode_loop_size [OF assms(1) sz rs] reads_advance(1) [OF ne _ rs]
            loop_pass [OF size_reader.loop_sound [OF sz rs [unfolded read_size_line_def]] assms(1,2)]])
  next
    case tm
    obtain d2 s where rs: "read_data_terminator d (drop p input) = (d2, s)" by fastforce
    show thesis
      by (rule that [OF decode_loop_terminator [OF assms(1) tm rs] reads_advance(2) [OF ne _ rs]
            loop_pass [OF terminator_reader.loop_sound [OF tm rs [unfolded read_data_terminator_def]] assms(1,2)]])
  next
    case tr
    obtain d2 s where rs: "read_trailer d (drop p input) = (d2, s)" by fastforce
    show thesis
      by (rule that [OF decode_loop_trailer [OF assms(1) tr rs] reads_advance(3) [OF ne _ rs]
            loop_pass [OF trailer_reader.loop_sound [OF tr rs [unfolded read_trailer_def]] assms(1,2)]])
  qed
qed

lemma decode_loop_copy:
  assumes "p < length input" "out_pos \<le> length outb" "cstate d = ReadingData" "chunk_inv d"
  shows "length outb = out_pos \<and> decode_loop input d p outb out_pos = Some (d, outb, Data out_pos, p)
    \<or> (\<exists>n xs outb2. 0 < n \<and> p + n \<le> length input \<and> length xs = n
         \<and> steps d (slice input p (p + n)) = Some (data_bytes d n, xs)
         \<and> out_pos + length xs \<le> length outb \<and> length outb2 = length outb
         \<and> take (out_pos + length xs) outb2 = take out_pos outb @ xs
         \<and> decode_loop input d p outb out_pos = decode_loop input (data_bytes d n) (p + n) outb2 (out_pos + n))"
proof -
  have ne: "drop p input \<noteq> []" using assms(1) by simp
  from read_data_cases [OF assms(4,3) ne, of "length outb - out_pos"] show ?thesis
  proof
    assume "length outb - out_pos = 0 \<and> read_data d (drop p input) (length outb - out_pos) = (d, BufferFull)"
    then show ?thesis using decode_loop_data [OF assms(1,3), of outb out_pos d BufferFull] assms(2) by auto
  next
    assume "\<exists>n>0. n \<le> length (drop p input) \<and> n \<le> length outb - out_pos \<and> n \<le> unat (cremaining d)
      \<and> read_data d (drop p input) (length outb - out_pos) = (data_bytes d n, Copied n)"
    then obtain n where n: "0 < n" "n \<le> length (drop p input)" "n \<le> length outb - out_pos" "n \<le> unat (cremaining d)"
      and rd: "read_data d (drop p input) (length outb - out_pos) = (data_bytes d n, Copied n)" by blast
    let ?xs = "take n (drop p input)"
    have xl: "length ?xs = n" using n(2) by simp
    have st: "steps d (slice input p (p + n)) = Some (data_bytes d n, ?xs)"
      using steps_data [OF assms(3), of ?xs] xl n(1,4) by (simp add: slice_def)
    have on: "out_pos + length ?xs \<le> length outb" "p + n \<le> length input" using n assms(1,2) xl by simp_all
    have w: "length (write_at outb out_pos ?xs) = length outb"
      "take (out_pos + length ?xs) (write_at outb out_pos ?xs) = take out_pos outb @ ?xs"
      using on assms(2) by (simp_all add: write_at_def)
    show ?thesis
      using n(1) on(2) xl st on(1) w decode_loop_data [OF assms(1,3) rd]
      by (intro disjI2 exI [of _ n] exI [of _ ?xs] exI [of _ "write_at outb out_pos ?xs"]) simp
  qed
qed

lemma decode_loop_refines:
  assumes "chunk_inv d" "p \<le> length input" "out_pos \<le> length outb" "alive d"
  shows "decode_post input d p outb out_pos (decode_loop input d p outb out_pos)"
  using assms
proof (induction "length input - p" arbitrary: d p outb out_pos rule: less_induct)
  case less
  note inv = less.prems(1) and o = less.prems(3) and al = less.prems(4)
  show ?case
  proof (cases "p < length input \<and> cstate d \<noteq> Done")
    case False
    then show ?thesis unfolding decode_loop_stop [OF False]
      using less.prems by (auto intro!: decode_postI simp: is_done_def)
  next
    case True
    then have pl: "p < length input" by simp
    have rec: "decode_post input d p outb out_pos (decode_loop input d2 (p + n) outb2 (out_pos + length xs))"
      if "0 < n" "p + n \<le> length input" "steps d (slice input p (p + n)) = Some (d2, xs)"
        "out_pos + length xs \<le> length outb" "length outb2 = length outb"
        "take (out_pos + length xs) outb2 = take out_pos outb @ xs" for n d2 outb2 xs
    proof -
      have "decode_post input d2 (p + n) outb2 (out_pos + length xs)
          (decode_loop input d2 (p + n) outb2 (out_pos + length xs))"
        using that pl by (intro less.hyps) (auto intro: chunk_inv_steps [OF inv] alive_steps [OF al])
      from decode_post_step [OF this] that show ?thesis by auto
    qed
    show ?thesis
    proof (cases "cstate d = ReadingData")
      case True
      from decode_loop_copy [OF pl o this inv] show ?thesis
        using less.prems rec by (elim disjE exE conjE) (auto intro!: decode_postI)
    next
      case False
      then have grp: "in_size d \<or> in_terminator d \<or> in_trailer d"
        using True al by (cases "cstate d") (auto simp: in_size_def in_terminator_def in_trailer_def alive_def)
      show ?thesis
      proof (rule decode_loop_pass [OF pl o grp])
        fix d2 s
        assume lp: "decode_loop input d p outb out_pos = after_step input p outb out_pos d2 s"
          and pos: "\<And>n. s = Advance n \<or> s = EmitAndContinue n \<Longrightarrow> 0 < n"
          and sound: "(\<exists>n. (s = Advance n \<or> s = EmitAndContinue n) \<and> p + n \<le> length input
            \<and> steps d (slice input p (p + n)) = Some (d2, []))
          \<or> (\<exists>e n d' res m. s = Yield (DecodeError e) n \<and> deliver d2 (DecodeError e) (p + n) out_pos = (d', res, m)
            \<and> decode_post input d p outb out_pos (Some (d', outb, res, m)))"
      from sound show ?thesis
      proof
        assume "\<exists>n. (s = Advance n \<or> s = EmitAndContinue n) \<and> p + n \<le> length input
            \<and> steps d (slice input p (p + n)) = Some (d2, [])"
        then obtain n where n: "s = Advance n \<or> s = EmitAndContinue n" "p + n \<le> length input"
          "steps d (slice input p (p + n)) = Some (d2, [])" by blast
        have r: "decode_post input d p outb out_pos (decode_loop input d2 (p + n) outb out_pos)"
          using rec [OF _ n(2,3)] pos [OF n(1)] o by simp
        have "decode_post input d p outb out_pos (Some (d2, outb, Data out_pos, p + n))" if "0 < out_pos"
          by (rule decode_postI) (use n o that in auto)
        with r n(1) show ?thesis unfolding lp after_step_def by auto
        qed (auto simp: lp after_step_def)
      qed
    qed
  qed
qed

end
