(* ===== verification/Chunked_Session.thy ===== *)
theory Chunked_Session
  imports Chunked_Spec
begin

text \<open>
  What the chunked decoder guarantees to a caller that reads a stream in arbitrary pieces
  into arbitrary buffers (\<^verbatim>\<open>xibalba-fuzz/src/chunked.rs\<close> states these as fuzz invariants):
  each call refines the reference, every pair of callers of one stream decodes the same body
  with the same verdict, a call makes progress, and a peer cannot keep a caller busy with
  metadata beyond a fixed number of bytes per body byte.
\<close>

section \<open>The whole stream in the reference\<close>

datatype Outcome = Complete bytes | Errored ParseError | Exhausted

text \<open>Body and outcome; \<open>Complete\<close> carries the bytes after the terminating chunk.\<close>

fun ref_run :: "ChunkedDecoder \<Rightarrow> bytes \<Rightarrow> bytes \<times> Outcome" where
  "ref_run d [] = ([], if cstate d = Done then Complete [] else Exhausted)"
| "ref_run d (b # xs) =
     (case chunk_step d b of
        Next d' out \<Rightarrow> (let (body, oc) = ref_run d' xs in (out @ body, oc))
      | Reject e \<Rightarrow> ([], Errored e)
      | Stop \<Rightarrow> ([], Complete (b # xs)))"

lemma ref_run_steps:
  "steps d xs = Some (d', out) \<Longrightarrow> ref_run d (xs @ ys) = (out @ fst (ref_run d' ys), snd (ref_run d' ys))"
  by (induction xs arbitrary: d out) (auto split: ByteOutcome.splits simp: split_def Let_def)

lemma ref_run_done: "cstate d = Done \<Longrightarrow> ref_run d xs = ([], Complete xs)"
  by (cases xs) (auto simp: chunk_step_def in_size_def in_terminator_def in_trailer_def)

lemma ref_run_rejects: "rejects d xs e \<Longrightarrow> ref_run d xs = ([], Errored e)"
  by (cases xs) (auto simp: rejects_def)

section \<open>One call\<close>

lemma decode_refines_aux:
  assumes "chunk_inv d" "alive d"
  obtains d' outb' res n d1 data where "decode d input outb = Some (d', outb', res, n)" "n \<le> length input"
    "steps d (take n input) = Some (d1, data)" "length outb' = length outb" "length data \<le> length outb"
    "take (length data) outb' = data" "answer_ok d1 d' (drop n input) (length data) (length outb) res"
proof -
  have "decode d input outb = decode_loop input d 0 outb 0"
    using assms(2) by (cases "cstate d") (simp_all add: decode_def alive_def)
  moreover have "decode_post input d 0 outb 0 (decode_loop input d 0 outb 0)"
    using assms by (intro decode_loop_refines) simp_all
  ultimately show thesis using that by (auto simp: decode_post_def slice_def)
qed

text \<open>
  C16: one call of the chunked decoder refines the byte-at-a-time reference. It never panics;
  it consumes a prefix of the input; the bytes it puts at the front of the output buffer are
  exactly the reference's output for that prefix; and the answer is true of the reference:
  \<^verbatim>\<open>Data\<close> counts the bytes delivered (with a pending error only if the next byte is rejected
  with it), \<^verbatim>\<open>NeedMore\<close> means all input was used, \<^verbatim>\<open>Done\<close> that the stream ended, an error that
  the next byte is rejected with that error and no data is lost.
\<close>

theorem decode_refines_reference:
  assumes "chunk_inv d" "alive d"
  shows "\<exists>d' outb' res n d1 data. decode d input outb = Some (d', outb', res, n)
    \<and> n \<le> length input \<and> steps d (take n input) = Some (d1, data)
    \<and> length outb' = length outb \<and> length data \<le> length outb \<and> take (length data) outb' = data
    \<and> answer_ok d1 d' (drop n input) (length data) (length outb) res"
  by (rule decode_refines_aux [OF assms, of input outb]) blast

lemma decode_call:
  assumes "chunk_inv d" "alive d" "decode d input outb = Some (d', outb', res, n)"
  obtains d1 data where "n \<le> length input" "steps d (take n input) = Some (d1, data)"
    "take (length data) outb' = data" "answer_ok d1 d' (drop n input) (length data) (length outb) res"
  by (rule decode_refines_aux [OF assms(1,2), of input outb]) (use assms(3) that in simp)

section \<open>A caller\<close>

text \<open>
  A caller holds the decoder, the unread part of the stream and the body so far. It offers a
  window of the stream and a buffer, appends what a \<^verbatim>\<open>Data\<close> answer says, and goes on after
  \<^verbatim>\<open>Data\<close> and \<^verbatim>\<open>NeedMore\<close>.
\<close>

inductive calls ::
  "ChunkedDecoder \<Rightarrow> bytes \<Rightarrow> ChunkedDecoder \<Rightarrow> bytes \<Rightarrow> bytes \<Rightarrow> bool" for d0 stream where
  start: "calls d0 stream d0 stream []"
| data: "calls d0 stream d s body \<Longrightarrow> decode d (take k s) outb = Some (d', outb', Data m, n) \<Longrightarrow>
    calls d0 stream d' (drop n s) (body @ take m outb')"
| more: "calls d0 stream d s body \<Longrightarrow> decode d (take k s) outb = Some (d', outb', NeedMore, n) \<Longrightarrow>
    calls d0 stream d' (drop n s) body"

text \<open>How a caller's run ends: by a verdict, or with the stream used up.\<close>

inductive finished :: "ChunkedDecoder \<Rightarrow> bytes \<Rightarrow> bytes \<Rightarrow> Outcome \<Rightarrow> bool" for d0 stream where
  complete: "calls d0 stream d s body \<Longrightarrow> decode d (take k s) outb = Some (d', outb', DecodeDone, n) \<Longrightarrow>
    finished d0 stream body (Complete (drop n s))"
| errored: "calls d0 stream d s body \<Longrightarrow> decode d (take k s) outb = Some (d', outb', DecodeError e, n) \<Longrightarrow>
    finished d0 stream body (Errored e)"
| exhausted: "calls d0 stream d s body \<Longrightarrow> decode d (take k s) outb = Some (d', outb', NeedMore, n) \<Longrightarrow>
    drop n s = [] \<Longrightarrow> finished d0 stream body Exhausted"

text \<open>The invariant of a run: the reference's run over the consumed part of the stream.\<close>

definition tracked :: "ChunkedDecoder \<Rightarrow> bytes \<Rightarrow> ChunkedDecoder \<Rightarrow> bytes \<Rightarrow> bytes \<Rightarrow> bool" where
  "tracked d0 stream d s body =
     (\<exists>c d1. stream = c @ s \<and> steps d0 c = Some (d1, body) \<and> chunk_inv d1 \<and> alive d1
        \<and> (d = d1 \<or> (\<exists>e. cstate d = Failed e \<and> rejects d1 s e)))"

lemma rejects_window: "rejects d (drop n (take k s)) e \<Longrightarrow> rejects d (drop n s) e"
  unfolding rejects_def
  by (metis drop_take hd_take take_eq_Nil neq0_conv)

lemma take_window: "n \<le> length (take k s) \<Longrightarrow> take n (take k s) = take n s"
  by (simp add: min_absorb1)

lemma decode_failed: "cstate d = Failed e \<Longrightarrow> decode d input outb = Some (d, outb, DecodeError e, 0)"
  by (simp add: decode_def)

text \<open>One call from a tracked state, with the reference's decoder after it.\<close>

lemma tracked_call:
  assumes "tracked d0 stream d s body" "decode d (take k s) outb = Some (d', outb', res, n)"
  shows "(\<exists>c d1 data. stream = c @ drop n s \<and> steps d0 c = Some (d1, body @ data) \<and> chunk_inv d1 \<and> alive d1
      \<and> take (length data) outb' = data \<and> answer_ok d1 d' (drop n (take k s)) (length data) (length outb) res)
    \<or> (\<exists>e c d1. res = DecodeError e \<and> stream = c @ s \<and> steps d0 c = Some (d1, body) \<and> rejects d1 s e)"
proof -
  obtain c d1 where c: "stream = c @ s" "steps d0 c = Some (d1, body)" "chunk_inv d1" "alive d1"
    and d: "d = d1 \<or> (\<exists>e. cstate d = Failed e \<and> rejects d1 s e)"
    using assms(1) by (auto simp: tracked_def)
  from d show ?thesis
  proof
    assume "d = d1"
    with assms(2) have "decode d1 (take k s) outb = Some (d', outb', res, n)" by simp
    then obtain d2 data where r: "n \<le> length (take k s)" "steps d1 (take n (take k s)) = Some (d2, data)"
      "take (length data) outb' = data" "answer_ok d2 d' (drop n (take k s)) (length data) (length outb) res"
      by (rule decode_call [OF c(3,4)])
    have st: "steps d0 (c @ take n s) = Some (d2, body @ data)"
      using steps_compose [OF c(2) r(2)] unfolding take_window [OF r(1)] .
    have "chunk_inv d2" "alive d2"
      using chunk_inv_steps [OF c(3) r(2)] alive_steps [OF c(4) r(2)] by simp_all
    with st r(3,4) c(1) show ?thesis
      by (intro disjI1 exI [of _ "c @ take n s"] exI [of _ d2] exI [of _ data]) simp
  next
    assume "\<exists>e. cstate d = Failed e \<and> rejects d1 s e"
    then show ?thesis using assms(2) c decode_failed by fastforce
  qed
qed

lemma calls_tracked:
  assumes "calls d0 stream d s body" "chunk_inv d0" "alive d0"
  shows "tracked d0 stream d s body"
  using assms
proof (induction rule: calls.induct)
  case start
  then show ?case by (auto simp: tracked_def intro!: exI [of _ "[]"])
next
  case (data d s body k outb d' outb' m n)
  from tracked_call [OF data.IH [OF data.prems] data.hyps(2)]
  obtain c d1 ys where c: "stream = c @ drop n s" "steps d0 c = Some (d1, body @ ys)" "chunk_inv d1" "alive d1"
    "take (length ys) outb' = ys" "answer_ok d1 d' (drop n (take k s)) (length ys) (length outb) (Data m)"
    by auto
  from c(6) have "m = length ys" "d' = d1 \<or> (\<exists>e. cstate d' = Failed e \<and> rejects d1 (drop n s) e)"
    by (auto intro: rejects_window)
  then show ?case
    unfolding tracked_def using c by (intro exI [of _ c] exI [of _ d1]) auto
next
  case (more d s body k outb d' outb' n)
  from tracked_call [OF more.IH [OF more.prems] more.hyps(2)] show ?case
    by (auto simp: tracked_def)
qed

lemma finished_ref_run:
  assumes "finished d0 stream body oc" "chunk_inv d0" "alive d0"
  shows "ref_run d0 stream = (body, oc)"
  using assms(1)
proof cases
  case (complete d s k outb d' outb' n)
  from tracked_call [OF calls_tracked [OF complete(2) assms(2,3)] complete(3)]
  obtain c d1 where "stream = c @ drop n s" "steps d0 c = Some (d1, body)" "cstate d1 = Done" by auto
  then show ?thesis using complete(1) ref_run_steps ref_run_done by simp
next
  case (errored d s k outb d' outb' e n)
  from tracked_call [OF calls_tracked [OF errored(2) assms(2,3)] errored(3)]
  obtain c d1 s' where "stream = c @ s'" "steps d0 c = Some (d1, body)" "rejects d1 s' e"
    by (auto intro: rejects_window)
  then show ?thesis using errored(1) ref_run_steps ref_run_rejects by simp
next
  case (exhausted d s k outb d' outb' n)
  from tracked_call [OF calls_tracked [OF exhausted(2) assms(2,3)] exhausted(3)]
  obtain c d1 where "stream = c @ drop n s" "steps d0 c = Some (d1, body)" "cstate d1 \<noteq> Done" by auto
  then show ?thesis using exhausted(1,4) ref_run_steps [of d0 c d1 body "[]"] by simp
qed

lemma alive_new: "alive ChunkedDecoder_new"
  by (simp add: alive_def ChunkedDecoder_new_def)

text \<open>
  C15: where the network cuts a chunked stream and how large the caller's buffers are changes
  nothing. Any two callers that read the same stream to an end, in whatever windows and
  buffers, obtain the same body and the same outcome: completion with the same unread bytes,
  the same error, or exhaustion.
\<close>

theorem chunked_split_independent:
  assumes "finished ChunkedDecoder_new stream body1 oc1" "finished ChunkedDecoder_new stream body2 oc2"
  shows "body1 = body2 \<and> oc1 = oc2"
  using finished_ref_run [OF assms(1) chunk_inv_new alive_new] finished_ref_run [OF assms(2) chunk_inv_new alive_new]
  by simp

text \<open>
  No stall. A call with input and a non-empty buffer, on a decoder that has neither
  finished nor failed, consumes at least one byte or answers with an error; with no progress
  possible the caller is told so.
\<close>

theorem decode_progress:
  assumes "chunk_inv d" "alive d" "cstate d \<noteq> Done" "input \<noteq> []" "outb \<noteq> []"
    and "decode d input outb = Some (d', outb', res, n)"
  shows "0 < n \<or> (\<exists>e. res = DecodeError e)"
proof -
  obtain d1 data where st: "steps d (take n input) = Some (d1, data)" and n: "n \<le> length input"
    and a: "answer_ok d1 d' (drop n input) (length data) (length outb) res"
    by (rule decode_call [OF assms(1,2,6)])
  show ?thesis
  proof (cases "n = 0")
    case True
    then have "d1 = d" "data = []" using st by auto
    then show ?thesis using a True assms(3,4,5) by (cases res) auto
  qed simp
qed

section \<open>Instances\<close>

text \<open>An executable caller: a list of window sizes and buffer sizes.\<close>

fun drive :: "ChunkedDecoder \<Rightarrow> bytes \<Rightarrow> bytes \<Rightarrow> (usize \<times> usize) list \<Rightarrow> (bytes \<times> Outcome) option" where
  "drive d s body [] = None"
| "drive d s body ((k, cap) # ps) =
     (case decode d (take k s) (replicate cap 0) of
        None \<Rightarrow> None
      | Some (d', outb', Data m, n) \<Rightarrow> drive d' (drop n s) (body @ take m outb') ps
      | Some (d', outb', NeedMore, n) \<Rightarrow>
          if drop n s = [] then Some (body, Exhausted) else drive d' (drop n s) body ps
      | Some (d', outb', DecodeDone, n) \<Rightarrow> Some (body, Complete (drop n s))
      | Some (d', outb', DecodeError e, n) \<Rightarrow> Some (body, Errored e))"

lemma drive_finished:
  "calls d0 stream d s body \<Longrightarrow> drive d s body ps = Some (b, oc) \<Longrightarrow> finished d0 stream b oc"
proof (induction d s body ps rule: drive.induct)
  case (2 d s body k cap ps)
  obtain d' outb' res n where dc: "decode d (take k s) (replicate cap 0) = Some (d', outb', res, n)"
    using 2(4) by (auto split: option.splits)
  show ?case
  proof (cases res)
    case (Data m)
    then show ?thesis using 2(1) [OF dc refl refl] 2(3,4) dc calls.data by fastforce
  next
    case NeedMore
    then show ?thesis using 2(2) [OF dc refl refl] 2(3,4) dc calls.more finished.exhausted
      by (fastforce split: if_splits)
  next
    case DecodeDone
    then show ?thesis using 2(3,4) dc finished.complete by fastforce
  next
    case (DecodeError e)
    then show ?thesis using 2(3,4) dc finished.errored by fastforce
  qed
qed simp

definition sample_stream :: bytes where
  "sample_stream = bs ''3'' @ CRLF @ bs ''abc'' @ CRLF @ bs ''0'' @ CRLF @ CRLF @ bs ''x''"

lemma sample_finished:
  "finished ChunkedDecoder_new sample_stream (bs ''abc'') (Complete (bs ''x''))"
proof (rule drive_finished [OF calls.start])
  show "drive ChunkedDecoder_new sample_stream [] [(20, 8), (20, 8)] = Some (bs ''abc'', Complete (bs ''x''))"
    by code_simp
qed

theorem chunked_split_independent_witness:
  "drive ChunkedDecoder_new sample_stream [] [(1, 1), (1, 1), (2, 1), (1, 1), (5, 1), (5, 2), (9, 1)]
     = Some (bs ''abc'', Complete (bs ''x''))"
proof -
  have "drive ChunkedDecoder_new sample_stream [] [(1, 1), (1, 1), (2, 1), (1, 1), (5, 1), (5, 2), (9, 1)] \<noteq> None"
    by code_simp
  then obtain b oc where d: "drive ChunkedDecoder_new sample_stream []
      [(1, 1), (1, 1), (2, 1), (1, 1), (5, 1), (5, 2), (9, 1)] = Some (b, oc)" by auto
  have "b = bs ''abc'' \<and> oc = Complete (bs ''x'')"
    by (rule chunked_split_independent [OF drive_finished [OF calls.start d] sample_finished])
  with d show ?thesis by simp
qed

theorem decode_refines_reference_witness:
  "\<exists>d' outb' res n d1 data. decode ChunkedDecoder_new sample_stream (replicate 2 0) = Some (d', outb', res, n)
    \<and> steps ChunkedDecoder_new (take n sample_stream) = Some (d1, data) \<and> take (length data) outb' = data"
  using decode_refines_reference [OF chunk_inv_new alive_new, of sample_stream "replicate 2 0"] by blast

theorem decode_progress_witness:
  "\<exists>d' outb' res n. decode ChunkedDecoder_new sample_stream (replicate 2 0) = Some (d', outb', res, n)
    \<and> (0 < n \<or> (\<exists>e. res = DecodeError e))"
proof -
  obtain d' outb' res n where d: "decode ChunkedDecoder_new sample_stream (replicate 2 0) = Some (d', outb', res, n)"
    using decode_refines_aux [OF chunk_inv_new alive_new, of sample_stream "replicate 2 0"] by metis
  moreover have "cstate ChunkedDecoder_new \<noteq> Done" "sample_stream \<noteq> []" "replicate 2 (0 :: u8) \<noteq> []"
    by (simp_all add: ChunkedDecoder_new_def sample_stream_def)
  ultimately show ?thesis using decode_progress [OF chunk_inv_new alive_new] by blast
qed

end
