(* ===== verification/Chunked_Bounds.thy ===== *)
theory Chunked_Bounds
  imports Chunked_Session
begin

text \<open>
  The metadata budgets of the chunked decoder as a potential: from every state the number of
  bytes the decoder accepts before it emits body data, ends or fails is bounded, so a peer
  cannot keep a caller occupied with sizes, extensions or trailers.
\<close>

section \<open>Metadata is bounded\<close>

text \<open>
  The most bytes the decoder accepts from a state before it must emit body data, end or fail.
  A trailer byte counts twice, for the uncharged LF its line may end with.
\<close>

definition trailer_room :: "ChunkedDecoder \<Rightarrow> nat" where
  "trailer_room d = 2 * (MAX_TRAILER_SECTION - trailer (metadata d))"

definition extension_room :: "ChunkedDecoder \<Rightarrow> nat" where
  "extension_room d = MAX_CHUNK_EXTENSION - extension (metadata d)"

definition digit_room :: "ChunkedDecoder \<Rightarrow> nat" where
  "digit_room d = MAX_CHUNK_SIZE_DIGITS - size_digits (metadata d)"

definition metadata_room :: "ChunkedDecoder \<Rightarrow> nat" where
  "metadata_room d =
     (case cstate d of
        ReadingSize \<Rightarrow> digit_room d + extension_room d + trailer_room d + 5
      | ReadingExtension \<Rightarrow> extension_room d + trailer_room d + 4
      | ReadingSizeLf \<Rightarrow> trailer_room d + 3
      | ReadingData \<Rightarrow> 0
      | ReadingDataCr \<Rightarrow> MAX_CHUNK_SIZE_DIGITS + MAX_CHUNK_EXTENSION + trailer_room d + 7
      | ReadingDataLf \<Rightarrow> MAX_CHUNK_SIZE_DIGITS + MAX_CHUNK_EXTENSION + trailer_room d + 6
      | ReadingTrailer \<Rightarrow> trailer_room d + 2
      | ReadingTrailerLf \<Rightarrow> if trailer_line_empty d then 1 else trailer_room d + 3
      | Done \<Rightarrow> 0
      | Failed e \<Rightarrow> 0)"

definition MAX_METADATA_ROOM :: nat where
  "MAX_METADATA_ROOM = MAX_CHUNK_SIZE_DIGITS + MAX_CHUNK_EXTENSION + 2 * MAX_TRAILER_SECTION + 7"

text \<open>At the start of a trailer line the line counts as empty.\<close>

definition trailer_inv :: "ChunkedDecoder \<Rightarrow> bool" where
  "trailer_inv d =
     (cstate d = ReadingTrailer \<and> trailer_phase d = FieldName \<and> trailer_name_len d = 0
      \<longrightarrow> trailer_line_empty d)"

lemmas room_defs = trailer_room_def extension_room_def digit_room_def

lemma metadata_room_max: "metadata_room d \<le> MAX_METADATA_ROOM"
  by (auto simp: metadata_room_def MAX_METADATA_ROOM_def room_defs split: ChunkedState.splits)

lemma extension_byte_room:
  assumes "extension_byte d b i = (d', None)" "cstate d = ReadingExtension"
  shows "metadata_room d' < extension_room d + trailer_room d + 4 \<and> trailer_inv d'"
proof -
  obtain d2 r where se: "step_extension d b = (d2, r)" by fastforce
  have same: "metadata d2 = metadata d" "cstate d2 = ReadingExtension"
    using se assms(2) by (auto simp: step_extension_def Let_def split: if_splits)
  show ?thesis
    using assms se same
    by (cases r)
      (auto simp: extension_byte_def advance_extension_def charge_extension_def Let_def metadata_room_def room_defs
        trailer_inv_def split: if_splits)
qed

lemma chunk_step_room:
  assumes "chunk_step d b = Next d' out" "trailer_inv d"
  shows "trailer_inv d' \<and>
    (out = [] \<and> metadata_room d' < metadata_room d \<or> length out = 1 \<and> metadata_room d = 0)"
proof -
  consider "cstate d = ReadingSize" | "cstate d = ReadingExtension" | "cstate d = ReadingSizeLf"
    | "cstate d = ReadingData" | "in_terminator d" | "cstate d = ReadingTrailer" | "cstate d = ReadingTrailerLf"
    using assms(1) by (auto simp: chunk_step_def in_size_def in_trailer_def split: if_splits)
  then show ?thesis
  proof cases
    case 1
    then have s: "loop_outcome (size_line_byte d b 0) = Next d' out"
      using assms by (simp add: chunk_step_def in_size_def)
    let ?d = "d\<lparr> cstate := ReadingExtension, ext_phase := AfterValue \<rparr>"
    show ?thesis
    proof (cases "HexDigit_decode b")
      case (Some g)
      then show ?thesis using 1 s
        by (auto simp: size_line_byte_def size_digit_byte_def charge_size_digit_def Let_def metadata_room_def
            room_defs trailer_inv_def split: if_splits option.splits)
    next
      case None
      have ext: "trailer_inv d' \<and> metadata_room d' < metadata_room d \<and> out = []"
        if "loop_outcome (extension_byte ?d b 0) = Next d' out"
        by (rule extension_byte_cases [of ?d b])
          (use that extension_byte_room [of ?d b 0] 1 in \<open>auto simp: metadata_room_def [of d] room_defs\<close>)
      show ?thesis
        using 1 s None ext
        by (auto simp: size_line_byte_def metadata_room_def room_defs trailer_inv_def split: if_splits)
    qed
  next
    case 2
    then have s: "loop_outcome (extension_byte d b 0) = Next d' out"
      using assms by (simp add: chunk_step_def in_size_def size_line_byte_def)
    show ?thesis
      by (rule extension_byte_cases [of d b])
        (use 2 s extension_byte_room [of d b 0] in \<open>auto simp: metadata_room_def [of d]\<close>)
  next
    case 3
    then show ?thesis using assms
      by (auto simp: chunk_step_def in_size_def size_line_byte_def metadata_room_def room_defs trailer_inv_def
          reset_extension_def split: if_splits)
  next
    case 4
    then show ?thesis using assms
      by (auto simp: chunk_step_def in_size_def data_byte_def metadata_room_def Let_def trailer_inv_def split: if_splits)
  next
    case 5
    then show ?thesis using assms
      by (auto simp: chunk_step_def in_size_def in_terminator_def data_terminator_byte_def metadata_room_def
          room_defs trailer_inv_def reset_extension_def reset_size_digits_def split: if_splits)
  next
    case 6
    then have "loop_outcome (trailer_byte d b 0) = Next d' out"
      using assms by (simp add: chunk_step_def in_size_def in_terminator_def in_trailer_def)
    then show ?thesis using 6 assms(2)
      by (auto simp: trailer_byte_def charge_trailer_def Let_def metadata_room_def room_defs trailer_inv_def
          split: if_splits)
  next
    case 7
    then have "loop_outcome (trailer_byte d b 0) = Next d' out"
      using assms by (simp add: chunk_step_def in_size_def in_terminator_def in_trailer_def)
    then show ?thesis using 7
      by (auto simp: trailer_byte_def metadata_room_def room_defs trailer_inv_def split: if_splits)
  qed
qed

lemma steps_room:
  "steps d xs = Some (d', out) \<Longrightarrow> trailer_inv d \<Longrightarrow>
   length xs + metadata_room d' \<le> metadata_room d + (MAX_METADATA_ROOM + 1) * length out"
proof (induction xs arbitrary: d out)
  case (Cons b xs)
  then obtain d2 o1 o2 where st: "chunk_step d b = Next d2 o1" "steps d2 xs = Some (d', o2)" "out = o1 @ o2"
    by (auto split: ByteOutcome.splits)
  note r = chunk_step_room [OF st(1) Cons.prems(2)]
  have ih: "length xs + metadata_room d' \<le> metadata_room d2 + (MAX_METADATA_ROOM + 1) * length o2"
    using Cons.IH [OF st(2)] r by simp
  have "metadata_room d2 \<le> MAX_METADATA_ROOM" by (rule metadata_room_max)
  with r ih st(3) show ?case by (auto simp: algebra_simps)
qed simp



end
