(* ===== verification/Url.thy ===== *)
theory Url
  imports Tokens
begin

text \<open>
  \<^verbatim>\<open>xibalba-proto/src/url.rs\<close>: the URL parser with its authority, IP-literal, port and path
  parts, the accessors of a parsed URL, and the iterator over query parameters.
  \<open>Url_Host\<close> and \<open>Url_Grammar\<close> hold the results on them.
\<close>

section \<open>Definitions\<close>

record Url =
  url_scheme :: Scheme
  url_host :: bytes
  url_port :: "u16 option"
  url_path :: bytes
  url_query :: "bytes option"
  url_fragment :: "bytes option"

definition invalid_byte :: "usize \<Rightarrow> Error" where
  "invalid_byte i = UrlParse (InvalidByte i)"

text \<open>The unreserved bytes other than alphanumerics, and the sub-delimiters.\<close>

definition is_unreserved_mark :: "u8 \<Rightarrow> bool" where
  "is_unreserved_mark b = (b \<in> {0x2D, 0x2E, 0x5F, 0x7E})"

definition is_sub_delim :: "u8 \<Rightarrow> bool" where
  "is_sub_delim b = (b \<in> {0x21, 0x24, 0x26, 0x27, 0x28, 0x29, 0x2A, 0x2B, 0x2C, 0x3B, 0x3D})"

definition is_zone_id_byte :: "u8 \<Rightarrow> bool" where
  "is_zone_id_byte b = (is_ascii_alphanumeric b \<or> is_unreserved_mark b)"

definition is_future_byte :: "u8 \<Rightarrow> bool" where
  "is_future_byte b = (is_ascii_alphanumeric b \<or> is_unreserved_mark b \<or> is_sub_delim b \<or> b = COLON)"

definition is_reg_name_byte :: "u8 \<Rightarrow> bool" where
  "is_reg_name_byte b = (is_ascii_alphanumeric b \<or> is_unreserved_mark b \<or> is_sub_delim b)"

definition is_host_byte :: "u8 \<Rightarrow> bool" where
  "is_host_byte b =
     (is_ascii_alphanumeric b \<or> is_unreserved_mark b \<or> b = PERCENT \<or> is_sub_delim b
      \<or> b = LBRACKET \<or> b = RBRACKET \<or> b = COLON)"

text \<open>\<^verbatim>\<open>bytes.get(i).is_some_and(u8::is_ascii_hexdigit)\<close>.\<close>

definition hex_at :: "bytes \<Rightarrow> usize \<Rightarrow> bool" where
  "hex_at bytes i = (i < length bytes \<and> is_ascii_hexdigit (bytes ! i))"

function pct_loop :: "(u8 \<Rightarrow> bool) \<Rightarrow> bytes \<Rightarrow> usize \<Rightarrow> Error + unit" where
  "pct_loop plain bytes i =
     (if i < length bytes then
        (let b = bytes ! i in
         if b = PERCENT then
           (if \<not> hex_at bytes (i + 1) \<or> \<not> hex_at bytes (i + 2) then Inl (invalid_byte i)
            else pct_loop plain bytes (i + 3))
         else if plain b then pct_loop plain bytes (i + 1)
         else Inl (invalid_byte i))
      else Inr ())"
  by pat_completeness auto
termination by (relation "measure (\<lambda>(plain, bytes, i). length bytes - i)") auto

declare pct_loop.simps [simp del]

definition validate_pct_encoded_unreserved :: "bytes \<Rightarrow> (u8 \<Rightarrow> bool) \<Rightarrow> Error + unit" where
  "validate_pct_encoded_unreserved bytes plain = pct_loop plain bytes 0"

definition validate_reg_name :: "bytes \<Rightarrow> Error + unit" where
  "validate_reg_name host = validate_pct_encoded_unreserved host is_reg_name_byte"

definition validate_zone_id :: "bytes \<Rightarrow> Error + unit" where
  "validate_zone_id zone =
     (if zone = [] then Inl (invalid_byte 1) else validate_pct_encoded_unreserved zone is_zone_id_byte)"

definition validate_ipvfuture :: "bytes \<Rightarrow> Error + unit" where
  "validate_ipvfuture inner =
     (case position (\<lambda>b. b = DOT) inner of
        None \<Rightarrow> Inl (invalid_byte 1)
      | Some dot \<Rightarrow>
          (let version = slice inner 1 dot; rest = drop (dot + 1) inner in
           if version = [] \<or> rest = [] \<or> \<not> list_all is_ascii_hexdigit version then Inl (invalid_byte 1)
           else if \<not> list_all is_future_byte rest then Inl (invalid_byte 1)
           else Inr ()))"

definition is_ipv4_octet :: "bytes \<Rightarrow> bool" where
  "is_ipv4_octet octet =
     (octet \<noteq> [] \<and> length octet \<le> 3 \<and> list_all is_ascii_digit octet
      \<and> (length octet = 1 \<or> octet ! 0 \<noteq> DIGIT0)
      \<and> foldl (\<lambda>acc b. acc * 10 + ucast (b - DIGIT0)) (0 :: u32) octet \<le> 255)"

definition is_ipv4_address :: "bytes \<Rightarrow> bool" where
  "is_ipv4_address bytes =
     (let octets = split_on (\<lambda>b. b = DOT) bytes in
      length octets = 4 \<and> list_all is_ipv4_octet octets)"

definition h16_groups :: "bytes \<Rightarrow> bool \<Rightarrow> Error + (bytes list \<times> bool)" where
  "h16_groups part allow_trailing_v4 =
     (if part = [] then Inr ([], False)
      else
        let raw_groups = split_on (\<lambda>b. b = COLON) part in
        if list_ex (\<lambda>g. g = []) raw_groups then Inl (invalid_byte 1)
        else
          let has_trailing_v4 = (allow_trailing_v4 \<and> raw_groups \<noteq> [] \<and> is_ipv4_address (last raw_groups));
              groups = (if has_trailing_v4 then take (length raw_groups - 1) raw_groups else raw_groups) in
          if list_ex (\<lambda>group. group = [] \<or> length group > 4 \<or> \<not> list_all is_ascii_hexdigit group) groups
          then Inl (invalid_byte 1)
          else Inr (groups, has_trailing_v4))"

definition split_h16_groups :: "bytes \<Rightarrow> Error + bytes list" where
  "split_h16_groups part = res_bind (h16_groups part False) (\<lambda>(groups, _). Inr groups)"

definition split_h16_groups_allowing_v4 :: "bytes \<Rightarrow> Error + (bytes list \<times> bool)" where
  "split_h16_groups_allowing_v4 part = h16_groups part True"

definition validate_ipv6_address :: "bytes \<Rightarrow> Error + unit" where
  "validate_ipv6_address address =
     (if address = [] then Inl (invalid_byte 1)
      else
        let double_colon = position (\<lambda>w. w = [COLON, COLON]) (windows 2 address) in
        if (case double_colon of None \<Rightarrow> False
            | Some first \<Rightarrow> list_ex (\<lambda>w. w = [COLON, COLON]) (windows 2 (drop (first + 2) address)))
        then Inl (invalid_byte 1)
        else
          let (left, right, elided) =
                (case double_colon of None \<Rightarrow> (address, [], False)
                 | Some pos \<Rightarrow> (take pos address, drop (pos + 2) address, True)) in
          res_bind (if elided then res_bind (split_h16_groups left) (\<lambda>groups. Inr (groups, False))
                    else split_h16_groups_allowing_v4 left) (\<lambda>(left_groups, left_has_embedded_v4).
          res_bind (split_h16_groups_allowing_v4 right) (\<lambda>(right_groups, right_has_embedded_v4).
            let left_weight = length left_groups + 2 * (if left_has_embedded_v4 then 1 else 0);
                right_weight = length right_groups + 2 * (if right_has_embedded_v4 then 1 else 0);
                total = left_weight + right_weight in
            if elided then (if total \<ge> 8 then Inl (invalid_byte 1) else Inr ())
            else if total \<noteq> 8 then Inl (invalid_byte 1)
            else Inr ())))"

definition validate_ip_literal :: "bytes \<Rightarrow> Error + unit" where
  "validate_ip_literal inner =
     (if inner = [] then Inl (invalid_byte 1)
      else if inner ! 0 = 0x76 \<or> inner ! 0 = 0x56 then validate_ipvfuture inner
      else
        let (address, zone) =
              (case position (\<lambda>w. w = bs ''%25'') (windows 3 inner) of
                 None \<Rightarrow> (inner, None)
               | Some pos \<Rightarrow> (take pos inner, Some (drop (pos + 3) inner))) in
        res_bind (validate_ipv6_address address) (\<lambda>_.
          case zone of None \<Rightarrow> Inr () | Some zone \<Rightarrow> validate_zone_id zone))"

fun parse_port_loop :: "bytes \<Rightarrow> u32 \<Rightarrow> Error + u16" where
  "parse_port_loop [] result = Inr (ucast result)"
| "parse_port_loop (b # bytes) result =
     (let digit = b - DIGIT0 in
      if digit > 9 then Inl (UrlParse InvalidPort)
      else
        let result = result * 10 + ucast digit in
        if result > 65535 then Inl (UrlParse InvalidPort)
        else parse_port_loop bytes result)"

definition parse_port :: "bytes \<Rightarrow> Error + u16" where
  "parse_port bytes = (if bytes = [] then Inl (UrlParse InvalidPort) else parse_port_loop bytes 0)"

definition parse_authority :: "bytes \<Rightarrow> Error + (bytes \<times> u16 option)" where
  "parse_authority authority =
     (if authority = [] then Inr ([], None)
      else case position (\<lambda>b. b = AT_SIGN) authority of
        Some at \<Rightarrow> Inl (invalid_byte at)
      | None \<Rightarrow>
          if authority ! 0 = LBRACKET then
            res_bind (ok_or (position (\<lambda>b. b = RBRACKET) authority) (invalid_byte 0)) (\<lambda>bracket_end.
              let host = take (bracket_end + 1) authority in
              res_bind (validate_ip_literal (slice authority 1 bracket_end)) (\<lambda>_.
                let after_bracket = drop (bracket_end + 1) authority in
                if after_bracket = [] then Inr (host, None)
                else if after_bracket ! 0 = COLON
                then res_bind (parse_port (drop 1 after_bracket)) (\<lambda>port. Inr (host, Some port))
                else Inl (invalid_byte (bracket_end + 1))))
          else
            (case rposition (\<lambda>b. b = COLON) authority of
               Some colon_pos \<Rightarrow>
                 (let host = take colon_pos authority in
                  res_bind (validate_reg_name host) (\<lambda>_.
                    res_bind (parse_port (drop (colon_pos + 1) authority)) (\<lambda>port. Inr (host, Some port))))
             | None \<Rightarrow> res_bind (validate_reg_name authority) (\<lambda>_. Inr (authority, None))))"

text \<open>\<open>split_first p xs\<close> is \<^verbatim>\<open>xs.iter().position(p).map_or((xs, None), |pos| (&xs[..pos], Some(&xs[pos + 1..])))\<close>.\<close>

definition split_first :: "(u8 \<Rightarrow> bool) \<Rightarrow> bytes \<Rightarrow> bytes \<times> bytes option" where
  "split_first p xs =
     (case position p xs of None \<Rightarrow> (xs, None) | Some pos \<Rightarrow> (take pos xs, Some (drop (pos + 1) xs)))"

definition parse_path_query_fragment :: "bytes \<Rightarrow> bytes \<times> bytes option \<times> bytes option" where
  "parse_path_query_fragment input =
     (if input = [] then ([], None, None)
      else
        let (before_fragment, fragment) = split_first (\<lambda>b. b = HASH) input;
            (path, query) = split_first (\<lambda>b. b = QUESTION) before_fragment in
        (path, query, fragment))"

definition Url_parse :: "bytes \<Rightarrow> Error + Url" where
  "Url_parse input =
     (if input = [] then Inl (UrlParse Empty)
      else
        res_bind (ok_or (find_subsequence input (bs ''://'')) (UrlParse InvalidScheme)) (\<lambda>sep_pos.
        res_bind (map_err UrlParse (scheme_try_from (take sep_pos input))) (\<lambda>scheme.
          let rest = drop (sep_pos + 3) input;
              authority_end = (case position (\<lambda>b. b = SLASH \<or> b = QUESTION \<or> b = HASH) rest of
                                 None \<Rightarrow> length rest | Some i \<Rightarrow> i);
              authority = take authority_end rest;
              after_authority = drop authority_end rest in
          res_bind (parse_authority authority) (\<lambda>(host, port).
            if host = [] then Inl (UrlParse MissingHost)
            else case position (\<lambda>b. \<not> is_host_byte b) host of
              Some bad \<Rightarrow> Inl (invalid_byte bad)
            | None \<Rightarrow>
                (let (path, query, fragment) = parse_path_query_fragment after_authority in
                 Inr \<lparr> url_scheme = scheme, url_host = host, url_port = port, url_path = path,
                       url_query = query, url_fragment = fragment \<rparr>)))))"

definition effective_port :: "Url \<Rightarrow> u16" where
  "effective_port self = (case url_port self of Some p \<Rightarrow> p | None \<Rightarrow> default_port (url_scheme self))"

definition connection_host :: "Url \<Rightarrow> bytes" where
  "connection_host self =
     (let host = url_host self in
      if host \<noteq> [] \<and> hd host = LBRACKET \<and> last host = RBRACKET then slice host 1 (length host - 1) else host)"

definition request_path :: "Url \<Rightarrow> bytes" where
  "request_path self = (if url_path self = [] then [SLASH] else url_path self)"

text \<open>\<^verbatim>\<open>QueryParams\<close>: the iterator's state and its \<^verbatim>\<open>next\<close>.\<close>

record QueryParams =
  qp_remaining :: bytes
  qp_done :: bool

definition query_params :: "Url \<Rightarrow> QueryParams" where
  "query_params self =
     \<lparr> qp_remaining = (case url_query self of None \<Rightarrow> [] | Some q \<Rightarrow> q),
       qp_done = (url_query self = None) \<rparr>"

definition qp_next :: "QueryParams \<Rightarrow> (bytes \<times> bytes option) option \<times> QueryParams" where
  "qp_next self =
     (if qp_done self then (None, self)
      else
        let (pair, rest, done') =
              (case position (\<lambda>b. b = AMPERSAND) (qp_remaining self) of
                 Some pos \<Rightarrow> (take pos (qp_remaining self), drop (pos + 1) (qp_remaining self), False)
               | None \<Rightarrow> (qp_remaining self, [], True));
            self' = \<lparr> qp_remaining = rest, qp_done = done' \<rparr> in
        if pair = [] \<and> done' then (None, self')
        else (Some (split_first (\<lambda>b. b = EQUALS) pair), self'))"

end
