(* ===== verification/Io_World.thy ===== *)
theory Io_World
  imports Url
begin

text \<open>
  The outside of the client: \<^verbatim>\<open>std::io::Error\<close>, and the environment a client runs in, which is a
  parameter of every operation that performs I/O. An environment is a record of functions on
  a world: reading, writing and flushing the connection's stream, connecting
  (\<^verbatim>\<open>Connector::connect\<close>), setting socket timeouts, reading the clock (\<^verbatim>\<open>Instant::now\<close>), sleeping,
  asking an interrupt, the rendering of a duration in a message, and the
  address of the client's head buffer. Instants and durations are nanoseconds.

  The locales state what the standard library documents of these: \<open>clocked\<close> that time does not
  run backwards, \<open>byte_source\<close> what a \<^verbatim>\<open>Read\<close> promises, \<open>byte_drain\<close> what a \<^verbatim>\<open>Write\<close> promises.
  From the source, \<^verbatim>\<open>xibalba-client/src/interrupt.rs\<close> and \<^verbatim>\<open>tick.rs\<close> are modelled here.
\<close>

section \<open>I/O errors\<close>

text \<open>
  The payload of a \<^verbatim>\<open>std::io::Error\<close>: a message, or one of the two private marker types of the
  client (\<^verbatim>\<open>RequestDeadlineExceeded\<close> and \<^verbatim>\<open>Cancelled\<close>).
\<close>

datatype io_payload = Message string | DeadlineMark | CancelMark

record io_error =
  io_kind :: ErrorKind
  io_payload :: io_payload

definition io_display :: "io_error \<Rightarrow> string" where
  "io_display e = (case io_payload e of Message m \<Rightarrow> m
     | DeadlineMark \<Rightarrow> ''request deadline exceeded'' | CancelMark \<Rightarrow> ''request cancelled'')"

text \<open>\<^verbatim>\<open>From<std::io::Error> for Error\<close>.\<close>

definition error_from_io :: "io_error \<Rightarrow> Error" where
  "error_from_io e = Io \<lparr> kind = io_kind e, message = io_display e \<rparr>"

definition io_err :: "ErrorKind \<Rightarrow> string \<Rightarrow> io_error" where
  "io_err k m = \<lparr> io_kind = k, io_payload = Message m \<rparr>"

section \<open>The environment\<close>

type_synonym instant = nat
type_synonym duration = nat

record 'w env =
  rd :: "'w \<Rightarrow> usize \<Rightarrow> (io_error + bytes) \<times> 'w"
  wr :: "'w \<Rightarrow> bytes \<Rightarrow> (io_error + usize) \<times> 'w"
  fl :: "'w \<Rightarrow> (io_error + unit) \<times> 'w"
  clock :: "'w \<Rightarrow> instant \<times> 'w"
  sleep :: "'w \<Rightarrow> duration \<Rightarrow> 'w"
  intr :: "'w \<Rightarrow> bool \<times> 'w"
  dial :: "'w \<Rightarrow> Url \<Rightarrow> instant option \<Rightarrow> (Error + unit) \<times> 'w"
  set_read_timeout :: "'w \<Rightarrow> duration option \<Rightarrow> (io_error + unit) \<times> 'w"
  set_write_timeout :: "'w \<Rightarrow> duration option \<Rightarrow> (io_error + unit) \<times> 'w"
  instant_max :: instant
  fmt_duration :: "duration \<Rightarrow> string"
  buf_addr :: usize

text \<open>\<^verbatim>\<open>Instant::checked_add\<close>, whose range is the platform's.\<close>

definition instant_add :: "'w env \<Rightarrow> instant \<Rightarrow> duration \<Rightarrow> instant option" where
  "instant_add E t d = (if t + d \<le> instant_max E then Some (t + d) else None)"

section \<open>Ticks: \<open>tick.rs\<close>\<close>

definition TICK_MIN :: duration where
  "TICK_MIN = 1000000"

definition Tick_marks :: "io_error \<Rightarrow> bool" where
  "Tick_marks e = (io_kind e = WouldBlock \<or> io_kind e = TimedOut)"

definition Tick_pace :: "'w env \<Rightarrow> instant \<Rightarrow> 'w \<Rightarrow> 'w" where
  "Tick_pace E started w =
     (let (t, w) = clock E w; elapsed = t - started in
      if elapsed \<le> TICK_MIN then sleep E w (TICK_MIN - elapsed) else w)"

section \<open>Interrupts: \<open>interrupt.rs\<close>\<close>

definition Cancelled_error :: io_error where
  "Cancelled_error = \<lparr> io_kind = OtherKind ''other error'', io_payload = CancelMark \<rparr>"

definition Cancelled_marks :: "io_error \<Rightarrow> bool" where
  "Cancelled_marks e = (io_payload e = CancelMark)"

text \<open>An interrupt as a state with its \<^verbatim>\<open>is_cancelled\<close>; \<^verbatim>\<open>Latch\<close> wraps one.\<close>

record 'i Latch =
  latch_inner :: 'i
  latch_fired :: bool

definition Latch_new :: "'i \<Rightarrow> 'i Latch" where
  "Latch_new inner = \<lparr> latch_inner = inner, latch_fired = False \<rparr>"

definition Latch_is_cancelled :: "('i \<Rightarrow> bool \<times> 'i) \<Rightarrow> 'i Latch \<Rightarrow> bool \<times> 'i Latch" where
  "Latch_is_cancelled is_cancelled self =
     (let (c, inner) = is_cancelled (latch_inner self); fired = latch_fired self \<or> c in
      (fired, \<lparr> latch_inner = inner, latch_fired = fired \<rparr>))"

definition NeverCancelled :: "'w \<Rightarrow> bool \<times> 'w" where
  "NeverCancelled w = (False, w)"

definition intr_read :: "'w env \<Rightarrow> 'w \<Rightarrow> usize \<Rightarrow> (io_error + bytes) \<times> 'w" where
  "intr_read E w n = (let (c, w) = intr E w in if c then (Inl Cancelled_error, w) else rd E w n)"

definition intr_write :: "'w env \<Rightarrow> 'w \<Rightarrow> bytes \<Rightarrow> (io_error + usize) \<times> 'w" where
  "intr_write E w data = (let (c, w) = intr E w in if c then (Inl Cancelled_error, w) else wr E w data)"

definition intr_flush :: "'w env \<Rightarrow> 'w \<Rightarrow> (io_error + unit) \<times> 'w" where
  "intr_flush E w = (let (c, w) = intr E w in if c then (Inl Cancelled_error, w) else fl E w)"

text \<open>\<^verbatim>\<open>InterruptibleStream::new(&mut stream, interrupt)\<close> in place of the stream.\<close>

definition interruptible :: "'w env \<Rightarrow> 'w env" where
  "interruptible E = E\<lparr> rd := intr_read E, wr := intr_write E, fl := intr_flush E \<rparr>"

section \<open>What the environment promises\<close>

text \<open>\<open>T w\<close> is the time at \<open>w\<close>; no operation goes back in it.\<close>

locale clocked =
  fixes E :: "'w env" and T :: "'w \<Rightarrow> instant"
  assumes clock_time: "clock E w = (t, w1) \<Longrightarrow> T w \<le> t \<and> t \<le> T w1"
    and sleep_time: "T w + d \<le> T (sleep E w d)"
    and rd_time: "rd E w n = (r, w1) \<Longrightarrow> T w \<le> T w1"
    and wr_time: "wr E w x = (s, w1) \<Longrightarrow> T w \<le> T w1"
    and fl_time: "fl E w = (u, w1) \<Longrightarrow> T w \<le> T w1"
    and intr_time: "intr E w = (c, w1) \<Longrightarrow> T w \<le> T w1"
begin

lemma pace_time:
  assumes "T w \<ge> started"
  shows "started + TICK_MIN \<le> T (Tick_pace E started w)"
proof -
  obtain t w1 where c: "clock E w = (t, w1)" by (cases "clock E w")
  from clock_time [OF c] assms have t: "started \<le> t" "t \<le> T w1" by simp_all
  show ?thesis
  proof (cases "t - started \<le> TICK_MIN")
    case True
    have "T w1 + (TICK_MIN - (t - started)) \<le> T (sleep E w1 (TICK_MIN - (t - started)))" by (rule sleep_time)
    with t True show ?thesis by (simp add: Tick_pace_def c)
  next
    case False
    with t show ?thesis by (simp add: Tick_pace_def c)
  qed
qed

end

text \<open>
  What \<^verbatim>\<open>Read::read\<close> promises: at most as many bytes as the buffer holds, in the order of the
  stream; \<^verbatim>\<open>Ok(0)\<close> for a non-empty buffer only at the end of the stream; an error consumes
  nothing. \<open>incoming w\<close> is what is left of the stream at \<open>w\<close>.
\<close>

locale byte_source =
  fixes rd_fn :: "'w \<Rightarrow> usize \<Rightarrow> (io_error + bytes) \<times> 'w" and incoming :: "'w \<Rightarrow> bytes"
  assumes source_data: "rd_fn w n = (Inr d, w1) \<Longrightarrow> length d \<le> n \<and> incoming w = d @ incoming w1"
    and source_eof: "rd_fn w n = (Inr [], w1) \<Longrightarrow> 0 < n \<Longrightarrow> incoming w = []"
    and source_err: "rd_fn w n = (Inl e, w1) \<Longrightarrow> incoming w1 = incoming w"

text \<open>
  What \<^verbatim>\<open>Write::write\<close> promises: an accepted count is of bytes of the buffer, which follow what
  was accepted before. \<open>outgoing w\<close> is what the stream has accepted.
\<close>

locale byte_drain =
  fixes wr_fn :: "'w \<Rightarrow> bytes \<Rightarrow> (io_error + usize) \<times> 'w" and outgoing :: "'w \<Rightarrow> bytes"
  assumes drain_data: "wr_fn w x = (Inr n, w1) \<Longrightarrow> n \<le> length x \<and> outgoing w1 = outgoing w @ take n x"
    and drain_err: "wr_fn w x = (Inl e, w1) \<Longrightarrow> outgoing w1 = outgoing w"

text \<open>The connection: both directions and the clock, which moves no bytes.\<close>

locale connection = clocked E T + src: byte_source "rd E" incoming + drn: byte_drain "wr E" outgoing
  for E :: "'w env" and T incoming outgoing +
  assumes clock_still: "clock E w = (t, w1) \<Longrightarrow> incoming w1 = incoming w \<and> outgoing w1 = outgoing w"
    and sleep_still: "incoming (sleep E w d) = incoming w \<and> outgoing (sleep E w d) = outgoing w"
    and intr_still: "intr E w = (c, w1) \<Longrightarrow> incoming w1 = incoming w \<and> outgoing w1 = outgoing w"
    and rd_out: "rd E w n = (r, w1) \<Longrightarrow> outgoing w1 = outgoing w"
begin

lemma pace_still: "incoming (Tick_pace E started w) = incoming w \<and> outgoing (Tick_pace E started w) = outgoing w"
proof -
  obtain t w1 where c: "clock E w = (t, w1)" by (cases "clock E w")
  show ?thesis using clock_still [OF c] sleep_still [of w1] by (simp add: Tick_pace_def c Let_def)
qed

lemma interruptible_connection: "connection (interruptible E) T incoming outgoing"
proof unfold_locales
  fix w w1 :: 'w and n d r e and x :: bytes and m
  obtain c w0 where i: "intr E w = (c, w0)" by (cases "intr E w")
  note it = intr_time [OF i] and still = intr_still [OF i]
  have r: "rd (interruptible E) w n = (if c then (Inl Cancelled_error, w0) else rd E w0 n)" for n
    by (simp add: interruptible_def intr_read_def i)
  have wr: "wr (interruptible E) w x = (if c then (Inl Cancelled_error, w0) else wr E w0 x)" for x
    by (simp add: interruptible_def intr_write_def i)
  have fl: "fl (interruptible E) w = (if c then (Inl Cancelled_error, w0) else fl E w0)"
    by (simp add: interruptible_def intr_flush_def i)
  show "rd (interruptible E) w n = (r, w1) \<Longrightarrow> T w \<le> T w1" for r
    using it rd_time [of w0 n r w1] unfolding r by (auto split: if_splits)
  show "wr (interruptible E) w x = (s, w1) \<Longrightarrow> T w \<le> T w1" for s
    using it wr_time [of w0 x s w1] unfolding wr by (auto split: if_splits)
  show "fl (interruptible E) w = (u, w1) \<Longrightarrow> T w \<le> T w1" for u
    using it fl_time [of w0 u w1] unfolding fl by (auto split: if_splits)
  show "rd (interruptible E) w n = (Inr d, w1) \<Longrightarrow> length d \<le> n \<and> incoming w = d @ incoming w1"
    using still src.source_data [of w0 n d w1] unfolding r by (auto split: if_splits)
  show "rd (interruptible E) w n = (Inr [], w1) \<Longrightarrow> 0 < n \<Longrightarrow> incoming w = []"
    using still src.source_eof [of w0 n w1] unfolding r by (auto split: if_splits)
  show "rd (interruptible E) w n = (Inl e, w1) \<Longrightarrow> incoming w1 = incoming w"
    using still src.source_err [of w0 n e w1] unfolding r by (auto split: if_splits)
  show "wr (interruptible E) w x = (Inr m, w1) \<Longrightarrow> m \<le> length x \<and> outgoing w1 = outgoing w @ take m x"
    using still drn.drain_data [of w0 x m w1] unfolding wr by (auto split: if_splits)
  show "wr (interruptible E) w x = (Inl e, w1) \<Longrightarrow> outgoing w1 = outgoing w"
    using still drn.drain_err [of w0 x e w1] unfolding wr by (auto split: if_splits)
  show "rd (interruptible E) w n = (r, w1) \<Longrightarrow> outgoing w1 = outgoing w" for r
    using still rd_out [of w0 n r w1] unfolding r by (auto split: if_splits)
qed (auto simp: interruptible_def sleep_still dest: clock_time intr_time clock_still intr_still intro: sleep_time)

end

section \<open>A scripted world\<close>

text \<open>
  A world in which the peer follows a script: bytes that arrive, or errors, each after a delay.
  Writes are accepted up to a limit per call and recorded, connections succeed and are
  recorded with the script they open. It shows that the promises can hold together, and is
  what the examples run in.
\<close>

datatype sevent = Arrive duration u8 bytes | Fail duration io_error

record sworld =
  sw_now :: instant
  sw_script :: "sevent list"
  sw_next :: "sevent list list"
  sw_sent :: bytes
  sw_dialled :: "Url list"

fun event_bytes :: "sevent \<Rightarrow> bytes" where
  "event_bytes (Arrive d b x) = b # x"
| "event_bytes (Fail d e) = []"

definition sw_incoming :: "sworld \<Rightarrow> bytes" where
  "sw_incoming w = concat (map event_bytes (sw_script w))"

fun arrive_rest :: "bytes \<Rightarrow> sevent list \<Rightarrow> sevent list" where
  "arrive_rest [] es = es"
| "arrive_rest (b # x) es = Arrive 0 b x # es"

definition sw_rd :: "sworld \<Rightarrow> usize \<Rightarrow> (io_error + bytes) \<times> sworld" where
  "sw_rd w n =
     (if n = 0 then (Inr [], w)
      else case sw_script w of
        [] \<Rightarrow> (Inr [], w)
      | Arrive d b x # es \<Rightarrow>
          (Inr (take n (b # x)),
           w\<lparr> sw_now := sw_now w + d, sw_script := arrive_rest (drop n (b # x)) es \<rparr>)
      | Fail d e # es \<Rightarrow> (Inl e, w\<lparr> sw_now := sw_now w + d, sw_script := es \<rparr>))"

definition scripted :: "sworld env" where
  "scripted =
     \<lparr> rd = sw_rd,
       wr = (\<lambda>w x. (Inr (min 16 (length x)), w\<lparr> sw_sent := sw_sent w @ take 16 x \<rparr>)),
       fl = (\<lambda>w. (Inr (), w)),
       clock = (\<lambda>w. (sw_now w, w)),
       sleep = (\<lambda>w d. w\<lparr> sw_now := sw_now w + d \<rparr>),
       intr = (\<lambda>w. (False, w)),
       dial = (\<lambda>w u d. (Inr (), w\<lparr> sw_script := (case sw_next w of [] \<Rightarrow> [] | s # _ \<Rightarrow> s),
                                  sw_next := tl (sw_next w), sw_dialled := sw_dialled w @ [u] \<rparr>)),
       set_read_timeout = (\<lambda>w d. (Inr (), w)),
       set_write_timeout = (\<lambda>w d. (Inr (), w)),
       instant_max = 1000000000000,
       fmt_duration = (\<lambda>d. usize_str (d div 1000000000) @ ''s''),
       buf_addr = 4096 \<rparr>"

lemma arrive_rest_bytes [simp]: "concat (map event_bytes (arrive_rest x es)) = x @ concat (map event_bytes es)"
  by (cases x) simp_all

interpretation scripted_connection: connection scripted sw_now sw_incoming sw_sent
proof unfold_locales
  fix w n d and w1 :: sworld and e
  show "rd scripted w n = (Inr d, w1) \<Longrightarrow> length d \<le> n \<and> sw_incoming w = d @ sw_incoming w1"
    by (auto simp: scripted_def sw_rd_def sw_incoming_def split: if_splits list.splits sevent.splits)
  show "rd scripted w n = (Inr [], w1) \<Longrightarrow> 0 < n \<Longrightarrow> sw_incoming w = []"
    by (auto simp: scripted_def sw_rd_def sw_incoming_def split: if_splits list.splits sevent.splits)
  show "rd scripted w n = (Inl e, w1) \<Longrightarrow> sw_incoming w1 = sw_incoming w"
    by (auto simp: scripted_def sw_rd_def sw_incoming_def split: if_splits list.splits sevent.splits)
  show "rd scripted w n = (r, w1) \<Longrightarrow> sw_now w \<le> sw_now w1" for r
    by (auto simp: scripted_def sw_rd_def split: if_splits list.splits sevent.splits)
  show "rd scripted w n = (r, w1) \<Longrightarrow> sw_sent w1 = sw_sent w" for r
    by (auto simp: scripted_def sw_rd_def split: if_splits list.splits sevent.splits)
qed (auto simp: scripted_def sw_incoming_def min_def)

end
