(* ===== verification/Delivery.thy ===== *)
theory Delivery
  imports Io_World
begin

text \<open>
  \<^verbatim>\<open>xibalba-client/src/delivery.rs\<close> and the data that travels between the caller and the reader
  thread (\<^verbatim>\<open>Chunk\<close> of \<^verbatim>\<open>async_client.rs\<close>, \<^verbatim>\<open>AsyncRequest\<close> and \<^verbatim>\<open>Control\<close> of \<^verbatim>\<open>control.rs\<close>).
  The rings are those of the package \<^verbatim>\<open>quetzalcoatl\<close>: their operations, the loads and stores of
  the shared flags and the drop of a request are operations of the environment, since what
  they give depends on the other threads. What belongs to one request (its chunk ring, its flags
  and its permit) is named by the request's ticket.
\<close>

section \<open>What travels\<close>

type_synonym ticket = u64
type_synonym header_list = "(bytes \<times> bytes) list"

datatype Chunk = HeadChunk u16 header_list | BodyChunk bytes | Eof | ErrorChunk Error | Aborted

record AsyncRequest =
  ar_method :: Method
  ar_path :: bytes
  ar_query :: "bytes option"
  ar_body :: "bytes option"
  ar_headers :: header_list
  ar_ticket :: ticket

datatype Control = CRequest AsyncRequest | CCancel ticket

record 'w aenv =
  net :: "'w env"
  ctl_pop :: "'w \<Rightarrow> Control option \<times> 'w"
  ctl_pop_block :: "'w \<Rightarrow> Control option \<times> 'w"
  chunk_push :: "ticket \<Rightarrow> 'w \<Rightarrow> Chunk \<Rightarrow> bool \<times> 'w"
  load_shutting_down :: "'w \<Rightarrow> bool \<times> 'w"
  load_cancel_any :: "'w \<Rightarrow> bool \<times> 'w"
  store_cancel_any :: "'w \<Rightarrow> bool \<Rightarrow> 'w"
  load_consumer_alive :: "ticket \<Rightarrow> 'w \<Rightarrow> bool \<times> 'w"
  load_cancelled :: "ticket \<Rightarrow> 'w \<Rightarrow> bool \<times> 'w"
  store_started :: "ticket \<Rightarrow> 'w \<Rightarrow> 'w"
  yield_now :: "'w \<Rightarrow> 'w"
  drop_request :: "ticket \<Rightarrow> 'w \<Rightarrow> 'w"

section \<open>The sink\<close>

definition SPIN_LIMIT :: nat where "SPIN_LIMIT = 128"
definition FULL_RING_POLL :: duration where "FULL_RING_POLL = 1000000"

datatype Undelivered = ConsumerGone | ShuttingDown

text \<open>A \<^verbatim>\<open>ChunkSink\<close> is the ticket whose ring and flags it borrows.\<close>

definition blocked_reason :: "'w aenv \<Rightarrow> ticket \<Rightarrow> bool \<Rightarrow> 'w \<Rightarrow> Undelivered option \<times> 'w" where
  "blocked_reason A self observe_cancel w =
     (let (down, w) = load_shutting_down A w in
      if down then (Some ShuttingDown, w)
      else
        let (stop, w) =
          (if observe_cancel then
             (let (c, w) = load_cancelled A self w in if c then (True, w) else load_cancel_any A w)
           else (False, w)) in
        if stop then (Some ConsumerGone, w)
        else
          let (alive, w) = load_consumer_alive A self w in
          (if \<not> alive then Some ConsumerGone else None, w))"

partial_function (option) send_inner ::
  "'w aenv \<Rightarrow> ticket \<Rightarrow> Chunk \<Rightarrow> bool \<Rightarrow> nat \<Rightarrow> 'w \<Rightarrow> ((Undelivered + unit) \<times> 'w) option" where
  "send_inner A self pending observe_cancel spins w =
     (let (reason, w) = blocked_reason A self observe_cancel w in
      case reason of
        Some u \<Rightarrow> Some (Inl u, w)
      | None \<Rightarrow>
          (let (ok, w) = chunk_push A self w pending in
           if ok then Some (Inr (), w)
           else if spins < SPIN_LIMIT then send_inner A self pending observe_cancel (spins + 1) (yield_now A w)
           else send_inner A self pending observe_cancel spins (sleep (net A) w FULL_RING_POLL)))"

definition sink_send :: "'w aenv \<Rightarrow> ticket \<Rightarrow> Chunk \<Rightarrow> 'w \<Rightarrow> ((Undelivered + unit) \<times> 'w) option" where
  "sink_send A self chunk w = send_inner A self chunk True 0 w"

definition send_terminal :: "'w aenv \<Rightarrow> ticket \<Rightarrow> Chunk \<Rightarrow> 'w \<Rightarrow> 'w option" where
  "send_terminal A self chunk w = map_option snd (send_inner A self chunk False 0 w)"

section \<open>What a sink delivers\<close>

text \<open>
  What is relied on of the other threads. \<open>delivered w t\<close> is what has been pushed to the chunk ring
  of \<open>t\<close>, \<open>taken w\<close> what has been popped from the control ring; only the reader thread does either.
  \<open>stock w\<close> bounds the messages that the control ring will still give, and \<open>patience w t\<close> the pushes
  that can still fail before the caller reads from the ring of \<open>t\<close>, drops its handle or shuts the
  client down: callers stop submitting at some time, and none waits for ever on a ring it does
  not read. Neither the rings nor the flags move bytes of the connection or turn the clock back.
\<close>

definition calm ::
  "('w \<Rightarrow> instant) \<Rightarrow> ('w \<Rightarrow> bytes) \<Rightarrow> ('w \<Rightarrow> bytes) \<Rightarrow> ('w \<Rightarrow> ticket \<Rightarrow> Chunk list) \<Rightarrow> ('w \<Rightarrow> Control list) \<Rightarrow> ('w \<Rightarrow> nat)
   \<Rightarrow> 'w \<Rightarrow> 'w \<Rightarrow> bool" where
  "calm T inc out del tak spl w w1 \<longleftrightarrow> T w \<le> T w1 \<and> inc w1 = inc w \<and> out w1 = out w \<and> del w1 = del w
     \<and> tak w1 = tak w \<and> spl w1 \<le> spl w"

lemma calm_refl [simp]: "calm T inc out del tak spl w w"
  by (simp add: calm_def)

lemma calm_trans [trans]: "calm T inc out del tak spl w w1 \<Longrightarrow> calm T inc out del tak spl w1 w2 \<Longrightarrow> calm T inc out del tak spl w w2"
  by (auto simp: calm_def)

locale rings =
  fixes A :: "'w aenv" and T :: "'w \<Rightarrow> instant" and incoming outgoing :: "'w \<Rightarrow> bytes"
    and delivered :: "'w \<Rightarrow> ticket \<Rightarrow> Chunk list" and taken :: "'w \<Rightarrow> Control list"
    and stock :: "'w \<Rightarrow> nat" and patience :: "'w \<Rightarrow> ticket \<Rightarrow> nat"
  assumes loads:
      "load_shutting_down A w = (b, w1) \<Longrightarrow> calm T incoming outgoing delivered taken stock w w1 \<and> patience w1 t \<le> patience w t"
      "load_cancel_any A w = (b, w1) \<Longrightarrow> calm T incoming outgoing delivered taken stock w w1 \<and> patience w1 t \<le> patience w t"
      "load_consumer_alive A k w = (b, w1) \<Longrightarrow> calm T incoming outgoing delivered taken stock w w1 \<and> patience w1 t \<le> patience w t"
      "load_cancelled A k w = (b, w1) \<Longrightarrow> calm T incoming outgoing delivered taken stock w w1 \<and> patience w1 t \<le> patience w t"
    and waits:
      "calm T incoming outgoing delivered taken stock w (yield_now A w)" "patience (yield_now A w) t \<le> patience w t"
      "calm T incoming outgoing delivered taken stock w (sleep (net A) w d)" "patience (sleep (net A) w d) t \<le> patience w t"
    and stores:
      "calm T incoming outgoing delivered taken stock w (store_cancel_any A w b)"
      "calm T incoming outgoing delivered taken stock w (store_started A t w)"
      "calm T incoming outgoing delivered taken stock w (drop_request A t w)"
    and push_full: "chunk_push A t w c = (False, w1) \<Longrightarrow>
      calm T incoming outgoing delivered taken stock w w1 \<and> patience w1 t < patience w t"
    and push_done: "chunk_push A t w c = (True, w1) \<Longrightarrow>
      T w \<le> T w1 \<and> incoming w1 = incoming w \<and> outgoing w1 = outgoing w \<and> taken w1 = taken w \<and> stock w1 \<le> stock w
      \<and> delivered w1 = (delivered w)(t := delivered w t @ [c])"
    and pop_empty: "ctl_pop A w = (None, w1) \<Longrightarrow> calm T incoming outgoing delivered taken stock w w1"
      "ctl_pop_block A w = (None, w1) \<Longrightarrow> calm T incoming outgoing delivered taken stock w w1"
    and pop_msg:
      "ctl_pop A w = (Some m, w1) \<Longrightarrow>
       T w \<le> T w1 \<and> incoming w1 = incoming w \<and> outgoing w1 = outgoing w \<and> delivered w1 = delivered w
       \<and> taken w1 = taken w @ [m] \<and> stock w1 < stock w"
      "ctl_pop_block A w = (Some m, w1) \<Longrightarrow>
       T w \<le> T w1 \<and> incoming w1 = incoming w \<and> outgoing w1 = outgoing w \<and> delivered w1 = delivered w
       \<and> taken w1 = taken w @ [m] \<and> stock w1 < stock w"
begin

abbreviation quiet :: "'w \<Rightarrow> 'w \<Rightarrow> bool" where
  "quiet \<equiv> calm T incoming outgoing delivered taken stock"

lemma blocked_reason_quiet:
  assumes "blocked_reason A t obs w = (r, w1)"
  shows "quiet w w1 \<and> patience w1 t \<le> patience w t"
proof -
  obtain d w2 where d: "load_shutting_down A w = (d, w2)" by (cases "load_shutting_down A w")
  obtain c w3 where c: "load_cancelled A t w2 = (c, w3)" by (cases "load_cancelled A t w2")
  obtain a w4 where a: "load_cancel_any A w3 = (a, w4)" by (cases "load_cancel_any A w3")
  have q: "quiet w w2 \<and> patience w2 t \<le> patience w t" "quiet w w3 \<and> patience w3 t \<le> patience w t"
      "quiet w w4 \<and> patience w4 t \<le> patience w t"
    using loads(1) [OF d, of t] loads(4) [OF c, of t] loads(2) [OF a, of t] by (auto intro: calm_trans)
  have alive: "quiet w v1 \<and> patience v1 t \<le> patience w t"
    if "load_consumer_alive A t v = (x, v1)" "quiet w v \<and> patience v t \<le> patience w t" for v x v1
    using that(2) loads(3) [OF that(1), of t] by (auto intro: calm_trans)
  show ?thesis using assms q alive
    by (auto simp: blocked_reason_def d c a split: if_splits prod.splits)
qed

text \<open>A send returns; it pushes its chunk exactly if it succeeds.\<close>

definition sent :: "ticket \<Rightarrow> Chunk \<Rightarrow> 'w \<Rightarrow> (Undelivered + unit) \<Rightarrow> 'w \<Rightarrow> bool" where
  "sent t c w r w1 \<longleftrightarrow> T w \<le> T w1 \<and> incoming w1 = incoming w \<and> outgoing w1 = outgoing w \<and> taken w1 = taken w
     \<and> stock w1 \<le> stock w
     \<and> delivered w1 = (case r of Inr _ \<Rightarrow> (delivered w)(t := delivered w t @ [c]) | Inl _ \<Rightarrow> delivered w)"

lemma sent_after: "quiet w w1 \<Longrightarrow> sent t c w1 r w2 \<Longrightarrow> sent t c w r w2"
  by (cases r) (auto simp: sent_def calm_def)

lemma send_inner_returns:
  "patience w t = n \<Longrightarrow> \<exists>r w1. send_inner A t c obs spins w = Some (r, w1) \<and> sent t c w r w1"
proof (induction n arbitrary: w spins rule: less_induct)
  case (less n)
  obtain b w1 where b: "blocked_reason A t obs w = (b, w1)" by (cases "blocked_reason A t obs w")
  obtain ok w2 where p: "chunk_push A t w1 c = (ok, w2)" by (cases "chunk_push A t w1 c")
  note q = blocked_reason_quiet [OF b]
  show ?case
  proof (cases b)
    case (Some u)
    then have "send_inner A t c obs spins w = Some (Inl u, w1)" by (subst send_inner.simps) (simp add: b)
    then show ?thesis using q by (auto simp: sent_def calm_def)
  next
    case None
    show ?thesis
    proof (cases ok)
      case True
      then have "send_inner A t c obs spins w = Some (Inr (), w2)" using None by (subst send_inner.simps) (simp add: b p)
      then show ?thesis using q push_done [of t w1 c w2] p True by (auto simp: sent_def calm_def)
    next
      case False
      define w3 where "w3 = (if spins < SPIN_LIMIT then yield_now A w2 else sleep (net A) w2 FULL_RING_POLL)"
      have "send_inner A t c obs spins w = send_inner A t c obs (if spins < SPIN_LIMIT then spins + 1 else spins) w3"
        using None False by (subst send_inner.simps) (simp add: b p w3_def)
      moreover have "quiet w2 w3 \<and> patience w3 t \<le> patience w2 t"
        using waits(1,2) [of w2] waits(3,4) [of w2 FULL_RING_POLL] by (simp add: w3_def)
      then have "quiet w w3" "patience w3 t < n"
        using q push_full [of t w1 c w2] p False less.prems by (auto intro: calm_trans)
      ultimately show ?thesis using less.IH [of "patience w3 t" w3] sent_after by (metis (no_types, lifting))
    qed
  qed
qed

lemma sink_send_returns: "\<exists>r w1. sink_send A t c w = Some (r, w1) \<and> sent t c w r w1"
  using send_inner_returns [OF refl] by (simp add: sink_send_def)

lemma send_terminal_returns: "\<exists>r w1. send_terminal A t c w = Some w1 \<and> sent t c w r w1"
  using send_inner_returns [OF refl, of t c False 0 w] by (auto simp: send_terminal_def)

end

end
