(* ===== verification/Control.thy ===== *)
theory Control
  imports Delivery "HOL-Library.Multiset" "HOL-Library.Sublist"
begin

text \<open>
  \<^verbatim>\<open>xibalba-client/src/control.rs\<close>: the reader's end of the control ring with the requests that
  were displaced from it while it looked for a cancel. The ring and the shared flags are
  operations of the environment; what the queue holds of its own is \<open>cq_pending\<close>.
\<close>

section \<open>Definitions\<close>

definition CANCEL_ANY :: ticket where
  "CANCEL_ANY = - 1"

record ControlQueue =
  cq_pending :: "AsyncRequest list"

definition ControlQueue_new :: ControlQueue where
  "ControlQueue_new = \<lparr> cq_pending = [] \<rparr>"

definition is_shutting_down :: "'w aenv \<Rightarrow> 'w \<Rightarrow> bool \<times> 'w" where
  "is_shutting_down A w = load_shutting_down A w"

text \<open>\<open>None\<close> as the request is the reader's sign to stop.\<close>

partial_function (option) next_request ::
  "'w aenv \<Rightarrow> ControlQueue \<Rightarrow> 'w \<Rightarrow> (AsyncRequest option \<times> ControlQueue \<times> 'w) option" where
  "next_request A self w =
     (let (down, w) = is_shutting_down A w in
      if down then Some (None, self, w)
      else case cq_pending self of
        request # rest \<Rightarrow>
          Some (Some request, self\<lparr> cq_pending := rest \<rparr>, store_cancel_any A w False)
      | [] \<Rightarrow>
          (case ctl_pop_block A w of
             (None, w) \<Rightarrow> Some (None, self, w)
           | (Some (CRequest request), w) \<Rightarrow> Some (Some request, self, store_cancel_any A w False)
           | (Some (CCancel _), w) \<Rightarrow> next_request A self w))"

text \<open>The request that is taken out of the queue is dropped when its terminator has been sent.\<close>

definition abort_pending :: "'w aenv \<Rightarrow> ControlQueue \<Rightarrow> ticket \<Rightarrow> 'w \<Rightarrow> (ControlQueue \<times> 'w) option" where
  "abort_pending A self tk w =
     (case position (\<lambda>request. ar_ticket request = tk) (cq_pending self) of
        None \<Rightarrow> Some (self, w)
      | Some index \<Rightarrow>
          (let request = cq_pending self ! index;
               self = self\<lparr> cq_pending := take index (cq_pending self) @ drop (index + 1) (cq_pending self) \<rparr> in
           map_option (\<lambda>w. (self, drop_request A (ar_ticket request) w))
             (send_terminal A (ar_ticket request) Aborted w)))"

definition addressed :: "ticket option \<Rightarrow> ticket \<Rightarrow> bool" where
  "addressed current tk = (case current of None \<Rightarrow> False | Some c \<Rightarrow> tk = CANCEL_ANY \<or> tk = c)"

partial_function (option) poll_cancel_loop ::
  "'w aenv \<Rightarrow> ticket option \<Rightarrow> bool \<Rightarrow> ControlQueue \<Rightarrow> 'w \<Rightarrow> (bool \<times> ControlQueue \<times> 'w) option" where
  "poll_cancel_loop A current cancelled self w =
     (let (down, w) = is_shutting_down A w in
      if down then Some (True, self, w)
      else case ctl_pop A w of
        (Some (CCancel tk), w) \<Rightarrow>
          (let w = (if tk = CANCEL_ANY then store_cancel_any A w True else w) in
           if addressed current tk then poll_cancel_loop A current True self w
           else if tk \<noteq> CANCEL_ANY then
             Option.bind (abort_pending A self tk w) (\<lambda>(self, w). poll_cancel_loop A current cancelled self w)
           else poll_cancel_loop A current cancelled self w)
      | (Some (CRequest request), w) \<Rightarrow>
          poll_cancel_loop A current cancelled (self\<lparr> cq_pending := cq_pending self @ [request] \<rparr>) w
      | (None, w) \<Rightarrow> Some (cancelled, self, w))"

definition poll_cancel ::
  "'w aenv \<Rightarrow> ControlQueue \<Rightarrow> ticket option \<Rightarrow> 'w \<Rightarrow> (bool \<times> ControlQueue \<times> 'w) option" where
  "poll_cancel A self current w = poll_cancel_loop A current False self w"

text \<open>
  The interrupt borrows the queue for one request. \<^verbatim>\<open>Interrupt::is_cancelled\<close> gives no result for
  a poll that does not return; \<open>poll_cancel_returns\<close> below shows that each returns.
\<close>

record 'w ControlInterrupt =
  ci_queue :: ControlQueue
  ci_ticket :: ticket
  ci_world :: 'w

definition ControlInterrupt_new :: "ControlQueue \<Rightarrow> ticket \<Rightarrow> 'w \<Rightarrow> 'w ControlInterrupt" where
  "ControlInterrupt_new queue tk w = \<lparr> ci_queue = queue, ci_ticket = tk, ci_world = w \<rparr>"

definition ci_is_cancelled :: "'w aenv \<Rightarrow> 'w ControlInterrupt \<Rightarrow> bool \<times> 'w ControlInterrupt" where
  "ci_is_cancelled A self =
     (let (c, queue, w) = the (poll_cancel A (ci_queue self) (Some (ci_ticket self)) (ci_world self)) in
      (c, self\<lparr> ci_queue := queue, ci_world := w \<rparr>))"

section \<open>What the messages mean\<close>

text \<open>
  Reference: what the messages taken while \<open>current\<close> is in flight do to the pending requests. A
  request joins them; a cancel that is not for \<open>current\<close> retires the first request with its
  ticket, which is recorded.
\<close>

fun absorb :: "ticket option \<Rightarrow> AsyncRequest list \<times> ticket list \<Rightarrow> Control \<Rightarrow> AsyncRequest list \<times> ticket list" where
  "absorb current (p, retired) (CRequest r) = (p @ [r], retired)"
| "absorb current (p, retired) (CCancel tk) =
     (if addressed current tk \<or> tk = CANCEL_ANY then (p, retired)
      else case position (\<lambda>r. ar_ticket r = tk) p of
        None \<Rightarrow> (p, retired)
      | Some i \<Rightarrow> (take i p @ drop (i + 1) p, retired @ [tk]))"

definition absorbs :: "ticket option \<Rightarrow> Control list \<Rightarrow> AsyncRequest list \<Rightarrow> AsyncRequest list \<times> ticket list" where
  "absorbs current ms p = foldl (absorb current) (p, []) ms"

definition cancels :: "ticket option \<Rightarrow> Control list \<Rightarrow> bool" where
  "cancels current ms = list_ex (\<lambda>m. case m of CCancel tk \<Rightarrow> addressed current tk | _ \<Rightarrow> False) ms"

lemma absorb_retired: "absorb current (p, retired) m = (fst (absorb current (p, []) m), retired @ snd (absorb current (p, []) m))"
  by (cases m) (auto split: option.splits)

lemma absorbs_acc: "foldl (absorb current) (p, retired) ms = (fst (absorbs current ms p), retired @ snd (absorbs current ms p))"
proof (induction ms arbitrary: p retired)
  case (Cons m ms)
  obtain p1 r1 where m: "absorb current (p, []) m = (p1, r1)" by (cases "absorb current (p, []) m")
  have "foldl (absorb current) (p, retired) (m # ms) = foldl (absorb current) (p1, retired @ r1) ms"
    using absorb_retired [of current p retired m] m by simp
  then show ?case using Cons [of p1 "retired @ r1"] Cons [of p1 r1] m by (simp add: absorbs_def)
qed (simp add: absorbs_def)

lemma absorbs_Nil [simp]: "absorbs current [] p = (p, [])"
  by (simp add: absorbs_def)

lemma absorbs_Cons:
  "absorb current (p, []) m = (p1, r1) \<Longrightarrow> absorbs current (m # ms) p = (fst (absorbs current ms p1), r1 @ snd (absorbs current ms p1))"
  using absorbs_acc [of current p1 r1 ms] by (simp add: absorbs_def)

lemma absorbs_append:
  "absorbs current ms p = (p1, r1) \<Longrightarrow> absorbs current ns p1 = (p2, r2) \<Longrightarrow> absorbs current (ms @ ns) p = (p2, r1 @ r2)"
  using absorbs_acc [of current p1 r1 ns] by (simp add: absorbs_def)

text \<open>
  No request is lost: the pending ones and those that arrived stay, in their order, but for
  the retired ones; and only a cancel that names its ticket retires a request.
\<close>

fun requests_in :: "Control list \<Rightarrow> AsyncRequest list" where
  "requests_in [] = []"
| "requests_in (CRequest r # ms) = r # requests_in ms"
| "requests_in (CCancel _ # ms) = requests_in ms"

lemma position_split:
  "position P xs = Some i \<Longrightarrow> \<exists>x. xs = take i xs @ x # drop (i + 1) xs \<and> P x \<and> i < length xs \<and> xs ! i = x"
proof (induction xs arbitrary: i)
  case (Cons y ys)
  then show ?case by (cases i) (auto split: if_splits)
qed simp

lemma absorb_keeps:
  assumes "absorb current (p, []) m = (p1, r1)"
  shows "mset (map ar_ticket p1) + mset r1 = mset (map ar_ticket (p @ requests_in [m]))" "subseq p1 (p @ requests_in [m])"
    "\<forall>tk \<in> set r1. m = CCancel tk \<and> tk \<noteq> CANCEL_ANY \<and> current \<noteq> Some tk"
proof -
  have "mset (map ar_ticket p1) + mset r1 = mset (map ar_ticket (p @ requests_in [m])) \<and> subseq p1 (p @ requests_in [m])
      \<and> (\<forall>tk \<in> set r1. m = CCancel tk \<and> tk \<noteq> CANCEL_ANY \<and> current \<noteq> Some tk)"
  proof (cases m)
    case (CRequest r)
    then show ?thesis using assms by auto
  next
    case (CCancel tk)
    show ?thesis
    proof (cases "addressed current tk \<or> tk = CANCEL_ANY \<or> position (\<lambda>r. ar_ticket r = tk) p = None")
      case True
      then show ?thesis using assms CCancel by (auto split: if_splits)
    next
      case False
      then obtain i where i: "position (\<lambda>r. ar_ticket r = tk) p = Some i" by auto
      from position_split [OF i] obtain x where x: "p = take i p @ x # drop (i + 1) p" "ar_ticket x = tk" by auto
      have r: "p1 = take i p @ drop (i + 1) p" "r1 = [tk]" using assms False CCancel i by auto
      have "mset (map ar_ticket p) = mset (map ar_ticket p1) + {#tk#}"
        using arg_cong [OF x(1), of "\<lambda>l. mset (map ar_ticket l)"] x(2) r(1) by simp
      moreover have "subseq p1 p"
        using list_emb_append_mono [OF subseq_order.order_refl, of "drop (i + 1) p" "x # drop (i + 1) p" "take i p"] x(1) r(1)
        by (simp add: list_emb_Cons)
      moreover have "current \<noteq> Some tk" using False by (auto simp: addressed_def)
      ultimately show ?thesis using False CCancel r by simp
    qed
  qed
  then show "mset (map ar_ticket p1) + mset r1 = mset (map ar_ticket (p @ requests_in [m]))" "subseq p1 (p @ requests_in [m])"
    "\<forall>tk \<in> set r1. m = CCancel tk \<and> tk \<noteq> CANCEL_ANY \<and> current \<noteq> Some tk" by blast+
qed

lemma requests_in_append: "requests_in (ms @ ns) = requests_in ms @ requests_in ns"
  by (induction ms rule: requests_in.induct) auto

lemma absorbs_keeps:
  assumes "absorbs current ms p = (p1, retired)"
  shows "mset (map ar_ticket p1) + mset retired = mset (map ar_ticket (p @ requests_in ms)) \<and> subseq p1 (p @ requests_in ms)
    \<and> (\<forall>tk \<in> set retired. CCancel tk \<in> set ms \<and> tk \<noteq> CANCEL_ANY \<and> current \<noteq> Some tk)"
  using assms
proof (induction ms arbitrary: p p1 retired)
  case (Cons m ms)
  obtain p2 r2 where m: "absorb current (p, []) m = (p2, r2)" by (cases "absorb current (p, []) m")
  obtain p3 r3 where ms: "absorbs current ms p2 = (p3, r3)" by (cases "absorbs current ms p2")
  have e: "p1 = p3" "retired = r2 @ r3" using Cons.prems absorbs_Cons [OF m, of ms] ms by simp_all
  have eq: "requests_in (m # ms) = requests_in [m] @ requests_in ms" using requests_in_append [of "[m]" ms] by simp
  note k = absorb_keeps [OF m] and ih = Cons.IH [OF ms]
  have "subseq (p2 @ requests_in ms) (p @ requests_in (m # ms))"
    unfolding eq using list_emb_append_mono [OF k(2) subseq_order.order_refl, of "requests_in ms"] by simp
  then have "subseq p1 (p @ requests_in (m # ms))" using ih e subseq_order.order_trans by blast
  moreover have "mset (map ar_ticket p1) + mset retired = mset (map ar_ticket (p @ requests_in (m # ms)))"
    using k(1) ih unfolding e eq by (simp add: ac_simps)
  ultimately show ?case using k(3) ih e by auto
qed simp

section \<open>Polling\<close>

context rings
begin

text \<open>
  What taking messages while \<open>current\<close> is in flight changes: the pending requests as the reference
  says, and each retired request may have been given its terminator.
\<close>

definition moved :: "ticket option \<Rightarrow> ControlQueue \<Rightarrow> 'w \<Rightarrow> Control list \<Rightarrow> ControlQueue \<Rightarrow> 'w \<Rightarrow> bool" where
  "moved current q w ms q1 w1 \<longleftrightarrow> taken w1 = taken w @ ms \<and> stock w1 + length ms \<le> stock w
     \<and> (\<exists>retired. absorbs current ms (cq_pending q) = (cq_pending q1, retired)
          \<and> (\<forall>t. \<exists>n \<le> count_list retired t. delivered w1 t = delivered w t @ replicate n Aborted))"

definition still :: "'w \<Rightarrow> 'w \<Rightarrow> bool" where
  "still w w1 \<longleftrightarrow> T w \<le> T w1 \<and> incoming w1 = incoming w \<and> outgoing w1 = outgoing w"

lemma still_trans [trans]: "still w w1 \<Longrightarrow> still w1 w2 \<Longrightarrow> still w w2"
  by (auto simp: still_def)

lemma quiet_still: "quiet w w1 \<Longrightarrow> still w w1"
  by (auto simp: still_def calm_def)

lemma sent_still: "sent t c w r w1 \<Longrightarrow> still w w1"
  by (auto simp: still_def sent_def)

lemma quiet_moved: "quiet w w1 \<Longrightarrow> moved current q w [] q w1"
  by (auto simp: moved_def calm_def)

lemma moved_trans:
  assumes "moved current q w ms q1 w1" "moved current q1 w1 ns q2 w2"
  shows "moved current q w (ms @ ns) q2 w2"
proof -
  obtain r1 where r1: "absorbs current ms (cq_pending q) = (cq_pending q1, r1)"
    and d1: "\<forall>t. \<exists>n \<le> count_list r1 t. delivered w1 t = delivered w t @ replicate n Aborted"
    using assms(1) unfolding moved_def by blast
  obtain r2 where r2: "absorbs current ns (cq_pending q1) = (cq_pending q2, r2)"
    and d2: "\<forall>t. \<exists>n \<le> count_list r2 t. delivered w2 t = delivered w1 t @ replicate n Aborted"
    using assms(2) unfolding moved_def by blast
  have "\<exists>n \<le> count_list (r1 @ r2) t. delivered w2 t = delivered w t @ replicate n Aborted" for t
  proof -
    obtain n m where "n \<le> count_list r1 t" "delivered w1 t = delivered w t @ replicate n Aborted"
      "m \<le> count_list r2 t" "delivered w2 t = delivered w1 t @ replicate m Aborted" using d1 d2 by blast
    then show ?thesis by (intro exI [of _ "n + m"]) (simp add: replicate_add)
  qed
  then show ?thesis using assms absorbs_append [OF r1 r2] unfolding moved_def by auto
qed

lemma moved_message:
  assumes "taken w1 = taken w @ [m]" "stock w1 < stock w" "absorb current (cq_pending q, []) m = (cq_pending q1, retired)"
    and "\<forall>t. \<exists>n \<le> count_list retired t. delivered w1 t = delivered w t @ replicate n Aborted"
  shows "moved current q w [m] q1 w1"
  using assms absorbs_Cons [OF assms(3), of "[]"] by (simp add: moved_def)

text \<open>One message.\<close>

lemma abort_pending_returns:
  assumes "\<not> addressed current tk" "tk \<noteq> CANCEL_ANY"
  shows "\<exists>q1 w1. abort_pending A q tk w = Some (q1, w1) \<and> still w w1 \<and> taken w1 = taken w \<and> stock w1 \<le> stock w
     \<and> (\<exists>retired. absorb current (cq_pending q, []) (CCancel tk) = (cq_pending q1, retired)
          \<and> (\<forall>t. \<exists>n \<le> count_list retired t. delivered w1 t = delivered w t @ replicate n Aborted))"
proof (cases "position (\<lambda>r. ar_ticket r = tk) (cq_pending q)")
  case None
  then show ?thesis using assms by (auto simp: abort_pending_def still_def)
next
  case (Some i)
  from position_split [OF Some] have tk: "ar_ticket (cq_pending q ! i) = tk" by auto
  obtain r w1 where s: "send_terminal A tk Aborted w = Some w1" "sent tk Aborted w r w1"
    using send_terminal_returns by blast
  let ?w2 = "drop_request A tk w1"
  have q: "quiet w1 ?w2" by (rule stores(3))
  let ?n = "(case r of Inr _ \<Rightarrow> 1 | Inl _ \<Rightarrow> 0) :: nat"
  have "delivered ?w2 tk = delivered w tk @ replicate ?n Aborted" "\<forall>t. t \<noteq> tk \<longrightarrow> delivered ?w2 t = delivered w t"
    using s(2) q by (auto simp: sent_def calm_def split: sum.splits)
  then have d: "\<exists>n \<le> count_list [tk] t. delivered ?w2 t = delivered w t @ replicate n Aborted" for t
    by (cases "t = tk") (auto intro!: exI [of _ ?n] split: sum.splits)
  have "still w ?w2" using sent_still [OF s(2)] quiet_still [OF q] by (rule still_trans)
  moreover have "taken ?w2 = taken w" "stock ?w2 \<le> stock w" using s(2) q by (auto simp: sent_def calm_def)
  ultimately show ?thesis using assms Some s(1) d
    by (simp add: abort_pending_def tk Let_def)
qed

lemma poll_cancel_returns:
  assumes "stock w = n"
  shows "\<exists>b q1 w1 ms. poll_cancel_loop A current cancelled q w = Some (b, q1, w1) \<and> still w w1 \<and> moved current q w ms q1 w1
     \<and> (cancelled \<or> cancels current ms \<longrightarrow> b)
     \<and> (b \<longrightarrow> cancelled \<or> cancels current ms \<or> (\<exists>w2. load_shutting_down A w2 = (True, w1)))"
  using assms
proof (induction n arbitrary: w q cancelled rule: less_induct)
  case (less n)
  obtain down w1 where down: "load_shutting_down A w = (down, w1)" by (cases "load_shutting_down A w")
  have q1: "quiet w w1" using loads(1) [OF down] by blast
  show ?case
  proof (cases down)
    case True
    then have "poll_cancel_loop A current cancelled q w = Some (True, q, w1)"
      by (subst poll_cancel_loop.simps) (simp add: is_shutting_down_def down)
    then show ?thesis using True down quiet_still [OF q1] quiet_moved [OF q1] by (auto intro!: exI [of _ "[]"])
  next
    case up: False
    obtain m w2 where m: "ctl_pop A w1 = (m, w2)" by (cases "ctl_pop A w1")
    have unfold: "poll_cancel_loop A current cancelled q w = (case (m, w2) of
        (Some (CCancel tk), w) \<Rightarrow>
          (let w = (if tk = CANCEL_ANY then store_cancel_any A w True else w) in
           if addressed current tk then poll_cancel_loop A current True q w
           else if tk \<noteq> CANCEL_ANY then
             Option.bind (abort_pending A q tk w) (\<lambda>(self, w). poll_cancel_loop A current cancelled self w)
           else poll_cancel_loop A current cancelled q w)
      | (Some (CRequest request), w) \<Rightarrow>
          poll_cancel_loop A current cancelled (q\<lparr> cq_pending := cq_pending q @ [request] \<rparr>) w
      | (None, w) \<Rightarrow> Some (cancelled, q, w))"
      using up m by (subst poll_cancel_loop.simps) (simp add: is_shutting_down_def down)
    show ?thesis
    proof (cases m)
      case None
      then have "quiet w w2" using pop_empty(1) m calm_trans [OF q1] by blast
      then show ?thesis using None unfold quiet_still quiet_moved
        by (auto simp: cancels_def intro!: exI [of _ "[]"])
    next
      case (Some msg)
      note pop = pop_msg(1) [OF m [unfolded Some]]
      have go: "?thesis"
        if eq: "poll_cancel_loop A current cancelled q w = poll_cancel_loop A current c' q3 w3"
          and st: "still w w3" "stock w3 \<le> stock w2" and mv: "moved current q w [msg] q3 w3"
          and c: "c' \<longleftrightarrow> cancelled \<or> cancels current [msg]" for c' q3 w3
      proof -
        have "stock w3 < n" using st(2) pop q1 less.prems by (auto simp: calm_def)
        from less.IH [OF this refl, of c' q3] obtain b q4 w4 ms
          where b: "poll_cancel_loop A current c' q3 w3 = Some (b, q4, w4)" "still w3 w4" "moved current q3 w3 ms q4 w4"
            "c' \<or> cancels current ms \<longrightarrow> b" "b \<longrightarrow> c' \<or> cancels current ms \<or> (\<exists>w2. load_shutting_down A w2 = (True, w4))"
          by blast
        have "cancels current ([msg] @ ms) \<longleftrightarrow> cancels current [msg] \<or> cancels current ms" by (auto simp: cancels_def)
        then show ?thesis using b c still_trans [OF st(1) b(2)] moved_trans [OF mv b(3)]
          by (intro exI [of _ b] exI [of _ q4] exI [of _ w4] exI [of _ "[msg] @ ms"] conjI) (auto simp: eq)
      qed
      have s2: "still w w2" "taken w2 = taken w @ [msg]" "stock w2 < stock w" "delivered w2 = delivered w"
        using pop q1 by (auto simp: still_def calm_def)
      show ?thesis
      proof (cases msg)
        case (CRequest r)
        show ?thesis
          by (rule go [of cancelled "q\<lparr> cq_pending := cq_pending q @ [r] \<rparr>" w2])
            (use unfold Some CRequest s2 in \<open>auto simp: cancels_def intro!: moved_message\<close>)
      next
        case (CCancel tk)
        define w3 where "w3 = (if tk = CANCEL_ANY then store_cancel_any A w2 True else w2)"
        have q3: "quiet w2 w3" using stores(1) by (simp add: w3_def)
        have s3: "still w w3" "taken w3 = taken w @ [msg]" "stock w3 \<le> stock w2" "delivered w3 = delivered w"
          using s2 q3 by (auto simp: still_def calm_def)
        have cm: "cancels current [msg] \<longleftrightarrow> addressed current tk" by (simp add: cancels_def CCancel)
        show ?thesis
        proof (cases "addressed current tk \<or> tk = CANCEL_ANY")
          case True
          then have "moved current q w [msg] q w3"
            using s2 s3 CCancel by (intro moved_message [where retired = "[]"]) auto
          then show ?thesis using True unfold Some CCancel s3 cm
            by (intro go [of "cancelled \<or> addressed current tk" q w3]) (auto simp: w3_def)
        next
          case False
          obtain q4 w4 retired where a: "abort_pending A q tk w3 = Some (q4, w4)" "still w3 w4" "taken w4 = taken w3"
              "stock w4 \<le> stock w3" "absorb current (cq_pending q, []) (CCancel tk) = (cq_pending q4, retired)"
              "\<forall>t. \<exists>n \<le> count_list retired t. delivered w4 t = delivered w3 t @ replicate n Aborted"
            using abort_pending_returns [of current tk q w3] False by blast
          have "moved current q w [msg] q4 w4"
            using s2 s3 a CCancel by (intro moved_message [where retired = retired]) auto
          then show ?thesis using False unfold Some CCancel s3 cm a still_trans [OF s3(1) a(2)]
            by (intro go [of cancelled q4 w4]) (auto simp: w3_def)
        qed
      qed
    qed
  qed
qed

text \<open>The next request: the oldest one pending, or else the first that arrives.\<close>

lemma next_request_returns:
  assumes "stock w = n"
  shows "\<exists>r q1 w1 ms. next_request A q w = Some (r, q1, w1) \<and> still w w1 \<and> taken w1 = taken w @ ms \<and> delivered w1 = delivered w
     \<and> stock w1 + length ms \<le> stock w
     \<and> cq_pending q @ requests_in ms = (case r of None \<Rightarrow> cq_pending q1 | Some req \<Rightarrow> req # cq_pending q1)"
  using assms
proof (induction n arbitrary: w rule: less_induct)
  case (less n)
  obtain down w1 where down: "load_shutting_down A w = (down, w1)" by (cases "load_shutting_down A w")
  have q1: "quiet w w1" using loads(1) [OF down] by blast
  show ?case
  proof (cases "down \<or> cq_pending q \<noteq> []")
    case True
    have "\<exists>r q2 w2. next_request A q w = Some (r, q2, w2) \<and> quiet w1 w2
        \<and> cq_pending q = (case r of None \<Rightarrow> cq_pending q2 | Some req \<Rightarrow> req # cq_pending q2)"
      using True stores(1) by (subst next_request.simps) (cases down; cases "cq_pending q"; simp add: is_shutting_down_def down)
    then obtain r q2 w2 where n: "next_request A q w = Some (r, q2, w2)" "quiet w1 w2"
        "cq_pending q = (case r of None \<Rightarrow> cq_pending q2 | Some req \<Rightarrow> req # cq_pending q2)" by blast
    then show ?thesis using quiet_still [OF calm_trans [OF q1 n(2)]] calm_trans [OF q1 n(2)]
      by (intro exI [of _ r] exI [of _ q2] exI [of _ w2] exI [of _ "[]"]) (auto simp: calm_def)
  next
    case False
    obtain m w2 where m: "ctl_pop_block A w1 = (m, w2)" by (cases "ctl_pop_block A w1")
    have unfold: "next_request A q w = (case (m, w2) of
        (None, w) \<Rightarrow> Some (None, q, w)
      | (Some (CRequest request), w) \<Rightarrow> Some (Some request, q, store_cancel_any A w False)
      | (Some (CCancel _), w) \<Rightarrow> next_request A q w)"
      using False m by (subst next_request.simps) (simp add: is_shutting_down_def down)
    show ?thesis
    proof (cases m)
      case None
      then have "quiet w w2" using pop_empty(2) m calm_trans [OF q1] by blast
      then show ?thesis using None unfold False quiet_still
        by (intro exI [of _ None] exI [of _ q] exI [of _ w2] exI [of _ "[]"]) (auto simp: calm_def)
    next
      case (Some msg)
      note pop = pop_msg(2) [OF m [unfolded Some]]
      have s2: "still w w2" "taken w2 = taken w @ [msg]" "stock w2 < stock w" "delivered w2 = delivered w"
        using pop q1 by (auto simp: still_def calm_def)
      show ?thesis
      proof (cases msg)
        case (CRequest r)
        let ?w3 = "store_cancel_any A w2 False"
        have "quiet w2 ?w3" by (rule stores(1))
        then show ?thesis using unfold Some CRequest False s2 still_trans [OF s2(1) quiet_still, of ?w3]
          by (intro exI [of _ "Some r"] exI [of _ q] exI [of _ ?w3] exI [of _ "[msg]"]) (auto simp: calm_def)
      next
        case (CCancel tk)
        from less.IH [of "stock w2" w2] s2(3) less.prems obtain r q3 w3 ms where n: "next_request A q w2 = Some (r, q3, w3)"
            "still w2 w3" "taken w3 = taken w2 @ ms" "delivered w3 = delivered w2" "stock w3 + length ms \<le> stock w2"
            "cq_pending q @ requests_in ms = (case r of None \<Rightarrow> cq_pending q3 | Some req \<Rightarrow> req # cq_pending q3)" by auto
        then show ?thesis using unfold Some CCancel s2 still_trans [OF s2(1) n(2)]
          by (intro exI [of _ r] exI [of _ q3] exI [of _ w3] exI [of _ "msg # ms"]) auto
      qed
    qed
  qed
qed

end

section \<open>A scripted client\<close>

text \<open>
  A world with callers: the messages they will send are a list, a push to a ring fails as often
  as \<open>aw_busy\<close> says, and the flags are as the callers set them.
\<close>

record aworld =
  aw_net :: sworld
  aw_ctl :: "Control list"
  aw_taken :: "Control list"
  aw_rings :: "ticket \<Rightarrow> Chunk list"
  aw_busy :: "ticket \<Rightarrow> nat"
  aw_down :: bool
  aw_cancel_any :: bool
  aw_gone :: "ticket \<Rightarrow> bool"
  aw_cancelled :: "ticket \<Rightarrow> bool"
  aw_started :: "ticket set"

definition on_net :: "(sworld \<Rightarrow> 'r \<times> sworld) \<Rightarrow> aworld \<Rightarrow> 'r \<times> aworld" where
  "on_net f w = (let (r, n) = f (aw_net w) in (r, w\<lparr> aw_net := n \<rparr>))"

definition lifted_net :: "aworld env" where
  "lifted_net =
     \<lparr> rd = (\<lambda>w n. on_net (\<lambda>s. rd scripted s n) w), wr = (\<lambda>w x. on_net (\<lambda>s. wr scripted s x) w),
       fl = on_net (fl scripted), clock = on_net (clock scripted),
       sleep = (\<lambda>w d. w\<lparr> aw_net := sleep scripted (aw_net w) d \<rparr>), intr = on_net (intr scripted),
       dial = (\<lambda>w u d. on_net (\<lambda>s. dial scripted s u d) w),
       set_read_timeout = (\<lambda>w d. on_net (\<lambda>s. set_read_timeout scripted s d) w),
       set_write_timeout = (\<lambda>w d. on_net (\<lambda>s. set_write_timeout scripted s d) w),
       instant_max = instant_max scripted, fmt_duration = fmt_duration scripted, buf_addr = buf_addr scripted \<rparr>"

definition aw_pop :: "aworld \<Rightarrow> Control option \<times> aworld" where
  "aw_pop w = (case aw_ctl w of [] \<Rightarrow> (None, w) | m # ms \<Rightarrow> (Some m, w\<lparr> aw_ctl := ms, aw_taken := aw_taken w @ [m] \<rparr>))"

definition aw_push :: "ticket \<Rightarrow> aworld \<Rightarrow> Chunk \<Rightarrow> bool \<times> aworld" where
  "aw_push t w c =
     (if aw_busy w t > 0 then (False, w\<lparr> aw_busy := (aw_busy w)(t := aw_busy w t - 1) \<rparr>)
      else (True, w\<lparr> aw_rings := (aw_rings w)(t := aw_rings w t @ [c]) \<rparr>))"

definition ascripted :: "aworld aenv" where
  "ascripted =
     \<lparr> net = lifted_net, ctl_pop = aw_pop, ctl_pop_block = aw_pop, chunk_push = aw_push,
       load_shutting_down = (\<lambda>w. (aw_down w, w)), load_cancel_any = (\<lambda>w. (aw_cancel_any w, w)),
       store_cancel_any = (\<lambda>w b. w\<lparr> aw_cancel_any := b \<rparr>), load_consumer_alive = (\<lambda>t w. (\<not> aw_gone w t, w)),
       load_cancelled = (\<lambda>t w. (aw_cancelled w t, w)),
       store_started = (\<lambda>t w. w\<lparr> aw_started := insert t (aw_started w) \<rparr>), yield_now = (\<lambda>w. w),
       drop_request = (\<lambda>t w. w) \<rparr>"

abbreviation "aw_now w \<equiv> sw_now (aw_net w)"
abbreviation "aw_incoming w \<equiv> sw_incoming (aw_net w)"
abbreviation "aw_sent w \<equiv> sw_sent (aw_net w)"
abbreviation "aw_stock w \<equiv> length (aw_ctl w)"

interpretation scripted_rings: rings ascripted aw_now aw_incoming aw_sent aw_rings aw_taken aw_stock aw_busy
  by unfold_locales
    (auto simp: ascripted_def aw_pop_def aw_push_def calm_def lifted_net_def scripted_def sw_incoming_def
      split: list.splits if_splits)

section \<open>Properties\<close>

text \<open>
  C34: looking for a cancel loses no request and applies no cancel to the wrong one. A poll
  returns; it reports a cancel if a message named the request in flight or any request, and
  otherwise only if the client is shutting down; the requests it popped wait behind those that
  waited before, in the order of submission; and the only ones gone are those whose own ticket
  was cancelled, never the one in flight, each with at most its terminator in its ring.
\<close>

theorem poll_cancel_exact:
  assumes "rings A T incoming outgoing delivered taken stock patience"
  shows "\<exists>b q1 w1 ms retired. poll_cancel A q current w = Some (b, q1, w1) \<and> taken w1 = taken w @ ms
    \<and> (cancels current ms \<longrightarrow> b) \<and> (b \<longrightarrow> cancels current ms \<or> (\<exists>w2. load_shutting_down A w2 = (True, w1)))
    \<and> subseq (cq_pending q1) (cq_pending q @ requests_in ms)
    \<and> mset (map ar_ticket (cq_pending q1)) + mset retired = mset (map ar_ticket (cq_pending q @ requests_in ms))
    \<and> (\<forall>tk \<in> set retired. CCancel tk \<in> set ms \<and> tk \<noteq> CANCEL_ANY \<and> current \<noteq> Some tk)
    \<and> (\<forall>t. \<exists>n \<le> count_list retired t. delivered w1 t = delivered w t @ replicate n Aborted)"
proof -
  obtain b q1 w1 ms where p: "poll_cancel_loop A current False q w = Some (b, q1, w1)"
      "rings.moved delivered taken stock current q w ms q1 w1" "cancels current ms \<longrightarrow> b"
      "b \<longrightarrow> cancels current ms \<or> (\<exists>w2. load_shutting_down A w2 = (True, w1))"
    using rings.poll_cancel_returns [OF assms refl, of current False q w] by blast
  then obtain retired where "taken w1 = taken w @ ms" "absorbs current ms (cq_pending q) = (cq_pending q1, retired)"
      "\<forall>t. \<exists>n \<le> count_list retired t. delivered w1 t = delivered w t @ replicate n Aborted"
    unfolding rings.moved_def [OF assms] by blast
  with p absorbs_keeps [OF this(2)] show ?thesis unfolding poll_cancel_def by blast
qed

definition queued_request :: "ticket \<Rightarrow> AsyncRequest" where
  "queued_request t = \<lparr> ar_method = Get, ar_path = [], ar_query = None, ar_body = None, ar_headers = [], ar_ticket = t \<rparr>"

definition queued_world :: aworld where
  "queued_world = \<lparr> aw_net = \<lparr> sw_now = 0, sw_script = [], sw_next = [], sw_sent = [], sw_dialled = [] \<rparr>,
     aw_ctl = [CRequest (queued_request 8), CCancel 7], aw_taken = [], aw_rings = (\<lambda>_. []), aw_busy = (\<lambda>_. 0), aw_down = False,
     aw_cancel_any = False, aw_gone = (\<lambda>_. False), aw_cancelled = (\<lambda>_. False), aw_started = {} \<rparr>"

lemma queued_poll:
  "poll_cancel ascripted \<lparr> cq_pending = [queued_request 7] \<rparr> (Some 6) queued_world =
   Some (False, \<lparr> cq_pending = [queued_request 8] \<rparr>, queued_world\<lparr> aw_ctl := [],
     aw_taken := [CRequest (queued_request 8), CCancel 7], aw_rings := (\<lambda>_. [])(7 := [Aborted]) \<rparr>)"
  unfolding poll_cancel_def
  by (subst poll_cancel_loop.simps, simp add: is_shutting_down_def ascripted_def queued_world_def aw_pop_def)
    (subst poll_cancel_loop.simps, simp add: is_shutting_down_def ascripted_def aw_pop_def addressed_def CANCEL_ANY_def
      abort_pending_def queued_request_def send_terminal_def send_inner.simps blocked_reason_def aw_push_def
      poll_cancel_loop.simps)

theorem poll_cancel_exact_witness:
  "\<exists>q1 w1. poll_cancel ascripted \<lparr> cq_pending = [queued_request 7] \<rparr> (Some 6) queued_world = Some (False, q1, w1)
    \<and> map ar_ticket (cq_pending q1) = [8] \<and> aw_rings w1 7 = [Aborted]
    \<and> subseq (cq_pending q1) (queued_request 7 # requests_in (aw_taken w1))"
  using poll_cancel_exact [OF scripted_rings.rings_axioms, of "\<lparr> cq_pending = [queued_request 7] \<rparr>" "Some 6" queued_world] queued_poll
  by (auto simp: queued_request_def queued_world_def)

end
