(* ===== verification/Deadline.thy ===== *)
theory Deadline
  imports Io_World
begin

text \<open>
  \<^verbatim>\<open>xibalba-client/src/deadline.rs\<close>, the \<^verbatim>\<open>RequestDeadline\<close> of \<^verbatim>\<open>silence.rs\<close>, and
  \<^verbatim>\<open>config.rs\<close>: points in time by which an operation must have returned, and the limits a
  client is configured with. A deadline is an instant, or \<open>None\<close> for no bound.
\<close>

section \<open>Deadlines: \<open>deadline.rs\<close>\<close>

datatype TimeLeft = Unbounded | Remaining duration | Expired

type_synonym Deadline = "instant option"

definition Deadline_after :: "'w env \<Rightarrow> duration \<Rightarrow> 'w \<Rightarrow> Deadline \<times> 'w" where
  "Deadline_after E budget w = (let (t, w) = clock E w in (instant_add E t budget, w))"

definition Deadline_never :: Deadline where
  "Deadline_never = None"

definition time_left :: "'w env \<Rightarrow> Deadline \<Rightarrow> 'w \<Rightarrow> TimeLeft \<times> 'w" where
  "time_left E self w =
     (case self of
        None \<Rightarrow> (Unbounded, w)
      | Some expires_at \<Rightarrow>
          (let (t, w) = clock E w in
           if t \<le> expires_at \<and> expires_at - t \<noteq> 0 then (Remaining (expires_at - t), w) else (Expired, w)))"

definition is_expired :: "'w env \<Rightarrow> Deadline \<Rightarrow> 'w \<Rightarrow> bool \<times> 'w" where
  "is_expired E self w = (let (left, w) = time_left E self w in (left = Expired, w))"

definition sooner :: "Deadline \<Rightarrow> Deadline \<Rightarrow> Deadline" where
  "sooner a b =
     (case (a, b) of
        (Some x, Some y) \<Rightarrow> Some (min x y)
      | (Some _, None) \<Rightarrow> a
      | (None, Some _) \<Rightarrow> b
      | (None, None) \<Rightarrow> Deadline_never)"

definition Deadline_check :: "'w env \<Rightarrow> Deadline \<Rightarrow> 'w \<Rightarrow> (Error + unit) \<times> 'w" where
  "Deadline_check E self w =
     (let (e, w) = is_expired E self w in
      if e then (Inl (Connection ConnectDeadlineExceeded), w) else (Inr (), w))"

definition Deadline_clamp :: "'w env \<Rightarrow> Deadline \<Rightarrow> duration \<Rightarrow> 'w \<Rightarrow> (Error + duration) \<times> 'w" where
  "Deadline_clamp E self step w =
     (let (left, w) = time_left E self w in
      case left of
        Unbounded \<Rightarrow> (Inr step, w)
      | Remaining d \<Rightarrow> (Inr (min step d), w)
      | Expired \<Rightarrow> (Inl (Connection ConnectDeadlineExceeded), w))"

section \<open>Request deadlines: \<open>silence.rs\<close>\<close>

type_synonym RequestDeadline = "instant option"

abbreviation RD_NONE :: RequestDeadline where "RD_NONE \<equiv> None"

definition rd_after :: "'w env \<Rightarrow> duration option \<Rightarrow> 'w \<Rightarrow> RequestDeadline \<times> 'w" where
  "rd_after E budget w =
     (case budget of
        None \<Rightarrow> (None, w)
      | Some b \<Rightarrow> (let (t, w) = clock E w in (instant_add E t b, w)))"

definition rd_expired :: "'w env \<Rightarrow> RequestDeadline \<Rightarrow> 'w \<Rightarrow> bool \<times> 'w" where
  "rd_expired E self w =
     (case self of None \<Rightarrow> (False, w) | Some at \<Rightarrow> (let (t, w) = clock E w in (at \<le> t, w)))"

definition rd_error :: io_error where
  "rd_error = \<lparr> io_kind = TimedOut, io_payload = DeadlineMark \<rparr>"

definition connect_deadline_within :: "'w env \<Rightarrow> RequestDeadline \<Rightarrow> Deadline \<Rightarrow> 'w \<Rightarrow> Deadline \<times> 'w" where
  "connect_deadline_within E self fallback w =
     (case self of
        None \<Rightarrow> (fallback, w)
      | Some expires_at \<Rightarrow>
          (let (t, w) = clock E w;
               (remaining, w) = Deadline_after E (expires_at - t) w in
           (sooner remaining fallback, w)))"

definition check_io :: "'w env \<Rightarrow> RequestDeadline \<Rightarrow> 'w \<Rightarrow> (io_error + unit) \<times> 'w" where
  "check_io E self w = (let (e, w) = rd_expired E self w in if e then (Inl rd_error, w) else (Inr (), w))"

definition rd_check :: "'w env \<Rightarrow> RequestDeadline \<Rightarrow> 'w \<Rightarrow> (Error + unit) \<times> 'w" where
  "rd_check E self w =
     (let (e, w) = rd_expired E self w in
      if e then (Inl (Connection RequestDeadlineExceeded), w) else (Inr (), w))"

definition rd_marks :: "io_error \<Rightarrow> bool" where
  "rd_marks e = (io_payload e = DeadlineMark)"

definition classify :: "io_error \<Rightarrow> Error" where
  "classify e = (if rd_marks e then Connection RequestDeadlineExceeded else error_from_io e)"

section \<open>Configuration: \<open>config.rs\<close>\<close>

definition DEFAULT_MAX_HEAD_SIZE :: usize where "DEFAULT_MAX_HEAD_SIZE = 64 * 1024"
definition HEAD_BUF_SIZE :: usize where "HEAD_BUF_SIZE = 8192"

record Config =
  read_timeout :: "duration option"
  write_timeout :: "duration option"
  connect_timeout :: "duration option"
  max_response_body :: usize
  max_redirects :: u8
  allow_cross_origin_redirects :: bool
  head_silence :: duration
  stream_silence :: duration
  request_deadline :: "duration option"

definition connect_deadline :: "'w env \<Rightarrow> Config \<Rightarrow> 'w \<Rightarrow> Deadline \<times> 'w" where
  "connect_deadline E self w =
     (case connect_timeout self of None \<Rightarrow> (Deadline_never, w) | Some t \<Rightarrow> Deadline_after E t w)"

definition Config_validate :: "Config \<Rightarrow> Error + unit" where
  "Config_validate self =
     (case read_timeout self of
        None \<Rightarrow> Inl (Connection InfiniteReadTimeout)
      | Some rt \<Rightarrow>
          if rt = 0 \<or> head_silence self = 0 \<or> stream_silence self = 0
             \<or> write_timeout self = Some 0 \<or> connect_timeout self = Some 0 \<or> request_deadline self = Some 0
          then Inl (Connection ZeroDuration)
          else if rt > head_silence self \<or> rt > stream_silence self
          then Inl (Connection TimeoutExceedsBudget)
          else Inr ())"

abbreviation secs :: "nat \<Rightarrow> duration" where "secs n \<equiv> n * 1000000000"

definition Config_default :: Config where
  "Config_default =
     \<lparr> read_timeout = Some (secs 30), write_timeout = Some (secs 30), connect_timeout = Some (secs 30),
       max_response_body = 10 * 1024 * 1024, max_redirects = 10, allow_cross_origin_redirects = True,
       head_silence = secs 120, stream_silence = secs 300, request_deadline = None \<rparr>"

section \<open>Lemmas\<close>

lemma Config_validate_ok:
  "Config_validate c = Inr () \<longleftrightarrow>
     (\<exists>rt. read_timeout c = Some rt \<and> 0 < rt \<and> rt \<le> head_silence c \<and> rt \<le> stream_silence c
        \<and> write_timeout c \<noteq> Some 0 \<and> connect_timeout c \<noteq> Some 0 \<and> request_deadline c \<noteq> Some 0)"
  by (auto simp: Config_validate_def split: option.splits)

lemma Config_default_ok: "Config_validate Config_default = Inr ()"
  by (simp add: Config_validate_ok Config_default_def)

lemma sooner_min:
  "sooner a b = (if a = None then b else if b = None then a else Some (min (the a) (the b)))"
  by (auto simp: sooner_def Deadline_never_def split: option.splits)

definition expires_by :: "Deadline \<Rightarrow> instant \<Rightarrow> bool" where
  "expires_by d t = (case d of None \<Rightarrow> False | Some x \<Rightarrow> x \<le> t)"

lemma sooner_expires: "expires_by (sooner a b) t \<longleftrightarrow> expires_by a t \<or> expires_by b t"
  by (auto simp: expires_by_def sooner_min split: option.splits)

context clocked
begin

lemma time_left_cases:
  assumes "time_left E d w = (l, w1)"
  shows "T w \<le> T w1"
    and "l = Remaining r \<Longrightarrow> 0 < r \<and> (\<exists>x. d = Some x \<and> T w + r \<le> x)"
    and "l = Expired \<Longrightarrow> expires_by d (T w1)"
    and "l = Unbounded \<longleftrightarrow> d = None"
proof -
  obtain t w2 where c: "clock E w = (t, w2)" by (cases "clock E w")
  note ct = clock_time [OF c]
  show "T w \<le> T w1" "l = Remaining r \<Longrightarrow> 0 < r \<and> (\<exists>x. d = Some x \<and> T w + r \<le> x)"
    "l = Expired \<Longrightarrow> expires_by d (T w1)" "l = Unbounded \<longleftrightarrow> d = None"
    using assms ct by (auto simp: time_left_def c expires_by_def split: option.splits if_splits)
qed

lemma clamp_bounds:
  assumes "Deadline_clamp E d step w = (Inr s, w1)"
  shows "s \<le> step \<and> (0 < step \<longrightarrow> 0 < s) \<and> (\<forall>x. d = Some x \<longrightarrow> T w + s \<le> x)"
proof -
  obtain l w2 where l: "time_left E d w = (l, w2)" by (cases "time_left E d w")
  show ?thesis using assms time_left_cases [OF l]
    by (cases l) (auto simp: Deadline_clamp_def l)
qed

lemma clamp_expired:
  "Deadline_clamp E d step w = (Inl e, w1) \<Longrightarrow> e = Connection ConnectDeadlineExceeded \<and> expires_by d (T w1)"
proof -
  assume a: "Deadline_clamp E d step w = (Inl e, w1)"
  obtain l w2 where l: "time_left E d w = (l, w2)" by (cases "time_left E d w")
  show ?thesis using a time_left_cases(3) [OF l]
    by (cases l) (auto simp: Deadline_clamp_def l)
qed

lemma rd_expired_time: "rd_expired E d w = (b, w1) \<Longrightarrow> T w \<le> T w1"
  by (cases "clock E w") (auto simp: rd_expired_def dest: clock_time split: option.splits)

lemma rd_expired_iff: "rd_expired E d w = (b, w1) \<Longrightarrow> b \<Longrightarrow> expires_by d (T w1)"
  by (cases "clock E w") (auto simp: rd_expired_def expires_by_def dest: clock_time split: option.splits)

end

section \<open>Properties\<close>

text \<open>
  The timeout a deadline grants one attempt is never longer than the attempt's own and
  never runs past the deadline, and it is never zero, which a socket would read as no timeout
  at all; when nothing is left the answer is \<^verbatim>\<open>ConnectDeadlineExceeded\<close>, and then the deadline
  has indeed passed. The sooner of two deadlines has expired exactly when one of them has.
\<close>

theorem clamp_within_deadline:
  assumes "clocked E T" "0 < step"
  shows "(case Deadline_clamp E d step w of
      (Inr s, w1) \<Rightarrow> 0 < s \<and> s \<le> step \<and> (\<forall>x. d = Some x \<longrightarrow> T w + s \<le> x)
    | (Inl e, w1) \<Rightarrow> e = Connection ConnectDeadlineExceeded \<and> expires_by d (T w1))
    \<and> (expires_by (sooner d d') t \<longleftrightarrow> expires_by d t \<or> expires_by d' t)"
  using clocked.clamp_bounds [OF assms(1), of d step w] clocked.clamp_expired [OF assms(1), of d step w] assms(2)
  by (auto simp: sooner_expires split: prod.splits sum.splits)

theorem clamp_within_deadline_witness:
  "case Deadline_clamp scripted (Some 10) 30 \<lparr> sw_now = 4, sw_script = [], sw_next = [], sw_sent = [], sw_dialled = [] \<rparr> of
      (Inr s, w1) \<Rightarrow> 0 < s \<and> 4 + s \<le> 10
    | (Inl e, w1) \<Rightarrow> False"
proof -
  let ?w = "\<lparr> sw_now = 4, sw_script = [], sw_next = [], sw_sent = [], sw_dialled = [] \<rparr>"
  have e: "Deadline_clamp scripted (Some 10) 30 ?w = (Inr 6, ?w)"
    by (simp add: Deadline_clamp_def time_left_def scripted_def)
  show ?thesis
    using clamp_within_deadline [OF scripted_connection.clocked_axioms, of 30 "Some 10" ?w] by (simp add: e)
qed

text \<open>
  Exactly the configurations whose read timeout is finite, positive and no longer than the
  two silence budgets, and whose other time limits are positive, pass validation; the errors
  name the first rule broken, and the default configuration passes.
\<close>

theorem config_validation:
  "(Config_validate c = Inr () \<longleftrightarrow>
     (\<exists>rt. read_timeout c = Some rt \<and> 0 < rt \<and> rt \<le> min (head_silence c) (stream_silence c)
        \<and> write_timeout c \<noteq> Some 0 \<and> connect_timeout c \<noteq> Some 0 \<and> request_deadline c \<noteq> Some 0))
   \<and> (Config_validate c = Inl (Connection InfiniteReadTimeout) \<longleftrightarrow> read_timeout c = None)
   \<and> Config_validate Config_default = Inr ()"
  using Config_default_ok Config_validate_ok [of c]
  by (auto simp: Config_validate_def split: option.splits)

end
