(* ===== verification/Budgets.thy ===== *)
theory Budgets
  imports Deadline "HOL-Library.Monad_Syntax"
begin

text \<open>
  The \<^verbatim>\<open>SilenceBudget\<close> of \<^verbatim>\<open>xibalba-client/src/silence.rs\<close> and the \<^verbatim>\<open>WriteBudget\<close> of
  \<^verbatim>\<open>write_budget.rs\<close>: reads and writes that absorb the timeout ticks of a blocking socket until
  bytes move, the budget is spent, or the request's deadline passes. The loops are written as
  \<^verbatim>\<open>while\<close> loops in the source; here \<open>None\<close> is a loop that does not return, and the results show
  that there is none: every loop returns in an environment whose clock does not run backwards,
  because a tick is never shorter than a millisecond.
\<close>

section \<open>Reading\<close>

record SilenceBudget =
  sb_limit :: duration
  sb_last_progress :: instant
  sb_deadline :: RequestDeadline

definition sb_with_deadline :: "'w env \<Rightarrow> duration \<Rightarrow> RequestDeadline \<Rightarrow> 'w \<Rightarrow> SilenceBudget \<times> 'w" where
  "sb_with_deadline E limit deadline w =
     (let (t, w) = clock E w in (\<lparr> sb_limit = limit, sb_last_progress = t, sb_deadline = deadline \<rparr>, w))"

definition sb_new :: "'w env \<Rightarrow> duration \<Rightarrow> 'w \<Rightarrow> SilenceBudget \<times> 'w" where
  "sb_new E limit w = sb_with_deadline E limit RD_NONE w"

definition sb_expired :: "'w env \<Rightarrow> SilenceBudget \<Rightarrow> io_error" where
  "sb_expired E self =
     io_err TimedOut (''peer sent no data for '' @ fmt_duration E (sb_limit self) @ '' (silence budget exhausted)'')"

partial_function (option) sb_read ::
  "'w env \<Rightarrow> SilenceBudget \<Rightarrow> usize \<Rightarrow> 'w \<Rightarrow> ((io_error + bytes) \<times> SilenceBudget \<times> 'w) option" where
  "sb_read E self n w0 =
     (let (ex, w1) = rd_expired E (sb_deadline self) w0 in
      if ex then Some (Inl rd_error, self, w1)
      else
        let (tick_start, w2) = clock E w1;
            (r, w3) = rd E w2 n in
        case r of
          Inr d \<Rightarrow> (let (t, w4) = clock E w3 in Some (Inr d, self\<lparr> sb_last_progress := t \<rparr>, w4))
        | Inl e \<Rightarrow>
            if Tick_marks e then
              (let (t, w4) = clock E w3 in
               if t - sb_last_progress self \<ge> sb_limit self then Some (Inl (sb_expired E self), self, w4)
               else sb_read E self n (Tick_pace E tick_start w4))
            else Some (Inl e, self, w3))"

text \<open>\<open>got\<close> is what has been read into the buffer of \<open>need\<close> bytes so far.\<close>

partial_function (option) sb_read_exact ::
  "'w env \<Rightarrow> SilenceBudget \<Rightarrow> usize \<Rightarrow> bytes \<Rightarrow> 'w \<Rightarrow> ((io_error + bytes) \<times> SilenceBudget \<times> 'w) option" where
  "sb_read_exact E self need got w =
     (if length got < need then
        Option.bind (sb_read E self (need - length got) w) (\<lambda>(r, self, w).
          case r of
            Inl e \<Rightarrow> Some (Inl e, self, w)
          | Inr d \<Rightarrow>
              if d = [] then Some (Inl (io_err UnexpectedEof ''connection closed mid-body''), self, w)
              else sb_read_exact E self need (got @ d) w)
      else Some (Inr got, self, w))"

definition sb_read_proto ::
  "'w env \<Rightarrow> SilenceBudget \<Rightarrow> usize \<Rightarrow> 'w \<Rightarrow> ((Error + bytes) \<times> SilenceBudget \<times> 'w) option" where
  "sb_read_proto E self n w =
     map_option (\<lambda>(r, self, w). (map_err classify r, self, w)) (sb_read E self n w)"

definition sb_read_exact_proto ::
  "'w env \<Rightarrow> SilenceBudget \<Rightarrow> usize \<Rightarrow> 'w \<Rightarrow> ((Error + bytes) \<times> SilenceBudget \<times> 'w) option" where
  "sb_read_exact_proto E self need w =
     map_option (\<lambda>(r, self, w). (map_err classify r, self, w)) (sb_read_exact E self need [] w)"

section \<open>Writing\<close>

record WriteBudget =
  wb_limit :: duration
  wb_last_progress :: instant
  wb_deadline :: RequestDeadline

definition wb_with_deadline :: "'w env \<Rightarrow> duration \<Rightarrow> RequestDeadline \<Rightarrow> 'w \<Rightarrow> WriteBudget \<times> 'w" where
  "wb_with_deadline E limit deadline w =
     (let (t, w) = clock E w in (\<lparr> wb_limit = limit, wb_last_progress = t, wb_deadline = deadline \<rparr>, w))"

definition wb_expired :: "'w env \<Rightarrow> WriteBudget \<Rightarrow> io_error" where
  "wb_expired E self =
     io_err TimedOut (''peer accepted no data for '' @ fmt_duration E (wb_limit self) @ '' (write budget exhausted)'')"

partial_function (option) write_all_raw ::
  "'w env \<Rightarrow> WriteBudget \<Rightarrow> bytes \<Rightarrow> usize \<Rightarrow> 'w \<Rightarrow> ((io_error + unit) \<times> WriteBudget \<times> 'w) option" where
  "write_all_raw E self buf off w0 =
     (if off < length buf then
        let (c, w1) = check_io E (wb_deadline self) w0 in
        case c of
          Inl e \<Rightarrow> Some (Inl e, self, w1)
        | Inr _ \<Rightarrow>
            (let (tick_start, w2) = clock E w1;
                 (r, w3) = wr E w2 (drop off buf) in
             case r of
               Inr n \<Rightarrow>
                 if n = 0 then Some (Inl (io_err WriteZero ''peer accepted no bytes''), self, w3)
                 else (let (t, w4) = clock E w3 in
                       write_all_raw E (self\<lparr> wb_last_progress := t \<rparr>) buf (off + n) w4)
             | Inl e \<Rightarrow>
                 if Tick_marks e then
                   (let (t, w4) = clock E w3 in
                    if t - wb_last_progress self \<ge> wb_limit self then Some (Inl (wb_expired E self), self, w4)
                    else write_all_raw E self buf off (Tick_pace E tick_start w4))
                 else Some (Inl e, self, w3))
      else Some (Inr (), self, w0))"

definition write_all_proto ::
  "'w env \<Rightarrow> WriteBudget \<Rightarrow> bytes \<Rightarrow> 'w \<Rightarrow> ((Error + unit) \<times> WriteBudget \<times> 'w) option" where
  "write_all_proto E self buf w =
     map_option (\<lambda>(r, self, w). (map_err classify r, self, w)) (write_all_raw E self buf 0 w)"

partial_function (option) wb_flush :: "'w env \<Rightarrow> WriteBudget \<Rightarrow> 'w \<Rightarrow> ((io_error + unit) \<times> 'w) option" where
  "wb_flush E self w0 =
     (let (c, w1) = check_io E (wb_deadline self) w0 in
      case c of
        Inl e \<Rightarrow> Some (Inl e, w1)
      | Inr _ \<Rightarrow>
          (let (tick_start, w2) = clock E w1;
               (r, w3) = fl E w2 in
           case r of
             Inr _ \<Rightarrow> Some (Inr (), w3)
           | Inl e \<Rightarrow>
               if Tick_marks e then
                 (let (t, w4) = clock E w3 in
                  if t - wb_last_progress self \<ge> wb_limit self then Some (Inl (wb_expired E self), w4)
                  else wb_flush E self (Tick_pace E tick_start w4))
               else Some (Inl e, w3)))"

definition flush_proto :: "'w env \<Rightarrow> WriteBudget \<Rightarrow> 'w \<Rightarrow> ((Error + unit) \<times> 'w) option" where
  "flush_proto E self w = map_option (\<lambda>(r, w). (map_err classify r, w)) (wb_flush E self w)"

section \<open>Every read returns\<close>

text \<open>How a budgeted operation may end without success.\<close>

definition budget_error :: "RequestDeadline \<Rightarrow> io_error \<Rightarrow> duration \<Rightarrow> instant \<Rightarrow> io_error \<Rightarrow> instant \<Rightarrow> bool" where
  "budget_error deadline expired limit since e t \<longleftrightarrow>
     e = rd_error \<and> expires_by deadline t \<or> e = expired \<and> limit \<le> t - since \<or> \<not> Tick_marks e"

definition sb_read_post ::
  "('w \<Rightarrow> instant) \<Rightarrow> ('w \<Rightarrow> bytes) \<Rightarrow> ('w \<Rightarrow> bytes) \<Rightarrow> 'w env \<Rightarrow> SilenceBudget \<Rightarrow> usize \<Rightarrow> 'w \<Rightarrow>
   (io_error + bytes) \<times> SilenceBudget \<times> 'w \<Rightarrow> bool" where
  "sb_read_post T inc out E sb n w res = (case res of (r, s, w1) \<Rightarrow>
     T w \<le> T w1 \<and> out w1 = out w \<and> sb_limit s = sb_limit sb \<and> sb_deadline s = sb_deadline sb
     \<and> (case r of
          Inr d \<Rightarrow> length d \<le> n \<and> inc w = d @ inc w1 \<and> (d = [] \<and> 0 < n \<longrightarrow> inc w = [])
        | Inl e \<Rightarrow> inc w1 = inc w
            \<and> budget_error (sb_deadline sb) (sb_expired E sb) (sb_limit sb) (sb_last_progress sb) e (T w1)))"

context connection
begin

lemma rd_expired_still: "rd_expired E d w = (b, w1) \<Longrightarrow> incoming w1 = incoming w \<and> outgoing w1 = outgoing w"
  by (cases "clock E w") (auto simp: rd_expired_def dest: clock_still split: option.splits)

lemma sb_read_returns:
  "\<exists>res. sb_read E sb n w = Some res \<and> sb_read_post T incoming outgoing E sb n w res"
proof (induction "sb_last_progress sb + sb_limit sb - T w" arbitrary: w rule: less_induct)
  case less
  obtain ex w1 where 1: "rd_expired E (sb_deadline sb) w = (ex, w1)" by (cases "rd_expired E (sb_deadline sb) w")
  obtain ts w2 where 2: "clock E w1 = (ts, w2)" by (cases "clock E w1")
  obtain r w3 where 3: "rd E w2 n = (r, w3)" by (cases "rd E w2 n")
  obtain t w4 where 4: "clock E w3 = (t, w4)" by (cases "clock E w3")
  let ?wp = "Tick_pace E ts w4"
  note tm = rd_expired_time [OF 1] clock_time [OF 2] rd_time [OF 3] clock_time [OF 4]
  note still = rd_expired_still [OF 1] clock_still [OF 2] clock_still [OF 4] pace_still [of ts w4]
  have pt: "ts + TICK_MIN \<le> T ?wp" using tm by (intro pace_time) linarith
  consider "ex" | d where "\<not> ex" "r = Inr d" | e where "\<not> ex" "r = Inl e" "\<not> Tick_marks e"
    | e where "\<not> ex" "r = Inl e" "Tick_marks e" "sb_limit sb \<le> t - sb_last_progress sb"
    | e where "\<not> ex" "r = Inl e" "Tick_marks e" "\<not> sb_limit sb \<le> t - sb_last_progress sb"
    by (cases r) auto
  then show ?case
  proof cases
    case 1
    then have "sb_read E sb n w = Some (Inl rd_error, sb, w1)"
      using \<open>rd_expired E (sb_deadline sb) w = (ex, w1)\<close> by (subst sb_read.simps) simp
    then show ?thesis using tm still rd_expired_iff [OF \<open>rd_expired E (sb_deadline sb) w = (ex, w1)\<close> 1]
      by (simp add: sb_read_post_def budget_error_def)
  next
    case (2 d)
    then have "sb_read E sb n w = Some (Inr d, sb\<lparr> sb_last_progress := t \<rparr>, w4)"
      using 1 \<open>clock E w1 = (ts, w2)\<close> 3 4 by (subst sb_read.simps) simp
    then show ?thesis using tm still src.source_data [OF 3 [unfolded 2]] src.source_eof [of w2 n w3] 3 2 rd_out [OF 3]
      by (auto simp: sb_read_post_def)
  next
    case (3 e)
    then have "sb_read E sb n w = Some (Inl e, sb, w3)"
      using 1 2 \<open>rd E w2 n = (r, w3)\<close> by (subst sb_read.simps) simp
    then show ?thesis using tm still src.source_err [of w2 n e w3] \<open>rd E w2 n = (r, w3)\<close> 3 rd_out [OF \<open>rd E w2 n = (r, w3)\<close>]
      by (simp add: sb_read_post_def budget_error_def)
  next
    case (4 e)
    then have "sb_read E sb n w = Some (Inl (sb_expired E sb), sb, w4)"
      using 1 2 3 \<open>clock E w3 = (t, w4)\<close> by (subst sb_read.simps) simp
    moreover have "sb_limit sb \<le> T w4 - sb_last_progress sb" using 4(4) tm by linarith
    ultimately show ?thesis using tm still src.source_err [of w2 n e w3] 3 4 rd_out [OF 3]
      by (simp add: sb_read_post_def budget_error_def)
  next
    case (5 e)
    then have eq: "sb_read E sb n w = sb_read E sb n ?wp"
      using 1 2 3 4 by (subst sb_read.simps) simp
    have "T w < T ?wp" using tm pt by (simp add: TICK_MIN_def)
    moreover have "t < sb_last_progress sb + sb_limit sb" using 5(4) by linarith
    moreover have "T w \<le> t" using tm by linarith
    ultimately have "sb_last_progress sb + sb_limit sb - T ?wp < sb_last_progress sb + sb_limit sb - T w" by linarith
    from less.hyps [OF this] obtain res where r: "sb_read E sb n ?wp = Some res"
      "sb_read_post T incoming outgoing E sb n ?wp res" by blast
    have "incoming ?wp = incoming w" "outgoing ?wp = outgoing w"
      using still src.source_err [of w2 n e w3] 3 5 rd_out [OF 3] by auto
    then have "sb_read_post T incoming outgoing E sb n w res"
      using r(2) \<open>T w < T ?wp\<close> by (auto simp: sb_read_post_def split: sum.splits)
    then show ?thesis using eq r(1) by auto
  qed
qed

lemma sb_read_exact_returns:
  "length got \<le> need \<Longrightarrow>
   \<exists>r s w1. sb_read_exact E sb need got w = Some (r, s, w1) \<and> T w \<le> T w1 \<and> outgoing w1 = outgoing w
     \<and> (case r of
          Inr d \<Rightarrow> length d = need \<and> (\<exists>x. d = got @ x \<and> incoming w = x @ incoming w1)
        | Inl e \<Rightarrow> (e = io_err UnexpectedEof ''connection closed mid-body'' \<and> length got + length (incoming w) < need
                   \<and> incoming w1 = []) \<or>
                  (\<exists>x. incoming w = x @ incoming w1))"
proof (induction "need - length got" arbitrary: got sb w rule: less_induct)
  case less
  show ?case
  proof (cases "length got < need")
    case True
    obtain r s w1 where s: "sb_read E sb (need - length got) w = Some (r, s, w1)"
      and p: "sb_read_post T incoming outgoing E sb (need - length got) w (r, s, w1)"
      using sb_read_returns [of sb "need - length got" w] by auto
    show ?thesis
    proof (cases r)
      case (Inl e)
      then show ?thesis using True s p by (subst sb_read_exact.simps) (auto simp: sb_read_post_def)
    next
      case (Inr d)
      show ?thesis
      proof (cases "d = []")
        case True
        then show ?thesis using \<open>length got < need\<close> s p Inr by (subst sb_read_exact.simps) (auto simp: sb_read_post_def)
      next
        case False
        have d: "length d \<le> need - length got" "incoming w = d @ incoming w1" "T w \<le> T w1" "outgoing w1 = outgoing w"
          using p Inr by (auto simp: sb_read_post_def)
        have eq: "sb_read_exact E sb need got w = sb_read_exact E s need (got @ d) w1"
          using True s Inr False by (subst sb_read_exact.simps) simp
        have "0 < length d" using False by simp
        then have "need - length (got @ d) < need - length got" "length (got @ d) \<le> need"
          using True d(1) unfolding length_append by linarith+
        from less.hyps [OF this, of s w1] obtain r' s' w2 where
          e: "sb_read_exact E s need (got @ d) w1 = Some (r', s', w2)" "T w1 \<le> T w2" "outgoing w2 = outgoing w1"
          and c: "case r' of
              Inr x \<Rightarrow> length x = need \<and> (\<exists>y. x = (got @ d) @ y \<and> incoming w1 = y @ incoming w2)
            | Inl e \<Rightarrow> (e = io_err UnexpectedEof ''connection closed mid-body''
                   \<and> length (got @ d) + length (incoming w1) < need \<and> incoming w2 = []) \<or>
                  (\<exists>y. incoming w1 = y @ incoming w2)" by blast
        show ?thesis using eq e c d by (cases r') (auto simp: add.assoc)
      qed
    qed
  next
    case False
    then show ?thesis using less.prems by (subst sb_read_exact.simps) simp
  qed
qed

section \<open>Every write returns\<close>

lemma check_io_cases:
  assumes "check_io E d w = (c, w1)"
  shows "T w \<le> T w1" "incoming w1 = incoming w" "outgoing w1 = outgoing w"
    and "c = Inl e \<Longrightarrow> e = rd_error \<and> expires_by d (T w1)"
proof -
  obtain b w2 where b: "rd_expired E d w = (b, w2)" by (cases "rd_expired E d w")
  show "T w \<le> T w1" "incoming w1 = incoming w" "outgoing w1 = outgoing w"
    "c = Inl e \<Longrightarrow> e = rd_error \<and> expires_by d (T w1)"
    using assms rd_expired_time [OF b] rd_expired_still [OF b] rd_expired_iff [OF b]
    by (auto simp: check_io_def b split: if_splits)
qed

lemma write_all_returns:
  "\<exists>r s w1 k. write_all_raw E wb buf off w = Some (r, s, w1) \<and> T w \<le> T w1
     \<and> wb_deadline s = wb_deadline wb \<and> wb_limit s = wb_limit wb
     \<and> outgoing w1 = outgoing w @ take k (drop off buf)
     \<and> (case r of
          Inr _ \<Rightarrow> outgoing w1 = outgoing w @ drop off buf
        | Inl e \<Rightarrow> e = rd_error \<and> expires_by (wb_deadline wb) (T w1) \<or> e = wb_expired E wb \<or> \<not> Tick_marks e)"
proof (induction "(length buf - off, wb_last_progress wb + wb_limit wb - T w)" arbitrary: off wb w
    rule: wf_induct_rule [OF wf_lex_prod [OF wf_less_than wf_less_than]])
  case less: 1
  show ?case
  proof (cases "off < length buf")
    case True
    obtain c w1 where c: "check_io E (wb_deadline wb) w = (c, w1)" by (cases "check_io E (wb_deadline wb) w")
    obtain ts w2 where ts: "clock E w1 = (ts, w2)" by (cases "clock E w1")
    obtain r w3 where r: "wr E w2 (drop off buf) = (r, w3)" by (cases "wr E w2 (drop off buf)")
    obtain t w4 where t: "clock E w3 = (t, w4)" by (cases "clock E w3")
    let ?wp = "Tick_pace E ts w4"
    note tm = check_io_cases(1) [OF c] clock_time [OF ts] wr_time [OF r] clock_time [OF t]
    note still = check_io_cases(3) [OF c] clock_still [OF ts] clock_still [OF t] pace_still [of ts w4]
    have pt: "ts + TICK_MIN \<le> T ?wp" using tm by (intro pace_time) linarith
    consider e where "c = Inl e" | u where "c = Inr u" "r = Inr 0" | u n where "c = Inr u" "r = Inr n" "0 < n"
      | u e where "c = Inr u" "r = Inl e" "\<not> Tick_marks e"
      | u e where "c = Inr u" "r = Inl e" "Tick_marks e" "wb_limit wb \<le> t - wb_last_progress wb"
      | u e where "c = Inr u" "r = Inl e" "Tick_marks e" "\<not> wb_limit wb \<le> t - wb_last_progress wb"
      by (cases c; cases r) auto
    then show ?thesis
    proof cases
      case (1 e)
      then have "write_all_raw E wb buf off w = Some (Inl e, wb, w1)"
        using True c by (subst write_all_raw.simps) simp
      then show ?thesis using tm still check_io_cases(4) [OF c 1]
        by (intro exI [of _ "Inl e"] exI [of _ wb] exI [of _ w1] exI [of _ 0]) simp
    next
      case (2 u)
      then have "write_all_raw E wb buf off w = Some (Inl (io_err WriteZero ''peer accepted no bytes''), wb, w3)"
        using True c ts r by (subst write_all_raw.simps) simp
      moreover have "outgoing w3 = outgoing w" using drn.drain_data [OF r [unfolded 2]] still by simp
      ultimately show ?thesis using tm
        by (intro exI [of _ "Inl (io_err WriteZero ''peer accepted no bytes'')"] exI [of _ wb] exI [of _ w3] exI [of _ 0])
          (simp add: Tick_marks_def io_err_def)
    next
      case (3 u n)
      let ?wb = "wb\<lparr> wb_last_progress := t \<rparr>"
      have eq: "write_all_raw E wb buf off w = write_all_raw E ?wb buf (off + n) w4"
        using True c ts r t 3 by (subst write_all_raw.simps) simp
      have "n \<le> length (drop off buf)" and o: "outgoing w3 = outgoing w2 @ take n (drop off buf)"
        using drn.drain_data [OF r [unfolded 3]] by simp_all
      have "((length buf - (off + n), wb_last_progress ?wb + wb_limit ?wb - T w4),
          (length buf - off, wb_last_progress wb + wb_limit wb - T w)) \<in> less_than <*lex*> less_than"
        using diff_less_mono2 [of off "off + n" "length buf"] 3(3) True by simp
      from less [OF this] obtain r' s w5 k where
        i: "write_all_raw E ?wb buf (off + n) w4 = Some (r', s, w5)" "T w4 \<le> T w5"
        "wb_deadline s = wb_deadline ?wb" "wb_limit s = wb_limit ?wb"
        "outgoing w5 = outgoing w4 @ take k (drop (off + n) buf)"
        and cs: "case r' of Inr _ \<Rightarrow> outgoing w5 = outgoing w4 @ drop (off + n) buf
          | Inl e \<Rightarrow> e = rd_error \<and> expires_by (wb_deadline ?wb) (T w5) \<or> e = wb_expired E ?wb \<or> \<not> Tick_marks e"
        by blast
      have o4: "outgoing w4 = outgoing w @ take n (drop off buf)" using o still by simp
      have d: "drop off buf = take n (drop off buf) @ drop (off + n) buf"
        by (metis append_take_drop_id drop_drop add.commute)
      have tk: "take n (drop off buf) @ take k (drop (off + n) buf) = take (n + k) (drop off buf)"
        by (metis add.commute drop_drop take_add)
      show ?thesis
      proof (intro exI conjI)
        show "write_all_raw E wb buf off w = Some (r', s, w5)" using eq i(1) by simp
        show "outgoing w5 = outgoing w @ take (n + k) (drop off buf)" using i(5) o4 tk by simp
        show "case r' of Inr _ \<Rightarrow> outgoing w5 = outgoing w @ drop off buf
          | Inl e \<Rightarrow> e = rd_error \<and> expires_by (wb_deadline wb) (T w5) \<or> e = wb_expired E wb \<or> \<not> Tick_marks e"
          using cs o4 d by (cases r') (auto simp: wb_expired_def)
      qed (use i tm in simp_all)
    next
      case (4 u e)
      then have "write_all_raw E wb buf off w = Some (Inl e, wb, w3)"
        using True c ts r by (subst write_all_raw.simps) simp
      moreover have "outgoing w3 = outgoing w" using drn.drain_err [OF r [unfolded 4]] still by simp
      ultimately show ?thesis using tm 4
        by (intro exI [of _ "Inl e"] exI [of _ wb] exI [of _ w3] exI [of _ 0]) simp
    next
      case (5 u e)
      then have "write_all_raw E wb buf off w = Some (Inl (wb_expired E wb), wb, w4)"
        using True c ts r t by (subst write_all_raw.simps) simp
      moreover have "outgoing w4 = outgoing w" using drn.drain_err [OF r [unfolded 5(2)]] still by simp
      ultimately show ?thesis using tm
        by (intro exI [of _ "Inl (wb_expired E wb)"] exI [of _ wb] exI [of _ w4] exI [of _ 0]) simp
    next
      case (6 u e)
      have eq: "write_all_raw E wb buf off w = write_all_raw E wb buf off ?wp"
        using True c ts r t 6 by (subst write_all_raw.simps) simp
      have lt: "T w < T ?wp" using tm pt by (simp add: TICK_MIN_def)
      moreover have "t < wb_last_progress wb + wb_limit wb" "T w \<le> t" using 6(4) tm by linarith+
      ultimately have "((length buf - off, wb_last_progress wb + wb_limit wb - T ?wp),
          (length buf - off, wb_last_progress wb + wb_limit wb - T w)) \<in> less_than <*lex*> less_than" by simp
      note ih = less [OF this]
      have o: "outgoing ?wp = outgoing w" using drn.drain_err [OF r [unfolded 6(2)]] still by simp
      show ?thesis using ih unfolding eq o
        by (elim exE conjE) (intro exI conjI, assumption, rule order_trans [OF less_imp_le [OF lt]], assumption+)
    qed
  next
    case False
    then have "write_all_raw E wb buf off w = Some (Inr (), wb, w)" by (subst write_all_raw.simps) simp
    then show ?thesis using False by simp
  qed
qed

lemma flush_returns: "\<exists>r w1. wb_flush E wb w = Some (r, w1) \<and> T w \<le> T w1"
proof (induction "wb_last_progress wb + wb_limit wb - T w" arbitrary: w rule: less_induct)
  case less
  obtain c w1 where c: "check_io E (wb_deadline wb) w = (c, w1)" by (cases "check_io E (wb_deadline wb) w")
  obtain ts w2 where ts: "clock E w1 = (ts, w2)" by (cases "clock E w1")
  obtain r w3 where r: "fl E w2 = (r, w3)" by (cases "fl E w2")
  obtain t w4 where t: "clock E w3 = (t, w4)" by (cases "clock E w3")
  let ?wp = "Tick_pace E ts w4"
  note tm = check_io_cases(1) [OF c] clock_time [OF ts] fl_time [OF r] clock_time [OF t]
  have pt: "ts + TICK_MIN \<le> T ?wp" using tm by (intro pace_time) linarith
  show ?case
  proof (cases "\<exists>u e. c = Inr u \<and> r = Inl e \<and> Tick_marks e \<and> \<not> wb_limit wb \<le> t - wb_last_progress wb")
    case True
    then have "wb_flush E wb w = wb_flush E wb ?wp" using c ts r t by (subst wb_flush.simps) auto
    moreover have lt: "T w < T ?wp" using tm pt by (simp add: TICK_MIN_def)
    moreover have "t < wb_last_progress wb + wb_limit wb" "T w \<le> t" using True tm by linarith+
    ultimately show ?thesis using less.hyps [of ?wp] by fastforce
  next
    case False
    then show ?thesis using c ts r t tm
      by (subst wb_flush.simps) (auto split: sum.splits)
  qed
qed

end

section \<open>Properties\<close>

text \<open>
  C32: a budgeted read always returns. Either it gives the next bytes of the stream, at most
  the buffer's length, or an error, and then it has consumed nothing. A timeout tick of the
  socket is never handed to the caller: an error is the request's deadline, which has then
  passed, the silence budget, which has then been silent for its whole length, or a failure
  of the stream that is not a tick.
\<close>

theorem silence_read_returns:
  assumes "connection E T incoming outgoing"
  shows "\<exists>r sb' w1. sb_read E sb n w = Some (r, sb', w1) \<and> T w \<le> T w1
    \<and> (case r of
         Inr d \<Rightarrow> length d \<le> n \<and> incoming w = d @ incoming w1 \<and> (d = [] \<and> 0 < n \<longrightarrow> incoming w = [])
       | Inl e \<Rightarrow> incoming w1 = incoming w \<and>
           (e = rd_error \<and> expires_by (sb_deadline sb) (T w1)
            \<or> e = sb_expired E sb \<and> sb_limit sb \<le> T w1 - sb_last_progress sb
            \<or> \<not> Tick_marks e))"
proof -
  obtain r sb' w1 where "sb_read E sb n w = Some (r, sb', w1)"
    "sb_read_post T incoming outgoing E sb n w (r, sb', w1)"
    using connection.sb_read_returns [OF assms, of sb n w] by auto
  then show ?thesis by (cases r) (auto simp: sb_read_post_def budget_error_def)
qed

definition sample_world :: "sevent list \<Rightarrow> sworld" where
  "sample_world es = \<lparr> sw_now = 0, sw_script = es, sw_next = [], sw_sent = [], sw_dialled = [] \<rparr>"

theorem silence_read_returns_witness:
  "\<exists>r sb' w1. sb_read scripted \<lparr> sb_limit = 5, sb_last_progress = 0, sb_deadline = None \<rparr> 8
       (sample_world [Fail 3 (io_err WouldBlock []), Fail 3 (io_err WouldBlock []), Arrive 1 65 []]) = Some (r, sb', w1)
     \<and> sw_incoming (sample_world [Fail 3 (io_err WouldBlock []), Fail 3 (io_err WouldBlock []), Arrive 1 65 []]) = [65]
     \<and> (case r of Inl e \<Rightarrow> sw_incoming w1 = [65] | Inr d \<Rightarrow> [65] = d @ sw_incoming w1)"
proof -
  let ?w = "sample_world [Fail 3 (io_err WouldBlock []), Fail 3 (io_err WouldBlock []), Arrive 1 65 []]"
  let ?sb = "\<lparr> sb_limit = 5, sb_last_progress = 0, sb_deadline = None \<rparr>"
  have i: "sw_incoming ?w = [65]" by (simp add: sw_incoming_def sample_world_def)
  show ?thesis
    using silence_read_returns [OF scripted_connection.connection_axioms, of ?sb 8 ?w] unfolding i
    by (elim exE conjE) (intro exI conjI, assumption, simp, simp split: sum.splits)
qed

text \<open>
  C33: a budgeted write always returns, and what the stream has accepted is a prefix of the
  buffer: all of it on success, resumed after every tick exactly where it stopped, with no byte
  lost or sent twice. A tick is never handed to the caller.
\<close>

theorem write_all_exact:
  assumes "connection E T incoming outgoing"
  shows "\<exists>r wb' w1 k. write_all_raw E wb buf 0 w = Some (r, wb', w1)
    \<and> outgoing w1 = outgoing w @ take k buf
    \<and> (case r of
         Inr _ \<Rightarrow> outgoing w1 = outgoing w @ buf
       | Inl e \<Rightarrow> e = rd_error \<and> expires_by (wb_deadline wb) (T w1) \<or> e = wb_expired E wb \<or> \<not> Tick_marks e)"
  using connection.write_all_returns [OF assms, of wb buf 0 w] unfolding drop_0
  by (elim exE conjE) (intro exI conjI, assumption+)

theorem write_all_exact_witness:
  "\<exists>r wb' w1 k. write_all_raw scripted \<lparr> wb_limit = 5, wb_last_progress = 0, wb_deadline = None \<rparr>
       (replicate 40 65) 0 (sample_world []) = Some (r, wb', w1) \<and> sw_sent w1 = take k (replicate 40 65)"
  using write_all_exact [OF scripted_connection.connection_axioms,
      of "\<lparr> wb_limit = 5, wb_last_progress = 0, wb_deadline = None \<rparr>" "replicate 40 65" "sample_world []"]
  by (elim exE conjE) (intro exI conjI, assumption, simp add: sample_world_def)

end
