(* ===== verification/Params.thy ===== *)
theory Params
  imports Tokens Header_Name
begin

text \<open>
  \<^verbatim>\<open>xibalba-client/src/params.rs\<close>: the request parameters one dispatch serializes, the check on
  the headers a caller attaches, and the builder that collects them.
\<close>

section \<open>Definitions\<close>

type_synonym headers = "(bytes \<times> bytes) list"

record RequestParams =
  rp_method :: Method
  rp_path :: bytes
  rp_query :: "bytes option"
  rp_body :: "bytes option"
  rp_extra_headers :: headers
  rp_allow_replay :: bool

definition is_managed :: "bytes \<Rightarrow> bool" where
  "is_managed name =
     (ascii_eq_ignore_case name (bs ''Host'') \<or> ascii_eq_ignore_case name (bs ''Content-Length'')
      \<or> ascii_eq_ignore_case name (bs ''Transfer-Encoding''))"

definition is_repeatable :: "bytes \<Rightarrow> bool" where
  "is_repeatable name = (ascii_eq_ignore_case name (bs ''Cookie'') \<or> ascii_eq_ignore_case name (bs ''Cookie2''))"

definition requests_close :: "RequestParams \<Rightarrow> bool" where
  "requests_close self =
     list_ex (\<lambda>(name, value'). ascii_eq_ignore_case name (bs ''Connection'')
                \<and> contains_token_ignore_case value' (bs ''close'')) (rp_extra_headers self)"

definition names_match :: "bytes \<Rightarrow> bytes \<Rightarrow> bool" where
  "names_match a b = ascii_eq_ignore_case a b"

text \<open>The loop of \<^verbatim>\<open>validate_extra_headers\<close>: \<open>todo\<close> is what is left of \<open>extra_headers\<close>.\<close>

fun validate_extra_loop :: "headers \<Rightarrow> headers \<Rightarrow> SerializeError + unit" where
  "validate_extra_loop extra_headers [] = Inr ()"
| "validate_extra_loop extra_headers ((name, _) # todo) =
     (if is_managed name then Inl DuplicateHeader
      else if length (filter (\<lambda>(other, _). names_match other name) extra_headers) > 1 \<and> \<not> is_repeatable name
      then Inl DuplicateHeader
      else validate_extra_loop extra_headers todo)"

definition validate_extra_headers :: "headers \<Rightarrow> SerializeError + unit" where
  "validate_extra_headers extra_headers = validate_extra_loop extra_headers extra_headers"

record RequestBuilder =
  rb_method :: Method
  rb_path :: bytes
  rb_query :: "bytes option"
  rb_body :: "bytes option"
  rb_extra_headers :: headers
  rb_allow_replay :: bool

definition RequestBuilder_new :: "Method \<Rightarrow> bytes \<Rightarrow> RequestBuilder" where
  "RequestBuilder_new method path =
     \<lparr> rb_method = method, rb_path = path, rb_query = None, rb_body = None, rb_extra_headers = [],
       rb_allow_replay = is_replay_eligible method \<rparr>"

definition builder_allow_replay :: "RequestBuilder \<Rightarrow> bool \<Rightarrow> RequestBuilder" where
  "builder_allow_replay self allow = self\<lparr> rb_allow_replay := allow \<rparr>"

definition builder_header :: "RequestBuilder \<Rightarrow> bytes \<Rightarrow> bytes \<Rightarrow> RequestBuilder" where
  "builder_header self name value' = self\<lparr> rb_extra_headers := rb_extra_headers self @ [(name, value')] \<rparr>"

definition builder_body :: "RequestBuilder \<Rightarrow> bytes \<Rightarrow> RequestBuilder" where
  "builder_body self data = self\<lparr> rb_body := Some data \<rparr>"

definition builder_query :: "RequestBuilder \<Rightarrow> bytes \<Rightarrow> RequestBuilder" where
  "builder_query self q = self\<lparr> rb_query := Some q \<rparr>"

definition into_params :: "RequestBuilder \<Rightarrow> Error + RequestParams" where
  "into_params self =
     (let params =
        \<lparr> rp_method = rb_method self, rp_path = rb_path self, rp_query = rb_query self, rp_body = rb_body self,
          rp_extra_headers = rb_extra_headers self, rp_allow_replay = rb_allow_replay self \<rparr> in
      res_bind (map_err Serialize (validate_extra_headers (rp_extra_headers params))) (\<lambda>_. Inr params))"

section \<open>What the check accepts\<close>

text \<open>
  The names, in lower case, of the headers that may appear once only.
\<close>

definition single_names :: "headers \<Rightarrow> bytes list" where
  "single_names hs = map lower_bytes (filter (\<lambda>n. \<not> is_repeatable n) (map fst hs))"

definition headers_ok :: "headers \<Rightarrow> bool" where
  "headers_ok hs = (list_all (\<lambda>(n, _). \<not> is_managed n) hs \<and> distinct (single_names hs))"

lemma validate_extra_loop_iff:
  "validate_extra_loop all todo = Inr () \<longleftrightarrow>
     (\<forall>(n, v)\<in>set todo. \<not> is_managed n \<and>
        (is_repeatable n \<or> length (filter (\<lambda>(m, _). lower_bytes m = lower_bytes n) all) \<le> 1))"
  by (induction all todo rule: validate_extra_loop.induct)
    (auto simp: names_match_def ascii_eq_ignore_case_iff)

lemma is_repeatable_lower: "lower_bytes m = lower_bytes n \<Longrightarrow> is_repeatable m = is_repeatable n"
  by (simp add: is_repeatable_def ascii_eq_ignore_case_iff)

lemma distinct_iff_count:
  "distinct (map f xs) \<longleftrightarrow> (\<forall>x\<in>set xs. length (filter (\<lambda>y. f y = f x) xs) \<le> 1)"
proof (induction xs)
  case (Cons a xs)
  have fil: "length (filter (\<lambda>y. f y = f a) xs) = 0 \<longleftrightarrow> f a \<notin> f ` set xs"
    by (force simp: filter_empty_conv image_iff)
  show ?case
  proof (cases "f a \<in> f ` set xs")
    case True
    then show ?thesis using fil by auto
  next
    case False
    then have "length (filter (\<lambda>y. f y = f x) (a # xs)) = length (filter (\<lambda>y. f y = f x) xs)"
      if "x \<in> set xs" for x using that by auto
    then show ?thesis using Cons False fil by auto
  qed
qed simp

lemma single_names_distinct_iff:
  "distinct (single_names hs) \<longleftrightarrow>
     (\<forall>(n, v)\<in>set hs. is_repeatable n \<or> length (filter (\<lambda>(m, _). lower_bytes m = lower_bytes n) hs) \<le> 1)"
proof -
  have f: "length (filter (\<lambda>m. lower_bytes m = lower_bytes n) (filter (\<lambda>n. \<not> is_repeatable n) (map fst hs))) =
      length (filter (\<lambda>(m, _). lower_bytes m = lower_bytes n) hs)" if "\<not> is_repeatable n" for n
  proof (induction hs)
    case (Cons h hs)
    then show ?case using is_repeatable_lower [of "fst h" n] that by (cases h) auto
  qed simp
  show ?thesis unfolding single_names_def distinct_iff_count using f by (auto simp: case_prod_beta)
qed

lemma validate_extra_headers_iff: "validate_extra_headers hs = Inr () \<longleftrightarrow> headers_ok hs"
  unfolding validate_extra_headers_def validate_extra_loop_iff headers_ok_def single_names_distinct_iff
  by (auto simp: list_all_iff)

text \<open>
  A builder gives request parameters exactly when no header of it is one the client
  writes itself (\<^verbatim>\<open>Host\<close>, \<^verbatim>\<open>Content-Length\<close>, \<^verbatim>\<open>Transfer-Encoding\<close>) and no name other than the
  cookie headers occurs twice, both up to letter case; the parameters are what was collected,
  and otherwise the error is \<^verbatim>\<open>DuplicateHeader\<close>. By default only an idempotent method may be
  replayed.
\<close>

theorem into_params_checks_headers:
  "into_params b =
     (if list_all (\<lambda>(n, _). \<not> is_managed n) (rb_extra_headers b) \<and> distinct (single_names (rb_extra_headers b))
      then Inr \<lparr> rp_method = rb_method b, rp_path = rb_path b, rp_query = rb_query b, rp_body = rb_body b,
                 rp_extra_headers = rb_extra_headers b, rp_allow_replay = rb_allow_replay b \<rparr>
      else Inl (Serialize DuplicateHeader))
   \<and> (rb_allow_replay (RequestBuilder_new m p) \<longleftrightarrow> m \<notin> {Post, Patch, Connect})"
proof
  have e: "validate_extra_loop hs todo = Inl d \<Longrightarrow> d = DuplicateHeader" for hs todo d
    by (induction hs todo rule: validate_extra_loop.induct) (auto split: if_splits)
  have "validate_extra_headers hs = Inl DuplicateHeader" if "\<not> headers_ok hs" for hs
    using that e validate_extra_headers_iff [of hs]
    by (cases "validate_extra_headers hs") (auto simp: validate_extra_headers_def)
  moreover have "validate_extra_headers hs = Inr ()" if "headers_ok hs" for hs
    using that validate_extra_headers_iff by blast
  ultimately show "into_params b =
     (if list_all (\<lambda>(n, _). \<not> is_managed n) (rb_extra_headers b) \<and> distinct (single_names (rb_extra_headers b))
      then Inr \<lparr> rp_method = rb_method b, rp_path = rb_path b, rp_query = rb_query b, rp_body = rb_body b,
                 rp_extra_headers = rb_extra_headers b, rp_allow_replay = rb_allow_replay b \<rparr>
      else Inl (Serialize DuplicateHeader))"
    unfolding headers_ok_def [symmetric] by (simp add: into_params_def Let_def)
qed (simp add: RequestBuilder_new_def replay_excludes)

end
