(* ===== verification/Reuse.thy ===== *)
theory Reuse
  imports Params
begin

text \<open>
  \<^verbatim>\<open>xibalba-client/src/reuse.rs\<close>: whether a connection may carry another request, from the head
  of the response it just carried.
\<close>

section \<open>Definitions\<close>

record FramingHeaders =
  fh_transfer_encoding :: bool
  fh_content_length :: bool

definition is_ambiguous :: "FramingHeaders \<Rightarrow> Version \<Rightarrow> bool" where
  "is_ambiguous self version =
     (let both_framings = fh_transfer_encoding self \<and> fh_content_length self;
          coding_on_http10 = fh_transfer_encoding self \<and> version = Http10 in
      both_framings \<or> coding_on_http10)"

record HeadSurvey =
  announced_close :: bool
  announced_keep_alive :: bool
  survey_framing :: FramingHeaders

definition HeadSurvey_default :: HeadSurvey where
  "HeadSurvey_default =
     \<lparr> announced_close = False, announced_keep_alive = False,
       survey_framing = \<lparr> fh_transfer_encoding = False, fh_content_length = False \<rparr> \<rparr>"

fun survey_header :: "HeadSurvey \<Rightarrow> bytes \<times> bytes \<Rightarrow> HeadSurvey" where
  "survey_header survey (name, value') =
     (if ascii_eq_ignore_case name (bs ''Connection'') then
        survey\<lparr> announced_close := announced_close survey \<or> contains_token_ignore_case value' (bs ''close''),
                announced_keep_alive := announced_keep_alive survey \<or> contains_token_ignore_case value' (bs ''keep-alive'') \<rparr>
      else if ascii_eq_ignore_case name (bs ''Transfer-Encoding'') then
        survey\<lparr> survey_framing := (survey_framing survey)\<lparr> fh_transfer_encoding := True \<rparr> \<rparr>
      else if ascii_eq_ignore_case name (bs ''Content-Length'') then
        survey\<lparr> survey_framing := (survey_framing survey)\<lparr> fh_content_length := True \<rparr> \<rparr>
      else survey)"

definition HeadSurvey_of :: "headers \<Rightarrow> HeadSurvey" where
  "HeadSurvey_of hs = foldl survey_header HeadSurvey_default hs"

datatype ConnectionReuse = Keep | Close

definition evaluate_reuse :: "Version \<Rightarrow> StatusCode \<Rightarrow> bool \<Rightarrow> headers \<Rightarrow> ConnectionReuse" where
  "evaluate_reuse version status request_closes hs =
     (if request_closes then Close
      else if status = SWITCHING_PROTOCOLS then Close
      else
        let survey = HeadSurvey_of hs in
        if announced_close survey \<or> is_ambiguous (survey_framing survey) version then Close
        else (case version of
                Http11 \<Rightarrow> Keep
              | Http10 \<Rightarrow> if announced_keep_alive survey then Keep else Close))"

definition is_keep :: "ConnectionReuse \<Rightarrow> bool" where
  "is_keep self = (self = Keep)"

section \<open>The meaning of the survey\<close>

definition has_header :: "string \<Rightarrow> headers \<Rightarrow> bool" where
  "has_header n hs = (\<exists>(m, v)\<in>set hs. lower_bytes m = lower_bytes (bs n))"

definition has_connection_token :: "string \<Rightarrow> headers \<Rightarrow> bool" where
  "has_connection_token t hs =
     (\<exists>(m, v)\<in>set hs. lower_bytes m = lower_bytes (bs ''Connection'') \<and> contains_token_ignore_case v (bs t))"

lemma has_header_simps [simp]:
  "\<not> has_header n []"
  "has_header n ((m, v) # hs) \<longleftrightarrow> lower_bytes m = lower_bytes (bs n) \<or> has_header n hs"
  by (simp_all add: has_header_def)

lemma has_connection_token_simps [simp]:
  "\<not> has_connection_token t []"
  "has_connection_token t ((m, v) # hs) \<longleftrightarrow>
     lower_bytes m = lower_bytes (bs ''Connection'') \<and> contains_token_ignore_case v (bs t) \<or> has_connection_token t hs"
  by (simp_all add: has_connection_token_def)

lemma header_names_differ:
  "lower_bytes (bs ''Connection'') \<noteq> lower_bytes (bs ''Transfer-Encoding'')"
  "lower_bytes (bs ''Connection'') \<noteq> lower_bytes (bs ''Content-Length'')"
  "lower_bytes (bs ''Transfer-Encoding'') \<noteq> lower_bytes (bs ''Content-Length'')"
  by (simp_all add: lower_bytes_def bs_def)

lemma survey_fold:
  "foldl survey_header s hs =
     \<lparr> announced_close = announced_close s \<or> has_connection_token ''close'' hs,
       announced_keep_alive = announced_keep_alive s \<or> has_connection_token ''keep-alive'' hs,
       survey_framing =
         \<lparr> fh_transfer_encoding = fh_transfer_encoding (survey_framing s) \<or> has_header ''Transfer-Encoding'' hs,
           fh_content_length = fh_content_length (survey_framing s) \<or> has_header ''Content-Length'' hs \<rparr> \<rparr>"
proof (induction hs arbitrary: s)
  case (Cons h hs)
  obtain n v where h: "h = (n, v)" by (cases h)
  consider "lower_bytes n = lower_bytes (bs ''Connection'')" | "lower_bytes n = lower_bytes (bs ''Transfer-Encoding'')"
    | "lower_bytes n = lower_bytes (bs ''Content-Length'')"
    | "lower_bytes n \<noteq> lower_bytes (bs ''Connection'')" "lower_bytes n \<noteq> lower_bytes (bs ''Transfer-Encoding'')"
      "lower_bytes n \<noteq> lower_bytes (bs ''Content-Length'')" by blast
  then show ?case
    using header_names_differ unfolding h
    by cases (simp_all add: Cons.IH ascii_eq_ignore_case_iff disj_assoc)
qed simp

text \<open>
  C38: a connection is kept exactly when the request did not ask to close it, the response did
  not switch protocols, no \<^verbatim>\<open>Connection\<close> header lists \<^verbatim>\<open>close\<close>, the body is not framed both by
  a transfer coding and by a length, an HTTP/1.0 response carries no transfer coding, and an
  HTTP/1.0 response announced \<^verbatim>\<open>keep-alive\<close>.
\<close>

theorem reuse_meaning:
  "is_keep (evaluate_reuse v s request_closes hs) \<longleftrightarrow>
     \<not> request_closes \<and> s \<noteq> SWITCHING_PROTOCOLS
     \<and> \<not> has_connection_token ''close'' hs
     \<and> \<not> (has_header ''Transfer-Encoding'' hs \<and> (has_header ''Content-Length'' hs \<or> v = Http10))
     \<and> (v = Http10 \<longrightarrow> has_connection_token ''keep-alive'' hs)"
  by (cases v) (auto simp: evaluate_reuse_def is_keep_def Let_def is_ambiguous_def HeadSurvey_of_def
      HeadSurvey_default_def survey_fold)

theorem reuse_meaning_witness:
  "is_keep (evaluate_reuse Http11 (StatusCode 200) False [(bs ''Content-Length'', bs ''0'')])
   \<and> \<not> is_keep (evaluate_reuse Http10 (StatusCode 200) False [])"
  unfolding reuse_meaning
  using header_names_differ by (auto dest: sym)

end
