(* ===== verification/Head_Reader.thy ===== *)
theory Head_Reader
  imports Budgets Header_Range Reuse
begin

text \<open>
  \<^verbatim>\<open>xibalba-client/src/response/head.rs\<close>: reading one response head off the connection. The
  socket is read until the buffer holds a blank line, the head is parsed, interim responses
  are skipped, and the head is kept with the ranges of its headers. The results: scanning only
  the new bytes (and the three before them) finds exactly the first blank line of everything
  read, however the bytes were split; the parser then consumes exactly the bytes up to it; the
  reading always returns; and the headers of the result are the headers that were parsed.
\<close>

section \<open>Definitions\<close>

record HeadData =
  hd_version :: Version
  hd_status :: StatusCode
  hd_buf :: bytes
  hd_ranges :: "HeaderRange list"
  hd_header_count :: usize

definition range_within :: "HeaderRange \<Rightarrow> usize \<Rightarrow> bool" where
  "range_within rng len =
     (let ends_within = (\<lambda>start span. unat (start :: u32) + unat (span :: u32) \<le> len) in
      name_len rng > 0 \<and> ends_within (name_start rng) (name_len rng)
      \<and> ends_within (value_start rng) (value_len rng))"

definition HeadData_new ::
  "Version \<Rightarrow> StatusCode \<Rightarrow> bytes \<Rightarrow> HeaderRange list \<Rightarrow> usize \<Rightarrow> Error + HeadData" where
  "HeadData_new ver st head_buf ranges count =
     (if count > MAX_HEADERS then Inl (Connection HeaderRangeOverflow)
      else if list_ex (\<lambda>rng. \<not> range_within rng (length head_buf)) (take count ranges)
      then Inl (Connection HeaderNotInBuffer)
      else Inr \<lparr> hd_version = ver, hd_status = st, hd_buf = head_buf, hd_ranges = ranges,
                 hd_header_count = count \<rparr>)"

definition hd_headers :: "HeadData \<Rightarrow> headers" where
  "hd_headers self =
     map (\<lambda>r. (slice (hd_buf self) (unat (name_start r)) (unat (name_start r) + unat (name_len r)),
               slice (hd_buf self) (unat (value_start r)) (unat (value_start r) + unat (value_len r))))
       (take (hd_header_count self) (hd_ranges self))"

definition connection_reuse :: "HeadData \<Rightarrow> bool \<Rightarrow> ConnectionReuse" where
  "connection_reuse self request_closes =
     evaluate_reuse (hd_version self) (hd_status self) request_closes (hd_headers self)"

definition MAX_INTERIM_RESPONSES :: usize where
  "MAX_INTERIM_RESPONSES = 8"

abbreviation BLANK :: bytes where "BLANK \<equiv> [CR, LF, CR, LF]"

abbreviation find_blank :: "bytes \<Rightarrow> usize option" where
  "find_blank x \<equiv> position (\<lambda>w. w = BLANK) (windows 4 x)"

partial_function (option) head_end_loop ::
  "'w env \<Rightarrow> usize \<Rightarrow> usize \<Rightarrow> bytes \<Rightarrow> SilenceBudget \<Rightarrow> 'w \<Rightarrow> ((Error + usize) \<times> bytes \<times> SilenceBudget \<times> 'w) option" where
  "head_end_loop E max_head scanned head_acc budget w =
     (let scan_from = scanned - 3 in
      case find_blank (drop scan_from head_acc) of
        Some pos \<Rightarrow>
          (let head_end = scan_from + pos + 4 in
           if head_end > max_head then Some (Inl (Connection HeadTooLarge), head_acc, budget, w)
           else Some (Inr head_end, head_acc, budget, w))
      | None \<Rightarrow>
          if length head_acc > max_head then Some (Inl (Connection HeadTooLarge), head_acc, budget, w)
          else
            Option.bind (sb_read_proto E budget HEAD_BUF_SIZE w) (\<lambda>(r, budget, w).
              case r of
                Inl e \<Rightarrow> Some (Inl e, head_acc, budget, w)
              | Inr d \<Rightarrow>
                  if d = [] then Some (Inl (Connection ConnectionClosed), head_acc, budget, w)
                  else head_end_loop E max_head (length head_acc) (head_acc @ d) budget w))"

definition read_until_head_end ::
  "'w env \<Rightarrow> bytes \<Rightarrow> SilenceBudget \<Rightarrow> usize \<Rightarrow> 'w \<Rightarrow> ((Error + usize) \<times> bytes \<times> SilenceBudget \<times> 'w) option" where
  "read_until_head_end E head_acc budget max_head w = head_end_loop E max_head 0 head_acc budget w"

text \<open>
  What a final head becomes: its ranges, its framing and the head data.
\<close>

definition finish_head ::
  "usize \<Rightarrow> Method \<Rightarrow> bytes \<Rightarrow> ResponseHead \<Rightarrow> Header list \<Rightarrow> (span \<times> span) list \<Rightarrow> Error + HeadData \<times> BodyFraming \<times> usize" where
  "finish_head base request_method head_bytes head hdr_buf spans =
     res_bind (build_ranges (take (header_count head) (header_slices base head_bytes spans))
                 \<lparr> addr = base, contents = head_bytes \<rparr>) (\<lambda>ranges.
     res_bind (map_err Parse (head_headers head hdr_buf)) (\<lambda>hs.
     res_bind (map_err Parse (from_response (status head) request_method hs)) (\<lambda>framing.
     res_bind (HeadData_new (version head) (status head) head_bytes ranges (header_count head)) (\<lambda>head_data.
       Inr (head_data, framing, length head_bytes)))))"

partial_function (option) read_response_loop ::
  "'w env \<Rightarrow> usize \<Rightarrow> Method \<Rightarrow> usize \<Rightarrow> bytes \<Rightarrow> SilenceBudget \<Rightarrow> 'w
   \<Rightarrow> ((Error + HeadData \<times> BodyFraming \<times> usize) \<times> bytes \<times> 'w) option" where
  "read_response_loop E max_head request_method interim_seen head_acc budget w =
     Option.bind (read_until_head_end E head_acc budget max_head w) (\<lambda>(r, head_acc, budget, w).
       case r of
         Inl e \<Rightarrow> Some (Inl e, head_acc, w)
       | Inr head_end \<Rightarrow>
           (case parse_head (take head_end head_acc) (replicate MAX_HEADERS Header_empty) of
              Inl e \<Rightarrow> Some (Inl e, head_acc, w)
            | Inr (head, hdr_buf, spans, consumed) \<Rightarrow>
                if is_informational (status head) \<and> status head \<noteq> SWITCHING_PROTOCOLS then
                  (if interim_seen + 1 > MAX_INTERIM_RESPONSES
                   then Some (Inl (Connection TooManyInterimResponses), head_acc, w)
                   else read_response_loop E max_head request_method (interim_seen + 1) (drop head_end head_acc) budget w)
                else Some (finish_head (buf_addr E) request_method (take head_end head_acc) head hdr_buf spans, head_acc, w)))"

definition read_response ::
  "'w env \<Rightarrow> usize \<Rightarrow> duration \<Rightarrow> RequestDeadline \<Rightarrow> Method \<Rightarrow> 'w
   \<Rightarrow> ((Error + HeadData \<times> BodyFraming \<times> usize) \<times> bytes \<times> 'w) option" where
  "read_response E max_head silence deadline request_method w =
     (let (budget, w) = sb_with_deadline E silence deadline w in
      read_response_loop E max_head request_method 0 [] budget w)"

section \<open>Finding the blank line\<close>

lemma find_blank_eq: "find_blank x = find_subsequence x (BLANK)"
  by (simp add: find_subsequence_def eval_nat_numeral)

lemma find_blank_Some:
  "find_blank x = Some i \<longleftrightarrow> take 4 (drop i x) = BLANK \<and> (\<forall>j<i. take 4 (drop j x) \<noteq> BLANK)"
  unfolding find_blank_eq using find_subsequence_Some_iff [of "BLANK" x i] by (simp add: eval_nat_numeral)

lemma find_blank_None: "find_blank x = None \<longleftrightarrow> (\<forall>i. take 4 (drop i x) \<noteq> BLANK)"
  unfolding find_blank_eq using find_subsequence_None_iff [of "BLANK" x] by (simp add: eval_nat_numeral)

lemma take4_prefix:
  assumes "take 4 (drop i x) = BLANK"
  shows "i + 4 \<le> length x" and "i + 4 \<le> n \<Longrightarrow> take 4 (drop i (take n x)) = BLANK"
proof -
  have "length (take 4 (drop i x)) = 4" using assms by simp
  then show "i + 4 \<le> length x" by simp
  show "i + 4 \<le> n \<Longrightarrow> take 4 (drop i (take n x)) = BLANK"
    using assms by (simp add: drop_take min_def)
qed

text \<open>
  Scanning from three bytes before what is new finds the first blank line of the whole buffer.
\<close>

lemma find_blank_resume:
  assumes "find_blank (take s x) = None"
  shows "find_blank x = map_option (\<lambda>p. s - 3 + p) (find_blank (drop (s - 3) x))"
proof -
  have early: "take 4 (drop i x) \<noteq> BLANK" if "i < s - 3" for i
  proof
    assume "take 4 (drop i x) = BLANK"
    from take4_prefix(2) [OF this, of s] that have "take 4 (drop i (take s x)) = BLANK" by simp
    with assms show False unfolding find_blank_None by blast
  qed
  show ?thesis
  proof (cases "find_blank (drop (s - 3) x)")
    case None
    have "take 4 (drop i x) \<noteq> BLANK" for i
    proof (cases "i < s - 3")
      case False
      then have "drop i x = drop (i - (s - 3)) (drop (s - 3) x)" by simp
      then show ?thesis using None unfolding find_blank_None by metis
    qed (rule early)
    then have "find_blank x = None" unfolding find_blank_None by blast
    then show ?thesis using None by simp
  next
    case (Some p)
    have "take 4 (drop (s - 3 + p) x) = BLANK" using Some by (simp add: find_blank_Some add.commute)
    moreover have "take 4 (drop j x) \<noteq> BLANK" if "j < s - 3 + p" for j
    proof (cases "j < s - 3")
      case False
      then have "drop j x = drop (j - (s - 3)) (drop (s - 3) x)" "j - (s - 3) < p" using that by auto
      then show ?thesis using Some unfolding find_blank_Some by metis
    qed (rule early)
    ultimately have "find_blank x = Some (s - 3 + p)" unfolding find_blank_Some by blast
    then show ?thesis using Some by simp
  qed
qed

lemma find_blank_append_None: "find_blank (x @ y) = None \<Longrightarrow> find_blank x = None"
  unfolding find_blank_None
proof (intro allI notI)
  fix i assume n: "\<forall>i. take 4 (drop i (x @ y)) \<noteq> BLANK" and o: "take 4 (drop i x) = BLANK"
  from take4_prefix(1) [OF o] have "take 4 (drop i (x @ y)) = take 4 (drop i x)" by simp
  with n o show False by metis
qed

context connection
begin

lemma read_proto_returns:
  "\<exists>r s w1. sb_read_proto E sb n w = Some (r, s, w1) \<and> T w \<le> T w1 \<and> outgoing w1 = outgoing w
     \<and> (case r of Inr d \<Rightarrow> length d \<le> n \<and> incoming w = d @ incoming w1 | Inl e \<Rightarrow> incoming w1 = incoming w)"
proof -
  obtain r s w1 where "sb_read E sb n w = Some (r, s, w1)" "sb_read_post T incoming outgoing E sb n w (r, s, w1)"
    using sb_read_returns [of sb n w] by auto
  then show ?thesis by (cases r) (auto simp: sb_read_proto_def sb_read_post_def)
qed

lemma head_end_loop_returns:
  assumes "find_blank (take scanned acc) = None"
  shows "\<exists>r acc' sb' w1 d. head_end_loop E max_head scanned acc sb w = Some (r, acc', sb', w1)
     \<and> T w \<le> T w1 \<and> outgoing w1 = outgoing w \<and> acc' = acc @ d \<and> incoming w = d @ incoming w1
     \<and> (case r of
          Inr e \<Rightarrow> 4 \<le> e \<and> find_blank acc' = Some (e - 4) \<and> e \<le> max_head
        | Inl x \<Rightarrow> x = Connection HeadTooLarge \<or> find_blank acc' = None)
     \<and> length acc' \<le> max (length acc) (max_head + HEAD_BUF_SIZE)"
  using assms
proof (induction "max_head + 1 - length acc" arbitrary: scanned acc sb w rule: less_induct)
  case less
  note res = find_blank_resume [OF less.prems]
  show ?case
  proof (cases "find_blank (drop (scanned - 3) acc)")
    case (Some pos)
    then have "find_blank acc = Some (scanned - 3 + pos)" using res by simp
    then show ?thesis using Some by (subst head_end_loop.simps) (auto simp: Let_def)
  next
    case None
    then have nb: "find_blank acc = None" using res by simp
    show ?thesis
    proof (cases "length acc > max_head")
      case True
      then show ?thesis using None nb by (subst head_end_loop.simps) simp
    next
      case False
      obtain r s w1 where r: "sb_read_proto E sb HEAD_BUF_SIZE w = Some (r, s, w1)" "T w \<le> T w1" "outgoing w1 = outgoing w"
        and c: "case r of Inr d \<Rightarrow> length d \<le> HEAD_BUF_SIZE \<and> incoming w = d @ incoming w1 | Inl e \<Rightarrow> incoming w1 = incoming w"
        using read_proto_returns [of sb HEAD_BUF_SIZE w] by blast
      show ?thesis
      proof (cases "\<exists>d. r = Inr d \<and> d \<noteq> []")
        case True
        then obtain d where d: "r = Inr d" "d \<noteq> []" by blast
        have eq: "head_end_loop E max_head scanned acc sb w = head_end_loop E max_head (length acc) (acc @ d) s w1"
          using None False r(1) d by (subst head_end_loop.simps) simp
        have m: "max_head + 1 - length (acc @ d) < max_head + 1 - length acc" using False d(2) by (cases d) auto
        have p: "find_blank (take (length acc) (acc @ d)) = None" using nb by simp
        from less.hyps [OF m p, of s w1] obtain r' acc' sb' w2 d' where
          i: "head_end_loop E max_head (length acc) (acc @ d) s w1 = Some (r', acc', sb', w2)"
          "T w1 \<le> T w2" "outgoing w2 = outgoing w1" "acc' = (acc @ d) @ d'" "incoming w1 = d' @ incoming w2"
          and cs: "case r' of Inr e \<Rightarrow> 4 \<le> e \<and> find_blank acc' = Some (e - 4) \<and> e \<le> max_head
            | Inl x \<Rightarrow> x = Connection HeadTooLarge \<or> find_blank acc' = None"
          and len: "length acc' \<le> max (length (acc @ d)) (max_head + HEAD_BUF_SIZE)" by blast
        have "length (acc @ d) \<le> max_head + HEAD_BUF_SIZE" using False c d by simp
        then show ?thesis using eq i cs len r c d
          by (intro exI [of _ r'] exI [of _ acc'] exI [of _ sb'] exI [of _ w2] exI [of _ "d @ d'"]) auto
      next
        case e: False
        then have "\<exists>x. head_end_loop E max_head scanned acc sb w = Some (Inl x, acc, s, w1)"
          using None False r(1) by (subst head_end_loop.simps) (cases r; auto)
        then obtain x where "head_end_loop E max_head scanned acc sb w = Some (Inl x, acc, s, w1)" by blast
        moreover have "incoming w1 = incoming w" using c e by (cases r) auto
        ultimately show ?thesis using nb r by (intro exI [of _ "Inl x"] exI [of _ acc] exI [of _ s] exI [of _ w1] exI [of _ "[]"]) auto
      qed
    qed
  qed
qed

end

section \<open>The head that was found\<close>

lemma ends_with_crlf:
  "\<exists>y. CRLF @ lines_text ls = y @ CRLF"
proof (induction ls rule: rev_induct)
  case (snoc l ls)
  then obtain y where "CRLF @ lines_text ls = y @ CRLF" by blast
  obtain nm o1 v o2 where l: "l = (nm, o1, v, o2)" by (cases l) auto
  have "CRLF @ lines_text (ls @ [l]) = (CRLF @ lines_text ls @ nm @ [COLON] @ o1 @ v @ o2) @ CRLF"
    by (simp add: l lines_text_def line_text_def header_text_def)
  then show ?case by blast
qed auto

lemma head_text_blank:
  "4 \<le> length (head_text ver st r ls) \<and>
   take 4 (drop (length (head_text ver st r ls) - 4) (head_text ver st r ls)) = BLANK"
proof -
  obtain y where "CRLF @ lines_text ls = y @ CRLF" using ends_with_crlf by blast
  then have "head_text ver st r ls = (status_text ver st r @ y) @ BLANK"
    by (simp add: head_text_def)
  then show ?thesis by simp
qed

lemma parse_head_consumes_all:
  assumes "find_blank acc = Some (e - 4)" "4 \<le> e" "parse_head (take e acc) slots = Inr (h, slots', spans, n)"
  shows "n = e" and "e \<le> length acc"
proof -
  show e: "e \<le> length acc" using assms(1,2) take4_prefix(1) [of "e - 4" acc] by (simp add: find_blank_Some)
  obtain ver st r ls where t: "take e acc = head_text ver st r ls @ drop n (take e acc)"
    "n = length (head_text ver st r ls)"
    using parse_head_sound [OF assms(3)] by metis
  have "take n (take e acc) = head_text ver st r ls" using t by (metis append_eq_conv_conj)
  moreover have n: "n \<le> e" using arg_cong [OF t(1), of length] t(2) e by simp
  ultimately have "take n acc = head_text ver st r ls" by (simp add: min_def)
  then have "take 4 (drop (n - 4) (take n acc)) = BLANK" "4 \<le> n" using head_text_blank t(2) by metis+
  then have "take 4 (drop (n - 4) acc) = BLANK" by (simp add: drop_take)
  then have "\<not> n - 4 < e - 4" using assms(1) unfolding find_blank_Some by blast
  then show "n = e" using n \<open>4 \<le> n\<close> by simp
qed

lemma hd_headers_ranges:
  "hd_headers h = map (\<lambda>r. (range_name (hd_buf h) r, range_value (hd_buf h) r)) (take (hd_header_count h) (hd_ranges h))"
  by (simp add: hd_headers_def range_name_def range_value_def slice_def)

text \<open>The headers as the parser wrote them, as pairs of byte strings.\<close>

definition header_pairs :: "Header list \<Rightarrow> headers" where
  "header_pairs hs = map (\<lambda>f. (name_as_bytes (hname f), hvalue f)) hs"

lemma range_name_length:
  assumes "range_name b r = x" "x \<noteq> []"
  shows "name_len r > 0"
proof -
  have "unat (name_len r) \<noteq> 0" using assms by (auto simp: range_name_def)
  then show ?thesis by (simp add: unat_gt_0 word_gt_0)
qed

text \<open>
  What \<open>finish_head\<close> gives for a parsed head: its version and status, and its headers.
\<close>

lemma finish_head_sound:
  assumes "parse_head b (replicate MAX_HEADERS Header_empty) = Inr (h, slots, spans, n)"
    and "finish_head base m b h slots spans = Inr (hdata, framing, e)"
  shows "hd_version hdata = version h \<and> hd_status hdata = status h \<and> hd_buf hdata = b
    \<and> hd_headers hdata = header_pairs (take (header_count h) slots)
    \<and> from_response (status h) m (take (header_count h) slots) = Inr framing \<and> e = length b"
proof -
  have l: "take (header_count h) (header_slices base b spans) = header_slices base b spans"
    using parsed_slices(3) [OF assms(1), of base] by simp
  from assms(2) obtain rs where rs: "build_ranges (header_slices base b spans) \<lparr> addr = base, contents = b \<rparr> = Inr rs"
    and f: "from_response (status h) m (take (header_count h) slots) = Inr framing"
    and d: "HeadData_new (version h) (status h) b rs (header_count h) = Inr hdata" and e: "e = length b"
    unfolding finish_head_def l by (auto simp: res_simps head_headers_def split: if_splits)
  from d have hdata: "hdata = \<lparr> hd_version = version h, hd_status = status h, hd_buf = b, hd_ranges = rs,
      hd_header_count = header_count h \<rparr>"
    by (auto simp: HeadData_new_def split: if_splits)
  show ?thesis
    using parsed_ranges_sound [OF assms(1) rs] f e by (simp add: hdata hd_headers_ranges header_pairs_def)
qed

text \<open>Interim heads: what the loop skips, given the bytes.\<close>

definition interim_head :: "bytes \<Rightarrow> bool" where
  "interim_head x = (\<exists>h slots spans. parse_head x (replicate MAX_HEADERS Header_empty) = Inr (h, slots, spans, length x)
     \<and> is_informational (status h) \<and> status h \<noteq> SWITCHING_PROTOCOLS)"

definition read_response_post ::
  "usize \<Rightarrow> Method \<Rightarrow> usize \<Rightarrow> bytes \<Rightarrow> bytes \<Rightarrow> bytes \<Rightarrow> (Error + HeadData \<times> BodyFraming \<times> usize) \<Rightarrow> bool" where
  "read_response_post max_head m interim_left stream acc rest r =
     (\<exists>skipped. stream = concat skipped @ acc @ rest \<and> list_all interim_head skipped \<and> length skipped \<le> interim_left
      \<and> (case r of
           Inl _ \<Rightarrow> True
         | Inr (hdata, framing, e) \<Rightarrow>
             (\<exists>h slots spans. parse_head (take e acc) (replicate MAX_HEADERS Header_empty) = Inr (h, slots, spans, e)
                \<and> e \<le> max_head \<and> e \<le> length acc
                \<and> \<not> (is_informational (status h) \<and> status h \<noteq> SWITCHING_PROTOCOLS)
                \<and> hd_version hdata = version h \<and> hd_status hdata = status h \<and> hd_buf hdata = take e acc
                \<and> hd_headers hdata = header_pairs (take (header_count h) slots)
                \<and> from_response (status h) m (take (header_count h) slots) = Inr framing)))"

context connection
begin

lemma read_response_loop_returns:
  assumes "seen \<le> MAX_INTERIM_RESPONSES"
  shows "\<exists>r acc' w1. read_response_loop E max_head m seen acc sb w = Some (r, acc', w1)
     \<and> T w \<le> T w1 \<and> outgoing w1 = outgoing w
     \<and> read_response_post max_head m (MAX_INTERIM_RESPONSES - seen) (acc @ incoming w) acc' (incoming w1) r"
  using assms
proof (induction "MAX_INTERIM_RESPONSES - seen" arbitrary: seen acc sb w rule: less_induct)
  case less
  have "find_blank (take 0 acc) = None" by (simp add: windows_def)
  from head_end_loop_returns [OF this, of max_head sb w]
  obtain r acc' sb' w1 d where l: "read_until_head_end E acc sb max_head w = Some (r, acc', sb', w1)"
    and t: "T w \<le> T w1" "outgoing w1 = outgoing w" and a: "acc' = acc @ d" "incoming w = d @ incoming w1"
    and c: "case r of Inr e \<Rightarrow> 4 \<le> e \<and> find_blank acc' = Some (e - 4) \<and> e \<le> max_head
        | Inl x \<Rightarrow> x = Connection HeadTooLarge \<or> find_blank acc' = None"
    by (auto simp: read_until_head_end_def)
  have stop: "read_response_post max_head m k (acc @ incoming w) acc' (incoming w1) (Inl x)" for k x
    unfolding read_response_post_def using a by (intro exI [of _ "[]"]) simp
  show ?case
  proof (cases r)
    case (Inl x)
    then show ?thesis using l t stop [of _ x] by (subst read_response_loop.simps) simp
  next
    case (Inr e)
    note e = c [unfolded Inr sum.case]
    show ?thesis
    proof (cases "parse_head (take e acc') (replicate MAX_HEADERS Header_empty)")
      case (Inl x)
      then show ?thesis using l t Inr stop [of _ x] \<open>r = Inr e\<close> by (subst read_response_loop.simps) simp
    next
      case (Inr p)
      obtain h slots spans n where p: "p = (h, slots, spans, n)" by (cases p) auto
      note ph = Inr [unfolded p]
      have n: "n = e" "e \<le> length acc'" using parse_head_consumes_all [OF _ _ ph] e by blast+
      show ?thesis
      proof (cases "is_informational (status h) \<and> status h \<noteq> SWITCHING_PROTOCOLS")
        case False
        let ?f = "finish_head (buf_addr E) m (take e acc') h slots spans"
        have "read_response_loop E max_head m seen acc sb w = Some (?f, acc', w1)"
          using l \<open>r = Inr e\<close> ph False by (subst read_response_loop.simps) auto
        moreover have "read_response_post max_head m (MAX_INTERIM_RESPONSES - seen) (acc @ incoming w) acc' (incoming w1) ?f"
        proof (cases ?f)
          case (Inl x)
          then show ?thesis using stop by simp
        next
          case (Inr q)
          obtain hdata fr e' where q: "q = (hdata, fr, e')" by (cases q) auto
          note s = finish_head_sound [OF ph Inr [unfolded q]]
          have "e' = e" using s n(2) by simp
          then show ?thesis unfolding Inr q read_response_post_def using a s ph n e False
            by (intro exI [of _ "[]"]) auto
        qed
        ultimately show ?thesis using t by auto
      next
        case True
        show ?thesis
        proof (cases "seen + 1 > MAX_INTERIM_RESPONSES")
          case over: True
          then show ?thesis using l t \<open>r = Inr e\<close> ph True stop by (subst read_response_loop.simps) auto
        next
          case under: False
          have eq: "read_response_loop E max_head m seen acc sb w =
              read_response_loop E max_head m (seen + 1) (drop e acc') sb' w1"
            using l \<open>r = Inr e\<close> ph True under by (subst read_response_loop.simps) auto
          have "MAX_INTERIM_RESPONSES - (seen + 1) < MAX_INTERIM_RESPONSES - seen" "seen + 1 \<le> MAX_INTERIM_RESPONSES"
            using under by auto
          from less.hyps [OF this, of "drop e acc'" sb' w1] obtain r2 acc2 w2 where
            i: "read_response_loop E max_head m (seen + 1) (drop e acc') sb' w1 = Some (r2, acc2, w2)"
              "T w1 \<le> T w2" "outgoing w2 = outgoing w1"
              "read_response_post max_head m (MAX_INTERIM_RESPONSES - (seen + 1)) (drop e acc' @ incoming w1) acc2 (incoming w2) r2"
            by blast
          from i(4) obtain sk where sk: "drop e acc' @ incoming w1 = concat sk @ acc2 @ incoming w2"
            "list_all interim_head sk" "length sk \<le> MAX_INTERIM_RESPONSES - (seen + 1)"
            and rest: "case r2 of Inl _ \<Rightarrow> True
              | Inr (hdata, framing, e) \<Rightarrow>
                 (\<exists>h slots spans. parse_head (take e acc2) (replicate MAX_HEADERS Header_empty) = Inr (h, slots, spans, e)
                \<and> e \<le> max_head \<and> e \<le> length acc2
                \<and> \<not> (is_informational (status h) \<and> status h \<noteq> SWITCHING_PROTOCOLS)
                \<and> hd_version hdata = version h \<and> hd_status hdata = status h \<and> hd_buf hdata = take e acc2
                \<and> hd_headers hdata = header_pairs (take (header_count h) slots)
                \<and> from_response (status h) m (take (header_count h) slots) = Inr framing)"
            unfolding read_response_post_def by blast
          have "interim_head (take e acc')" unfolding interim_head_def using ph True n by auto
          moreover have "acc @ incoming w = take e acc' @ drop e acc' @ incoming w1"
            using a append_take_drop_id [of e acc'] by (metis append.assoc)
          ultimately have "read_response_post max_head m (MAX_INTERIM_RESPONSES - seen) (acc @ incoming w) acc2 (incoming w2) r2"
            unfolding read_response_post_def using sk rest under
            by (intro exI [of _ "take e acc' # sk"]) auto
          then show ?thesis using eq i t by auto
        qed
      qed
    qed
  qed
qed

lemma read_response_returns:
  "\<exists>r acc w1. read_response E max_head silence deadline m w = Some (r, acc, w1)
     \<and> T w \<le> T w1 \<and> outgoing w1 = outgoing w
     \<and> read_response_post max_head m MAX_INTERIM_RESPONSES (incoming w) acc (incoming w1) r"
proof -
  obtain t w0 where c: "clock E w = (t, w0)" by (cases "clock E w")
  let ?sb = "\<lparr> sb_limit = silence, sb_last_progress = t, sb_deadline = deadline \<rparr>"
  have "read_response E max_head silence deadline m w = read_response_loop E max_head m 0 [] ?sb w0"
    by (simp add: read_response_def sb_with_deadline_def c)
  then show ?thesis
    using read_response_loop_returns [of 0 max_head m "[]" ?sb w0] clock_time [OF c] clock_still [OF c] by fastforce
qed

end

section \<open>Properties\<close>

text \<open>
  The search for the end of a head is independent of how the bytes arrive. It always
  returns; on success the end is just past the first blank line of all that was read, and
  within the limit, although each round scans only the new bytes and the three before them; a
  head within the limit is never refused because body bytes came with it; and the buffer never
  grows past the limit by more than one read.
\<close>

theorem head_end_found_exactly:
  assumes "connection E T incoming outgoing"
  shows "\<exists>r acc' sb' w1 d. read_until_head_end E acc sb max_head w = Some (r, acc', sb', w1)
     \<and> acc' = acc @ d \<and> incoming w = d @ incoming w1
     \<and> (case r of
          Inr e \<Rightarrow> 4 \<le> e \<and> find_blank acc' = Some (e - 4) \<and> e \<le> max_head
        | Inl x \<Rightarrow> x = Connection HeadTooLarge \<or> find_blank acc' = None)
     \<and> length acc' \<le> max (length acc) (max_head + HEAD_BUF_SIZE)"
proof -
  have "find_blank (take 0 acc) = None" by (simp add: windows_def)
  from connection.head_end_loop_returns [OF assms this, of max_head sb w]
  show ?thesis unfolding read_until_head_end_def by blast
qed

theorem head_end_found_exactly_witness:
  "\<exists>r acc' sb' w1. read_until_head_end scripted [] \<lparr> sb_limit = 5, sb_last_progress = 0, sb_deadline = None \<rparr> 64
       (sample_world [Arrive 1 65 [CR, LF], Arrive 1 CR [LF, 66]]) = Some (r, acc', sb', w1)
     \<and> (\<forall>e. r = Inr e \<longrightarrow> find_blank acc' = Some (e - 4))"
  using head_end_found_exactly [OF scripted_connection.connection_axioms, of "[]"
      "\<lparr> sb_limit = 5, sb_last_progress = 0, sb_deadline = None \<rparr>" 64
      "sample_world [Arrive 1 65 [CR, LF], Arrive 1 CR [LF, 66]]"]
  by (elim exE conjE) (intro exI conjI, assumption, auto)

text \<open>
  C31: reading a response always returns. What it consumed of the stream is at most eight
  interim heads followed by the buffer. On success the buffer begins with a head that parses
  and ends exactly at the end that was found (the assertion in the code holds), within the
  limit; the status is final (a 101 is, other 1xx are not); version, status and headers of the
  result are those of the head, in order, and the framing is the one derived from them.
\<close>

theorem read_response_correct:
  assumes "connection E T incoming outgoing"
  shows "\<exists>r acc w1. read_response E max_head silence deadline m w = Some (r, acc, w1)
     \<and> outgoing w1 = outgoing w
     \<and> read_response_post max_head m MAX_INTERIM_RESPONSES (incoming w) acc (incoming w1) r"
  using connection.read_response_returns [OF assms, of max_head silence deadline m w] by blast

theorem read_response_correct_witness:
  "\<exists>r acc w1. read_response scripted 64 5 None Get (sample_world [Arrive 1 65 []]) = Some (r, acc, w1)
     \<and> sw_sent w1 = []"
  using read_response_correct [OF scripted_connection.connection_axioms, of 64 5 None Get "sample_world [Arrive 1 65 []]"]
  by (elim exE conjE) (intro exI conjI, assumption, simp add: sample_world_def)

end
