(* ===== verification/Body_Collector.thy ===== *)
theory Body_Collector
  imports Head_Reader Chunked_Session
begin

text \<open>
  \<^verbatim>\<open>xibalba-client/src/body/mod.rs\<close> and \<^verbatim>\<open>body/collect.rs\<close>: the reader of a buffered body, and
  the collector that reads a whole body off the connection by its framing, within the size
  limit, and says whether the connection can be reused. A panic of the decoder would be \<open>None\<close>
  as well as a loop that does not return; the results show that there is neither.
\<close>

section \<open>The buffered body\<close>

record BodyReader =
  br_data :: bytes
  br_pos :: usize

definition BodyReader_new :: "bytes \<Rightarrow> BodyReader" where
  "BodyReader_new data = \<lparr> br_data = data, br_pos = 0 \<rparr>"

definition br_read :: "BodyReader \<Rightarrow> usize \<Rightarrow> (io_error + bytes) \<times> BodyReader" where
  "br_read self buf_len =
     (let remaining = drop (br_pos self) (br_data self);
          n = min (length remaining) buf_len in
      (Inr (take n remaining), self\<lparr> br_pos := br_pos self + n \<rparr>))"

definition br_read_to_end :: "BodyReader \<Rightarrow> bytes \<Rightarrow> bytes \<times> (io_error + usize) \<times> BodyReader" where
  "br_read_to_end self buf =
     (let remaining = drop (br_pos self) (br_data self) in
      (buf @ remaining, Inr (length remaining), self\<lparr> br_pos := length (br_data self) \<rparr>))"

text \<open>The in-memory body keeps the promises of a \<^verbatim>\<open>Read\<close>.\<close>

definition br_left :: "BodyReader \<Rightarrow> bytes" where
  "br_left self = drop (br_pos self) (br_data self)"

lemma take_drop_at: "take n (drop p x) @ drop (p + n) x = drop p x"
  by (metis add.commute append_take_drop_id drop_drop)

interpretation body_reader_source: byte_source br_read br_left
  by unfold_locales (auto simp: br_read_def br_left_def Let_def min_def take_drop_at split: if_splits)

lemma br_read_to_end_left: "fst (br_read_to_end self buf) = buf @ br_left self"
  by (simp add: br_read_to_end_def br_left_def)

section \<open>The collector\<close>

record BodyCollector =
  bc_max_body :: usize
  bc_budget :: SilenceBudget
  bc_reusable :: bool

definition bc_with_deadline :: "'w env \<Rightarrow> usize \<Rightarrow> duration \<Rightarrow> RequestDeadline \<Rightarrow> 'w \<Rightarrow> BodyCollector \<times> 'w" where
  "bc_with_deadline E max_body silence deadline w =
     (let (budget, w) = sb_with_deadline E silence deadline w in
      (\<lparr> bc_max_body = max_body, bc_budget = budget, bc_reusable = True \<rparr>, w))"

definition bc_read_content_length ::
  "'w env \<Rightarrow> BodyCollector \<Rightarrow> u64 \<Rightarrow> bytes \<Rightarrow> 'w \<Rightarrow> ((Error + bytes) \<times> BodyCollector \<times> 'w) option" where
  "bc_read_content_length E self len tail w =
     (case usize_try_from len of
        None \<Rightarrow> Some (Inl (Connection ContentLengthOverflow), self, w)
      | Some len \<Rightarrow>
          if len > bc_max_body self then Some (Inl (Connection BodyTooLarge), self, w)
          else
            let self = self\<lparr> bc_reusable := length tail \<le> len \<rparr>;
                from_tail = min (length tail) len;
                body = take from_tail tail in
            if length body < len then
              map_option (\<lambda>(r, budget, w).
                  (case r of Inl e \<Rightarrow> Inl e | Inr d \<Rightarrow> Inr (body @ d), self\<lparr> bc_budget := budget \<rparr>, w))
                (sb_read_exact_proto E (bc_budget self) (len - from_tail) w)
            else Some (Inr body, self, w))"

text \<open>
  One pass of a decoding loop ends the function with a result and the new \<^verbatim>\<open>reusable\<close>, or breaks
  out of the loop with the decoder and the body so far.
\<close>

datatype flow = Return "Error + bytes" bool | Break ChunkedDecoder bytes

text \<open>The first loop, over the bytes that came with the head.\<close>

partial_function (option) tail_loop :: "usize \<Rightarrow> ChunkedDecoder \<Rightarrow> bytes \<Rightarrow> bytes \<Rightarrow> flow option" where
  "tail_loop max_body decoder body input =
     Option.bind (decode decoder input (replicate HEAD_BUF_SIZE 0)) (\<lambda>(decoder, decode_buf, result, consumed).
       let input = drop consumed input in
       case result of
         Data n \<Rightarrow>
           (let body = body @ take n decode_buf in
            if length body > max_body then Some (Return (Inl (Connection BodyTooLarge)) True)
            else if is_done decoder then Some (Return (Inr body) (input = []))
            else tail_loop max_body decoder body input)
       | DecodeDone \<Rightarrow> Some (Return (Inr body) (input = []))
       | NeedMore \<Rightarrow> Some (Break decoder body)
       | DecodeError e \<Rightarrow> Some (Return (Inl (Parse e)) True))"

text \<open>The inner loop, over what one read gave.\<close>

partial_function (option) raw_loop :: "usize \<Rightarrow> ChunkedDecoder \<Rightarrow> bytes \<Rightarrow> bytes \<Rightarrow> flow option" where
  "raw_loop max_body decoder body raw =
     (if raw \<noteq> [] then
        Option.bind (decode decoder raw (replicate HEAD_BUF_SIZE 0)) (\<lambda>(decoder, decode_buf, result, consumed).
          let raw = drop consumed raw in
          case result of
            Data dn \<Rightarrow>
              (let body = body @ take dn decode_buf in
               if length body > max_body then Some (Return (Inl (Connection BodyTooLarge)) True)
               else if is_done decoder then Some (Return (Inr body) (raw = []))
               else raw_loop max_body decoder body raw)
          | DecodeDone \<Rightarrow> Some (Return (Inr body) (raw = []))
          | NeedMore \<Rightarrow> Some (Break decoder body)
          | DecodeError e \<Rightarrow> Some (Return (Inl (Parse e)) True))
      else Some (Break decoder body))"

partial_function (option) chunk_loop ::
  "'w env \<Rightarrow> usize \<Rightarrow> ChunkedDecoder \<Rightarrow> bytes \<Rightarrow> SilenceBudget \<Rightarrow> 'w
   \<Rightarrow> ((Error + bytes) \<times> bool \<times> SilenceBudget \<times> 'w) option" where
  "chunk_loop E max_body decoder body budget w =
     Option.bind (sb_read_proto E budget HEAD_BUF_SIZE w) (\<lambda>(r, budget, w).
       case r of
         Inl e \<Rightarrow> Some (Inl e, True, budget, w)
       | Inr raw \<Rightarrow>
           if raw = [] then Some (Inl (Connection ConnectionClosed), True, budget, w)
           else
             Option.bind (raw_loop max_body decoder body raw) (\<lambda>f.
               case f of
                 Return res reusable \<Rightarrow> Some (res, reusable, budget, w)
               | Break decoder body \<Rightarrow> chunk_loop E max_body decoder body budget w))"

definition bc_read_chunked ::
  "'w env \<Rightarrow> BodyCollector \<Rightarrow> bytes \<Rightarrow> 'w \<Rightarrow> ((Error + bytes) \<times> BodyCollector \<times> 'w) option" where
  "bc_read_chunked E self tail w =
     Option.bind (tail_loop (bc_max_body self) ChunkedDecoder_new [] tail) (\<lambda>f.
       case f of
         Return res reusable \<Rightarrow> Some (res, self\<lparr> bc_reusable := reusable \<rparr>, w)
       | Break decoder body \<Rightarrow>
           map_option (\<lambda>(res, reusable, budget, w). (res, self\<lparr> bc_reusable := reusable, bc_budget := budget \<rparr>, w))
             (chunk_loop E (bc_max_body self) decoder body (bc_budget self) w))"

partial_function (option) close_loop ::
  "'w env \<Rightarrow> usize \<Rightarrow> bytes \<Rightarrow> SilenceBudget \<Rightarrow> 'w \<Rightarrow> ((Error + bytes) \<times> SilenceBudget \<times> 'w) option" where
  "close_loop E max_body body budget w =
     Option.bind (sb_read_proto E budget HEAD_BUF_SIZE w) (\<lambda>(r, budget, w).
       case r of
         Inl e \<Rightarrow> Some (Inl e, budget, w)
       | Inr raw \<Rightarrow>
           if raw = [] then Some (Inr body, budget, w)
           else
             let body = body @ raw in
             if length body > max_body then Some (Inl (Connection BodyTooLarge), budget, w)
             else close_loop E max_body body budget w)"

definition bc_read_until_close ::
  "'w env \<Rightarrow> BodyCollector \<Rightarrow> bytes \<Rightarrow> 'w \<Rightarrow> ((Error + bytes) \<times> BodyCollector \<times> 'w) option" where
  "bc_read_until_close E self tail w =
     (if length tail > bc_max_body self then Some (Inl (Connection BodyTooLarge), self, w)
      else map_option (\<lambda>(res, budget, w). (res, self\<lparr> bc_budget := budget \<rparr>, w))
             (close_loop E (bc_max_body self) tail (bc_budget self) w))"

definition bc_read ::
  "'w env \<Rightarrow> BodyCollector \<Rightarrow> BodyFraming \<Rightarrow> bytes \<Rightarrow> 'w \<Rightarrow> ((Error + bytes) \<times> BodyCollector \<times> 'w) option" where
  "bc_read E self framing tail w =
     (let self = self\<lparr> bc_reusable := True \<rparr> in
      case framing of
        NoBody \<Rightarrow> Some (Inr [], self\<lparr> bc_reusable := (tail = []) \<rparr>, w)
      | ContentLength len \<Rightarrow> bc_read_content_length E self len tail w
      | Chunked \<Rightarrow> bc_read_chunked E self tail w
      | UntilClose \<Rightarrow> bc_read_until_close E (self\<lparr> bc_reusable := False \<rparr>) tail w)"

section \<open>The body of a stream\<close>

text \<open>
  Reference: the body that a framing cuts out of a stream, with the bytes after it. A
  close-delimited body is the whole stream.
\<close>

definition framed_body :: "BodyFraming \<Rightarrow> bytes \<Rightarrow> (bytes \<times> bytes) option" where
  "framed_body framing stream =
     (case framing of
        NoBody \<Rightarrow> Some ([], stream)
      | ContentLength len \<Rightarrow>
          if unat len \<le> length stream then Some (take (unat len) stream, drop (unat len) stream) else None
      | Chunked \<Rightarrow> (case ref_run ChunkedDecoder_new stream of (body, Complete rest) \<Rightarrow> Some (body, rest) | _ \<Rightarrow> None)
      | UntilClose \<Rightarrow> Some (stream, []))"

subsection \<open>Decoding loops\<close>

lemma steps_length: "steps d xs = Some (d', out) \<Longrightarrow> length out \<le> length xs"
proof (induction xs arbitrary: d out)
  case (Cons b xs)
  then obtain d2 o2 o3 where s: "chunk_step d b = Next d2 o2" "steps d2 xs = Some (d', o3)" "out = o2 @ o3"
    by (auto split: ByteOutcome.splits)
  have l: "loop_outcome p = Next a b \<Longrightarrow> b = []" for p a b
    by (cases p rule: loop_outcome.cases) auto
  have "length o2 \<le> 1"
    using s(1) by (auto simp: chunk_step_def split: if_splits dest: l)
  then show ?case using Cons.IH [OF s(2)] s(3) by simp
qed simp

lemma HEAD_BUF_pos: "0 < HEAD_BUF_SIZE"
  by (simp add: HEAD_BUF_SIZE_def)

lemma tracked_prefix:
  assumes "tracked ChunkedDecoder_new stream d s body"
  shows "length body \<le> length (fst (ref_run ChunkedDecoder_new stream))"
proof -
  obtain c d1 where "stream = c @ s" "steps ChunkedDecoder_new c = Some (d1, body)"
    using assms by (auto simp: tracked_def)
  then show ?thesis using ref_run_steps [of ChunkedDecoder_new c d1 body s] by simp
qed

lemma tracked_exhausted:
  assumes "tracked ChunkedDecoder_new stream d [] body" "cstate d \<noteq> Done"
  shows "snd (ref_run ChunkedDecoder_new stream) = Exhausted"
proof -
  obtain c d1 where "stream = c @ []" "steps ChunkedDecoder_new c = Some (d1, body)" "d = d1"
    using assms(1) by (auto simp: tracked_def rejects_def)
  then show ?thesis using ref_run_steps [of ChunkedDecoder_new c d1 body "[]"] assms(2) by simp
qed

lemma tracked_done:
  assumes "tracked ChunkedDecoder_new stream d s body" "cstate d = Done"
  shows "ref_run ChunkedDecoder_new stream = (body, Complete s)"
proof -
  obtain c d1 where c: "stream = c @ s" "steps ChunkedDecoder_new c = Some (d1, body)"
    and d: "d = d1 \<or> (\<exists>e. cstate d = Failed e \<and> rejects d1 s e)"
    using assms(1) by (auto simp: tracked_def)
  then have "d = d1" using assms(2) by auto
  then show ?thesis using c ref_run_steps [OF c(2), of s] ref_run_done assms(2) by simp
qed

text \<open>
  What one call of \<open>decode\<close> on a window of the stream means for a tracked caller.
\<close>

lemma tracked_decode:
  assumes t: "tracked ChunkedDecoder_new (stream :: bytes) d (win @ rest) body" and room: "0 < length outb"
  obtains d' buf res n where "decode d win outb = Some (d', buf, res, n)" "n \<le> length win" "length buf = length outb"
    "\<And>m. res = Data m \<Longrightarrow> 0 < n \<and> 0 < m \<and> m \<le> length buf \<and> tracked ChunkedDecoder_new stream d' (drop n win @ rest) (body @ take m buf)"
    "res = NeedMore \<Longrightarrow> n = length win \<and> tracked ChunkedDecoder_new stream d' rest body \<and> cstate d' \<noteq> Done"
    "res = DecodeDone \<Longrightarrow> ref_run ChunkedDecoder_new stream = (body, Complete (drop n win @ rest))"
    "\<And>e. res = DecodeError e \<Longrightarrow> ref_run ChunkedDecoder_new stream = (body, Errored e)"
proof -
  have w: "take (length win) (win @ rest) = win" by simp
  obtain c d1 where c: "stream = c @ win @ rest" "steps ChunkedDecoder_new c = Some (d1, body)" "chunk_inv d1" "alive d1"
    and d: "d = d1 \<or> (\<exists>e. cstate d = Failed e \<and> rejects d1 (win @ rest) e)"
    using t by (auto simp: tracked_def)
  from d show thesis
  proof
    assume "d = d1"
    have "\<exists>d' buf res n d2 data. decode d win outb = Some (d', buf, res, n) \<and> n \<le> length win
      \<and> steps d1 (take n win) = Some (d2, data) \<and> take (length data) buf = data
      \<and> answer_ok d2 d' (drop n win) (length data) (length outb) res
      \<and> length buf = length outb \<and> length data \<le> length outb"
      unfolding \<open>d = d1\<close> by (rule decode_refines_aux [OF c(3,4), of win outb]) auto
    then obtain d' buf res n d2 data where r: "decode d win outb = Some (d', buf, res, n)" "n \<le> length win"
      "steps d1 (take n win) = Some (d2, data)" "take (length data) buf = data"
      "answer_ok d2 d' (drop n win) (length data) (length outb) res"
      "length buf = length outb" "length data \<le> length outb" by blast
    have st: "steps ChunkedDecoder_new (c @ take n win) = Some (d2, body @ data)" by (rule steps_compose [OF c(2) r(3)])
    have inv: "chunk_inv d2" "alive d2" using chunk_inv_steps [OF c(3) r(3)] alive_steps [OF c(4) r(3)] .
    have str: "stream = (c @ take n win) @ (drop n win @ rest)" using c(1) by simp
    have len: "length data \<le> n" using steps_length [OF r(3)] by simp
    show thesis
    proof (rule that [OF r(1,2,6)])
      fix m assume "res = Data m"
      then have m: "m = length data" "0 < m"
        and d': "d' = d2 \<or> (\<exists>e. cstate d' = Failed e \<and> rejects d2 (drop n win) e)"
        using r(5) room by auto
      have "rejects d2 (drop n win) e \<Longrightarrow> rejects d2 (drop n win @ rest) e" for e
        by (auto simp: rejects_def)
      then show "0 < n \<and> 0 < m \<and> m \<le> length buf
          \<and> tracked ChunkedDecoder_new stream d' (drop n win @ rest) (body @ take m buf)"
        unfolding tracked_def using m d' st str inv r(4,6,7) len
        by (intro conjI exI [of _ "c @ take n win"] exI [of _ d2]) (linarith, linarith, linarith, auto)
    next
      assume "res = NeedMore"
      then have "d' = d2" "data = []" "drop n win = []" "cstate d' \<noteq> Done" using r(5) by auto
      then show "n = length win \<and> tracked ChunkedDecoder_new stream d' rest body \<and> cstate d' \<noteq> Done"
        unfolding tracked_def using st str inv r(2) by (intro conjI exI [of _ "c @ take n win"] exI [of _ d2]) auto
    next
      assume "res = DecodeDone"
      then have "cstate d2 = Done" "data = []" using r(5) by auto
      then show "ref_run ChunkedDecoder_new stream = (body, Complete (drop n win @ rest))"
        using ref_run_steps [OF st, of "drop n win @ rest"] ref_run_done [of d2] str by simp
    next
      fix e assume "res = DecodeError e"
      then have "rejects d2 (drop n win) e" "data = []" using r(5) by auto
      then have "rejects d2 (drop n win @ rest) e" "data = []" by (auto simp: rejects_def)
      then show "ref_run ChunkedDecoder_new stream = (body, Errored e)"
        using ref_run_steps [OF st, of "drop n win @ rest"] ref_run_rejects [of d2] str by simp
    qed
  next
    assume "\<exists>e. cstate d = Failed e \<and> rejects d1 (win @ rest) e"
    then obtain e where e: "cstate d = Failed e" "rejects d1 (win @ rest) e" by blast
    have "ref_run ChunkedDecoder_new stream = (body, Errored e)"
      using ref_run_steps [OF c(2), of "win @ rest"] ref_run_rejects [OF e(2)] c(1) by simp
    then show thesis by (intro that [OF decode_failed [OF e(1)]]) auto
  qed
qed

text \<open>
  What a decoding loop over a window gives: the end of the body, an error, or the state to go
  on with when the window is used up.
\<close>

definition flow_ok :: "usize \<Rightarrow> bytes \<Rightarrow> bytes \<Rightarrow> flow \<Rightarrow> bool" where
  "flow_ok max_body stream rest f =
     (case f of
        Break d b \<Rightarrow> tracked ChunkedDecoder_new stream d rest b \<and> cstate d \<noteq> Done \<and> length b \<le> max_body
      | Return (Inr b) reusable \<Rightarrow>
          (\<exists>left. ref_run ChunkedDecoder_new stream = (b, Complete (left @ rest)) \<and> (reusable \<longleftrightarrow> left = []))
          \<and> length b \<le> max_body
      | Return (Inl e) _ \<Rightarrow>
          e = Connection BodyTooLarge \<and> max_body < length (fst (ref_run ChunkedDecoder_new stream))
          \<or> (\<exists>p b. e = Parse p \<and> ref_run ChunkedDecoder_new stream = (b, Errored p)))"

text \<open>The body the two loops share, with the loop as a parameter.\<close>

definition decode_pass ::
  "(ChunkedDecoder \<Rightarrow> bytes \<Rightarrow> bytes \<Rightarrow> flow option) \<Rightarrow> usize \<Rightarrow> ChunkedDecoder \<Rightarrow> bytes \<Rightarrow> bytes \<Rightarrow> flow option" where
  "decode_pass loop max_body decoder body input =
     Option.bind (decode decoder input (replicate HEAD_BUF_SIZE 0)) (\<lambda>(decoder, decode_buf, result, consumed).
       let input = drop consumed input in
       case result of
         Data n \<Rightarrow>
           (let body = body @ take n decode_buf in
            if length body > max_body then Some (Return (Inl (Connection BodyTooLarge)) True)
            else if is_done decoder then Some (Return (Inr body) (input = []))
            else loop decoder body input)
       | DecodeDone \<Rightarrow> Some (Return (Inr body) (input = []))
       | NeedMore \<Rightarrow> Some (Break decoder body)
       | DecodeError e \<Rightarrow> Some (Return (Inl (Parse e)) True))"

lemma decoding_loop_returns:
  assumes unfold: "\<And>d body input. loop d body input = decode_pass loop max_body d body input
      \<or> input = [] \<and> loop d body input = Some (Break d body)"
    and "tracked ChunkedDecoder_new stream d (raw @ rest) body" "length body \<le> max_body" "cstate d \<noteq> Done"
  shows "\<exists>f. loop d body raw = Some f \<and> flow_ok max_body stream rest f"
  using assms(2-4)
proof (induction "length raw" arbitrary: raw d body rule: less_induct)
  case less
  from unfold [of d body raw] show ?case
  proof
    assume "raw = [] \<and> loop d body raw = Some (Break d body)"
    then have "loop d body raw = Some (Break d body)" "raw = []" by blast+
    then show ?thesis using less.prems by (intro exI [of _ "Break d body"]) (simp add: flow_ok_def)
  next
    assume pass: "loop d body raw = decode_pass loop max_body d body raw"
    show ?thesis
    proof (rule tracked_decode [OF less.prems(1), of "replicate HEAD_BUF_SIZE 0"])
      show "0 < length (replicate HEAD_BUF_SIZE (0 :: u8))" using HEAD_BUF_pos by simp
    next
      fix d' buf res n
      assume dec: "decode d raw (replicate HEAD_BUF_SIZE 0) = Some (d', buf, res, n)" "n \<le> length raw"
        and data: "\<And>m. res = Data m \<Longrightarrow> 0 < n \<and> 0 < m \<and> m \<le> length buf
          \<and> tracked ChunkedDecoder_new stream d' (drop n raw @ rest) (body @ take m buf)"
        and more: "res = NeedMore \<Longrightarrow> n = length raw \<and> tracked ChunkedDecoder_new stream d' rest body \<and> cstate d' \<noteq> Done"
        and done': "res = DecodeDone \<Longrightarrow> ref_run ChunkedDecoder_new stream = (body, Complete (drop n raw @ rest))"
        and err: "\<And>e. res = DecodeError e \<Longrightarrow> ref_run ChunkedDecoder_new stream = (body, Errored e)"
      show ?thesis
      proof (cases res)
        case (Data m)
        have t: "0 < n \<and> tracked ChunkedDecoder_new stream d' (drop n raw @ rest) (body @ take m buf)"
          using data [OF Data] by blast
        show ?thesis
        proof (cases "length (body @ take m buf) > max_body \<or> is_done d'")
          case True
          then show ?thesis
            using dec(1) Data tracked_done [of stream d' "drop n raw @ rest" "body @ take m buf"] t
              tracked_prefix [of stream d' "drop n raw @ rest" "body @ take m buf"]
            by (auto simp: pass decode_pass_def flow_ok_def is_done_def Let_def)
        next
          case False
          then have eq: "loop d body raw = loop d' (body @ take m buf) (drop n raw)"
            using dec(1) Data by (auto simp: pass decode_pass_def Let_def)
          have "length (drop n raw) < length raw" using t dec(2) by auto
          from less.hyps [OF this conjunct2 [OF t]] False show ?thesis unfolding eq is_done_def by simp
        qed
      qed (use dec(1) more done' err less.prems(2) in \<open>auto simp: pass decode_pass_def flow_ok_def\<close>)
    qed
  qed
qed

lemma tail_loop_returns:
  assumes "tracked ChunkedDecoder_new stream d (raw @ rest) body" "length body \<le> max_body" "cstate d \<noteq> Done"
  shows "\<exists>f. tail_loop max_body d body raw = Some f \<and> flow_ok max_body stream rest f"
  by (rule decoding_loop_returns [OF _ assms]) (rule disjI1, subst tail_loop.simps, simp add: decode_pass_def)

lemma raw_loop_returns:
  assumes "tracked ChunkedDecoder_new stream d (raw @ rest) body" "length body \<le> max_body" "cstate d \<noteq> Done"
  shows "\<exists>f. raw_loop max_body d body raw = Some f \<and> flow_ok max_body stream rest f"
proof (rule decoding_loop_returns [OF _ assms])
  fix d body and input :: bytes
  show "raw_loop max_body d body input = decode_pass (raw_loop max_body) max_body d body input
      \<or> input = [] \<and> raw_loop max_body d body input = Some (Break d body)"
    by (cases "input = []") (subst raw_loop.simps, simp add: decode_pass_def)+
qed

lemma tracked_start: "tracked ChunkedDecoder_new stream ChunkedDecoder_new stream []"
  unfolding tracked_def using chunk_inv_new alive_new by (intro exI [of _ "[]"] exI [of _ ChunkedDecoder_new]) simp

section \<open>Every framing\<close>

text \<open>
  What a collector's answer means. A body is the one the framing cuts out of the stream,
  within the limit, and \<open>reusable\<close> says that nothing that was read is left over and that more
  can follow. An error is a failure of the transport, a body that is over the limit, a stream
  that ends before its last chunk, or the decoder's verdict on the stream.
\<close>

definition body_size :: "BodyFraming \<Rightarrow> bytes \<Rightarrow> nat" where
  "body_size framing stream =
     (case framing of
        NoBody \<Rightarrow> 0 | ContentLength len \<Rightarrow> unat len
      | Chunked \<Rightarrow> length (fst (ref_run ChunkedDecoder_new stream)) | UntilClose \<Rightarrow> length stream)"

fun body_error :: "BodyFraming \<Rightarrow> usize \<Rightarrow> bytes \<Rightarrow> Error \<Rightarrow> bool" where
  "body_error framing max_body stream (Io _) = True"
| "body_error framing max_body stream (Connection RequestDeadlineExceeded) = True"
| "body_error framing max_body stream (Connection BodyTooLarge) = (max_body < body_size framing stream)"
| "body_error framing max_body stream (Connection ConnectionClosed) =
     (framing = Chunked \<and> snd (ref_run ChunkedDecoder_new stream) = Exhausted)"
| "body_error framing max_body stream (Parse p) =
     (framing = Chunked \<and> snd (ref_run ChunkedDecoder_new stream) = Errored p)"
| "body_error framing max_body stream _ = False"

definition collected ::
  "BodyFraming \<Rightarrow> usize \<Rightarrow> bytes \<Rightarrow> bytes \<Rightarrow> (Error + bytes) \<Rightarrow> bool \<Rightarrow> bool" where
  "collected framing max_body stream rest res reusable =
     (case res of
        Inl e \<Rightarrow> body_error framing max_body stream e
      | Inr body \<Rightarrow>
          (\<exists>left. framed_body framing stream = Some (body, left @ rest)
             \<and> (reusable \<longleftrightarrow> left = [] \<and> framing \<noteq> UntilClose))
          \<and> length body \<le> max_body)"

lemma classify_body_error [simp]: "body_error framing max_body stream (classify e)"
  by (simp add: classify_def error_from_io_def)

context connection
begin

lemma read_proto_cases:
  obtains (failed) e s w1 where "sb_read_proto E sb HEAD_BUF_SIZE w = Some (Inl (classify e), s, w1)"
      "T w \<le> T w1" "outgoing w1 = outgoing w" "incoming w1 = incoming w"
  | (eof) s w1 where "sb_read_proto E sb HEAD_BUF_SIZE w = Some (Inr [], s, w1)"
      "T w \<le> T w1" "outgoing w1 = outgoing w" "incoming w = []" "incoming w1 = []"
  | (data) d s w1 where "sb_read_proto E sb HEAD_BUF_SIZE w = Some (Inr d, s, w1)" "d \<noteq> []" "length d \<le> HEAD_BUF_SIZE"
      "T w \<le> T w1" "outgoing w1 = outgoing w" "incoming w = d @ incoming w1"
proof -
  obtain r s w1 where r: "sb_read E sb HEAD_BUF_SIZE w = Some (r, s, w1)"
    and p: "sb_read_post T incoming outgoing E sb HEAD_BUF_SIZE w (r, s, w1)"
    using sb_read_returns [of sb HEAD_BUF_SIZE w] by auto
  note 1 = failed [of _ s w1] and 2 = eof [of s w1] and 3 = data [of _ s w1]
  show thesis
  proof (cases r)
    case (Inl e)
    then show thesis using r p by (intro 1 [of e]) (auto simp: sb_read_proto_def sb_read_post_def)
  next
    case (Inr d)
    show thesis
    proof (cases "d = []")
      case True
      then show thesis using r p Inr HEAD_BUF_pos by (intro 2) (auto simp: sb_read_proto_def sb_read_post_def)
    next
      case False
      then show thesis using r p Inr by (intro 3 [of d]) (auto simp: sb_read_proto_def sb_read_post_def)
    qed
  qed
qed

lemma chunk_loop_returns:
  assumes "tracked ChunkedDecoder_new stream d (incoming w) body" "length body \<le> max_body" "cstate d \<noteq> Done"
  shows "\<exists>res reusable sb' w1. chunk_loop E max_body d body sb w = Some (res, reusable, sb', w1)
     \<and> T w \<le> T w1 \<and> outgoing w1 = outgoing w
     \<and> collected Chunked max_body stream (incoming w1) res reusable"
  using assms
proof (induction "length (incoming w)" arbitrary: w d body sb rule: less_induct)
  case less
  show ?case
  proof (cases rule: read_proto_cases [of sb w])
    case (failed e s w1)
    then have "chunk_loop E max_body d body sb w = Some (Inl (classify e), True, s, w1)"
      by (subst chunk_loop.simps) simp
    then show ?thesis using failed by (auto simp: collected_def)
  next
    case (eof s w1)
    then have "chunk_loop E max_body d body sb w = Some (Inl (Connection ConnectionClosed), True, s, w1)"
      by (subst chunk_loop.simps) simp
    then show ?thesis using eof tracked_exhausted [of stream d body] less.prems by (auto simp: collected_def)
  next
    case (data raw s w1)
    then have t: "tracked ChunkedDecoder_new stream d (raw @ incoming w1) body" using less.prems(1) by simp
    from raw_loop_returns [OF t less.prems(2,3)] obtain f where
      f: "raw_loop max_body d body raw = Some f" "flow_ok max_body stream (incoming w1) f" by blast
    show ?thesis
    proof (cases f)
      case (Return res reusable)
      have "chunk_loop E max_body d body sb w = Some (res, reusable, s, w1)"
        using data f(1) Return by (subst chunk_loop.simps) simp
      moreover have "collected Chunked max_body stream (incoming w1) res reusable"
        using f(2) Return by (cases res) (auto simp: flow_ok_def collected_def framed_body_def body_size_def)
      ultimately show ?thesis using data by blast
    next
      case (Break d' b)
      have eq: "chunk_loop E max_body d body sb w = chunk_loop E max_body d' b s w1"
        using data f(1) Break by (subst chunk_loop.simps) simp
      have "length (incoming w1) < length (incoming w)" using data by simp
      moreover have "tracked ChunkedDecoder_new stream d' (incoming w1) b" "cstate d' \<noteq> Done" "length b \<le> max_body"
        using f(2) Break by (simp_all add: flow_ok_def)
      ultimately have "\<exists>res reusable sb' w2. chunk_loop E max_body d' b s w1 = Some (res, reusable, sb', w2)
         \<and> T w1 \<le> T w2 \<and> outgoing w2 = outgoing w1
         \<and> collected Chunked max_body stream (incoming w2) res reusable"
        using less.hyps [of w1 d' b s] by blast
      then show ?thesis using data unfolding eq by (metis order_trans)
    qed
  qed
qed

lemma close_loop_returns:
  assumes "length body \<le> max_body"
  shows "\<exists>res sb' w1. close_loop E max_body body sb w = Some (res, sb', w1)
     \<and> T w \<le> T w1 \<and> outgoing w1 = outgoing w
     \<and> collected UntilClose max_body (body @ incoming w) (incoming w1) res False"
  using assms
proof (induction "length (incoming w)" arbitrary: w body sb rule: less_induct)
  case less
  show ?case
  proof (cases rule: read_proto_cases [of sb w])
    case (failed e s w1)
    then have "close_loop E max_body body sb w = Some (Inl (classify e), s, w1)"
      by (subst close_loop.simps) simp
    then show ?thesis using failed by (auto simp: collected_def)
  next
    case (eof s w1)
    then have "close_loop E max_body body sb w = Some (Inr body, s, w1)"
      by (subst close_loop.simps) simp
    then show ?thesis using eof less.prems by (auto simp: collected_def framed_body_def)
  next
    case (data raw s w1)
    show ?thesis
    proof (cases "length (body @ raw) > max_body")
      case True
      then have "close_loop E max_body body sb w = Some (Inl (Connection BodyTooLarge), s, w1)"
        using data by (subst close_loop.simps) simp
      then show ?thesis using data True by (auto simp: collected_def body_size_def)
    next
      case False
      then have eq: "close_loop E max_body body sb w = close_loop E max_body (body @ raw) s w1"
        using data by (subst close_loop.simps) simp
      have "length (incoming w1) < length (incoming w)" "length (body @ raw) \<le> max_body" using data False by simp_all
      then have "\<exists>res sb' w2. close_loop E max_body (body @ raw) s w1 = Some (res, sb', w2)
         \<and> T w1 \<le> T w2 \<and> outgoing w2 = outgoing w1
         \<and> collected UntilClose max_body ((body @ raw) @ incoming w1) (incoming w2) res False"
        using less.hyps [of w1 "body @ raw" s] by blast
      moreover have "(body @ raw) @ incoming w1 = body @ incoming w" using data by simp
      ultimately show ?thesis using data unfolding eq by (metis order_trans)
    qed
  qed
qed

lemma content_length_returns:
  "\<exists>res self' w1. bc_read_content_length E self len tail w = Some (res, self', w1)
     \<and> T w \<le> T w1 \<and> outgoing w1 = outgoing w
     \<and> collected (ContentLength len) (bc_max_body self) (tail @ incoming w) (incoming w1) res (bc_reusable self')"
proof (cases "unat len > bc_max_body self \<or> unat len \<le> length tail")
  case True
  then show ?thesis
    by (auto simp: bc_read_content_length_def Let_def collected_def framed_body_def body_size_def min_def)
next
  case False
  let ?self = "self\<lparr> bc_reusable := True \<rparr>"
  let ?need = "unat len - length tail"
  obtain r s w1 where r: "sb_read_exact E (bc_budget ?self) ?need [] w = Some (r, s, w1)" "T w \<le> T w1"
      "outgoing w1 = outgoing w"
    and c: "case r of Inr d \<Rightarrow> length d = ?need \<and> (\<exists>x. d = [] @ x \<and> incoming w = x @ incoming w1) | Inl e \<Rightarrow> True"
    using sb_read_exact_returns [of "[]" ?need "bc_budget ?self" w] by (fastforce split: sum.splits)
  have eq: "bc_read_content_length E self len tail w =
      Some (case map_err classify r of Inl e \<Rightarrow> Inl e | Inr d \<Rightarrow> Inr (tail @ d), ?self\<lparr> bc_budget := s \<rparr>, w1)"
    using False r(1) by (simp add: bc_read_content_length_def Let_def sb_read_exact_proto_def split: sum.split)
  show ?thesis
  proof (cases r)
    case (Inl e)
    then show ?thesis using r by (simp add: eq collected_def)
  next
    case (Inr d)
    then have d: "length d = ?need" "incoming w = d @ incoming w1" using c by auto
    then have len: "unat len = length (tail @ d)" using False by simp
    show ?thesis unfolding eq using r Inr False
      by (simp add: collected_def framed_body_def len d(2))
  qed
qed

lemma bc_read_returns:
  "\<exists>res self' w1. bc_read E self framing tail w = Some (res, self', w1) \<and> T w \<le> T w1 \<and> outgoing w1 = outgoing w
     \<and> collected framing (bc_max_body self) (tail @ incoming w) (incoming w1) res (bc_reusable self')"
proof (cases framing)
  case NoBody
  then show ?thesis by (simp add: bc_read_def collected_def framed_body_def)
next
  case (ContentLength len)
  then show ?thesis using content_length_returns [of "self\<lparr> bc_reusable := True \<rparr>" len tail w]
    by (simp add: bc_read_def)
next
  case UntilClose
  show ?thesis
  proof (cases "length tail > bc_max_body self")
    case True
    then show ?thesis using UntilClose
      by (simp add: bc_read_def bc_read_until_close_def collected_def body_size_def)
  next
    case False
    then show ?thesis using UntilClose close_loop_returns [of tail "bc_max_body self" "bc_budget self" w]
      by (fastforce simp: bc_read_def bc_read_until_close_def)
  qed
next
  case Chunked
  let ?st = "tail @ incoming w"
  have "cstate ChunkedDecoder_new \<noteq> Done" by (simp add: ChunkedDecoder_new_def)
  then obtain f where f: "tail_loop (bc_max_body self) ChunkedDecoder_new [] tail = Some f"
      "flow_ok (bc_max_body self) ?st (incoming w) f"
    using tail_loop_returns [OF tracked_start [of ?st], of "bc_max_body self"] by auto
  show ?thesis
  proof (cases f)
    case (Return res reusable)
    then show ?thesis using f Chunked
      by (cases res) (auto simp: bc_read_def bc_read_chunked_def collected_def flow_ok_def framed_body_def body_size_def)
  next
    case (Break d b)
    then have "tracked ChunkedDecoder_new ?st d (incoming w) b" "length b \<le> bc_max_body self" "cstate d \<noteq> Done"
      using f(2) by (simp_all add: flow_ok_def)
    from chunk_loop_returns [OF this, of "bc_budget self"] show ?thesis
      using f(1) Break Chunked by (fastforce simp: bc_read_def bc_read_chunked_def)
  qed
qed

end

section \<open>Properties\<close>

text \<open>
  C30: the collector always returns, whatever the framing and however the bytes arrive, and
  writes nothing. When it gives a body, that is exactly the body that the framing cuts out of
  the stream (what came with the head, then what the connection delivers), within the limit,
  and what it did not read is still on the connection; it calls the connection reusable exactly
  if no byte past the body was read and the body was not ended by the close. It refuses a body
  as too large only if it is, a chunked one as cut short only if the stream ends before its
  last chunk, and with a parse error only if the reference decoder gives that error; every other
  error is the transport's or the request deadline.
\<close>

theorem collector_exact:
  assumes "connection E T incoming outgoing"
  shows "\<exists>res self' w1. bc_read E self framing tail w = Some (res, self', w1) \<and> outgoing w1 = outgoing w
     \<and> (case res of
          Inr body \<Rightarrow>
            (\<exists>left. framed_body framing (tail @ incoming w) = Some (body, left @ incoming w1)
               \<and> (bc_reusable self' \<longleftrightarrow> left = [] \<and> framing \<noteq> UntilClose))
            \<and> length body \<le> bc_max_body self
        | Inl e \<Rightarrow> body_error framing (bc_max_body self) (tail @ incoming w) e)"
  using connection.bc_read_returns [OF assms, of self framing tail w] unfolding collected_def by blast

theorem collector_exact_witness:
  "\<exists>self' w1. bc_read scripted
        \<lparr> bc_max_body = 8, bc_budget = \<lparr> sb_limit = 5, sb_last_progress = 0, sb_deadline = None \<rparr>, bc_reusable = True \<rparr>
        (ContentLength 3) [65, 66] (sample_world [Arrive 1 67 [68]])
      = Some (Inr [65, 66, 67], self', w1)
     \<and> bc_reusable self' \<and> sw_incoming w1 = [68]"
proof -
  let ?bc = "\<lparr> bc_max_body = 8, bc_budget = \<lparr> sb_limit = 5, sb_last_progress = 0, sb_deadline = None \<rparr>, bc_reusable = True \<rparr>"
  let ?w = "sample_world [Arrive 1 67 [68]]"
  obtain res self' w1 where r: "bc_read scripted ?bc (ContentLength 3) [65, 66] ?w = Some (res, self', w1)"
    and c: "case res of
          Inr body \<Rightarrow>
            (\<exists>left. framed_body (ContentLength 3) ([65, 66] @ sw_incoming ?w) = Some (body, left @ sw_incoming w1)
               \<and> (bc_reusable self' \<longleftrightarrow> left = [] \<and> ContentLength 3 \<noteq> UntilClose))
            \<and> length body \<le> bc_max_body ?bc
        | Inl e \<Rightarrow> body_error (ContentLength 3) (bc_max_body ?bc) ([65, 66] @ sw_incoming ?w) e"
    using collector_exact [OF scripted_connection.connection_axioms, of ?bc "ContentLength 3" "[65, 66]" ?w] by blast
  have rd: "\<exists>sb w1. sb_read_exact scripted (bc_budget ?bc) 1 [] ?w = Some (Inr [67], sb, w1)"
    by (subst sb_read_exact.simps, subst sb_read.simps, simp add: sample_world_def scripted_def sw_rd_def rd_expired_def,
        subst sb_read_exact.simps, simp)
  then have "res = Inr [65, 66, 67]" "bc_reusable self'"
    using r by (auto simp: bc_read_def bc_read_content_length_def sb_read_exact_proto_def)
  moreover 
  have i: "sw_incoming ?w = [67, 68]" by (simp add: sw_incoming_def sample_world_def)
  ultimately show ?thesis using r c by (simp add: i framed_body_def)
qed

end
