(* ===== verification/Streaming.thy ===== *)
theory Streaming
  imports Body_Collector
begin

text \<open>
  \<^verbatim>\<open>xibalba-client/src/body/streaming.rs\<close>: the body that is decoded as the caller reads it. The
  dirty flag that the reader borrows from its client is a field of the state here, as is all
  that the reader owns; the stream it borrows is the world. \<open>None\<close> is a panic or a loop that
  does not return; the results show that there is neither.
\<close>

section \<open>The reader\<close>

datatype StreamState = SLength u64 | SChunked ChunkedDecoder | SUntilClose | SDone

datatype ChunkedRead = Progress usize | NeedMoreInput

record StreamingBody =
  st_dirty :: bool
  st_state :: StreamState
  st_raw :: bytes
  st_raw_pos :: usize
  st_budget :: SilenceBudget
  st_reusable :: bool

definition st_is_done :: "StreamingBody \<Rightarrow> bool" where
  "st_is_done self = (st_state self = SDone)"

definition st_finish :: "StreamingBody \<Rightarrow> StreamingBody" where
  "st_finish self =
     self\<lparr> st_state := SDone, st_dirty := (\<not> st_reusable self \<or> st_raw_pos self \<noteq> length (st_raw self)) \<rparr>"

definition st_new ::
  "'w env \<Rightarrow> bool \<Rightarrow> BodyFraming \<Rightarrow> bytes \<Rightarrow> duration \<Rightarrow> bool \<Rightarrow> 'w \<Rightarrow> StreamingBody \<times> 'w" where
  "st_new E dirty framing tail silence reusable w =
     (let state = (case framing of
            NoBody \<Rightarrow> SDone
          | ContentLength len \<Rightarrow> if len = 0 then SDone else SLength len
          | Chunked \<Rightarrow> SChunked ChunkedDecoder_new
          | UntilClose \<Rightarrow> SUntilClose);
          (budget, w) = sb_new E silence w;
          body = \<lparr> st_dirty = dirty, st_state = state, st_raw = tail, st_raw_pos = 0, st_budget = budget,
                   st_reusable = reusable \<rparr> in
      (if st_state body = SDone then st_finish body else body, w))"

text \<open>\<^verbatim>\<open>Vec::resize\<close>.\<close>

definition resize :: "'a list \<Rightarrow> usize \<Rightarrow> 'a \<Rightarrow> 'a list" where
  "resize xs n x = take n xs @ replicate (n - length xs) x"

text \<open>
  A read that fails has put nothing into the buffer, which then stays as \<^verbatim>\<open>resize\<close> left it.
\<close>

definition refill ::
  "'w env \<Rightarrow> StreamingBody \<Rightarrow> 'w \<Rightarrow> ((io_error + bool) \<times> StreamingBody \<times> 'w) option" where
  "refill E self w =
     (if st_raw_pos self < length (st_raw self) then Some (Inr True, self, w)
      else
        let self = self\<lparr> st_raw := resize (st_raw self) HEAD_BUF_SIZE 0 \<rparr> in
        map_option (\<lambda>(r, budget, w).
            case r of
              Inl e \<Rightarrow> (Inl e, self\<lparr> st_budget := budget \<rparr>, w)
            | Inr d \<Rightarrow> (Inr (length d > 0), self\<lparr> st_raw := d, st_raw_pos := 0, st_budget := budget \<rparr>, w))
          (sb_read E (st_budget self) (length (st_raw self)) w))"

definition st_input ::
  "'w env \<Rightarrow> StreamingBody \<Rightarrow> 'w \<Rightarrow> ((io_error + bytes) \<times> StreamingBody \<times> 'w) option" where
  "st_input E self w =
     map_option (\<lambda>(r, self, w).
         (case r of Inl e \<Rightarrow> Inl e | Inr _ \<Rightarrow> Inr (drop (st_raw_pos self) (st_raw self)), self, w))
       (refill E self w)"

text \<open>The caller's buffer is given with its contents and returned with what was written into it.\<close>

definition st_read_content_length ::
  "'w env \<Rightarrow> StreamingBody \<Rightarrow> bytes \<Rightarrow> u64 \<Rightarrow> 'w \<Rightarrow> ((io_error + usize) \<times> bytes \<times> StreamingBody \<times> 'w) option" where
  "st_read_content_length E self buf remaining w =
     map_option (\<lambda>(r, self, w).
         case r of
           Inl e \<Rightarrow> (Inl e, buf, self, w)
         | Inr input \<Rightarrow>
             if input = [] then (Inl (io_err UnexpectedEof ''connection closed mid-body''), buf, self, w)
             else
               let n = min (min (case usize_try_from remaining of Some r \<Rightarrow> r | None \<Rightarrow> 2 ^ 64 - 1) (length input))
                         (length buf);
                   buf = take n input @ drop n buf;
                   self = self\<lparr> st_raw_pos := st_raw_pos self + n \<rparr>;
                   remaining = remaining - of_nat n in
               (Inr n, buf, if remaining = 0 then st_finish self else self\<lparr> st_state := SLength remaining \<rparr>, w))
       (st_input E self w)"

definition st_read_until_close ::
  "'w env \<Rightarrow> StreamingBody \<Rightarrow> bytes \<Rightarrow> 'w \<Rightarrow> ((io_error + usize) \<times> bytes \<times> StreamingBody \<times> 'w) option" where
  "st_read_until_close E self buf w =
     map_option (\<lambda>(r, self, w).
         case r of
           Inl e \<Rightarrow> (Inl e, buf, self, w)
         | Inr input \<Rightarrow>
             if input = [] then (Inr 0, buf, self\<lparr> st_state := SDone \<rparr>, w)
             else
               let n = min (length input) (length buf) in
               (Inr n, take n input @ drop n buf, self\<lparr> st_raw_pos := st_raw_pos self + n \<rparr>, w))
       (st_input E self w)"

definition st_read_chunked ::
  "'w env \<Rightarrow> StreamingBody \<Rightarrow> bytes \<Rightarrow> 'w \<Rightarrow> ((io_error + ChunkedRead) \<times> bytes \<times> StreamingBody \<times> 'w) option" where
  "st_read_chunked E self buf w =
     Option.bind (refill E self w) (\<lambda>(r, self, w).
       case r of
         Inl e \<Rightarrow> Some (Inl e, buf, self, w)
       | Inr refilled \<Rightarrow>
           if \<not> refilled then Some (Inl (io_err UnexpectedEof ''connection closed mid-chunked-body''), buf, self, w)
           else case st_state self of
             SChunked decoder \<Rightarrow>
               Option.bind (decode decoder (drop (st_raw_pos self) (st_raw self)) buf) (\<lambda>(decoder, buf, result, consumed).
                 let self = self\<lparr> st_state := SChunked decoder, st_raw_pos := st_raw_pos self + consumed \<rparr> in
                 Some (case result of
                   Data n \<Rightarrow> (Inr (Progress n), buf, if is_done decoder then st_finish self else self, w)
                 | DecodeDone \<Rightarrow> (Inr (Progress 0), buf, st_finish self, w)
                 | NeedMore \<Rightarrow> (Inr NeedMoreInput, buf, self, w)
                 | DecodeError e \<Rightarrow> (Inl (io_err InvalidData (Error_display (Parse e))), buf, self, w)))
           | _ \<Rightarrow> None)"

partial_function (option) st_chunked_loop ::
  "'w env \<Rightarrow> StreamingBody \<Rightarrow> bytes \<Rightarrow> 'w \<Rightarrow> ((io_error + usize) \<times> bytes \<times> StreamingBody \<times> 'w) option" where
  "st_chunked_loop E self buf w =
     Option.bind (st_read_chunked E self buf w) (\<lambda>(r, buf, self, w).
       case r of
         Inl e \<Rightarrow> Some (Inl e, buf, self, w)
       | Inr (Progress n) \<Rightarrow> if n = 0 \<and> st_is_done self then Some (Inr 0, buf, self, w) else Some (Inr n, buf, self, w)
       | Inr NeedMoreInput \<Rightarrow> st_chunked_loop E self buf w)"

definition st_read ::
  "'w env \<Rightarrow> StreamingBody \<Rightarrow> bytes \<Rightarrow> 'w \<Rightarrow> ((io_error + usize) \<times> bytes \<times> StreamingBody \<times> 'w) option" where
  "st_read E self buf w =
     (if buf = [] then Some (Inr 0, buf, self, w)
      else case st_state self of
        SDone \<Rightarrow> Some (Inr 0, buf, self, w)
      | SLength remaining \<Rightarrow> st_read_content_length E self buf remaining w
      | SUntilClose \<Rightarrow> st_read_until_close E self buf w
      | SChunked _ \<Rightarrow> st_chunked_loop E self buf w)"

section \<open>What the reader holds\<close>

abbreviation unread :: "StreamingBody \<Rightarrow> bytes" where
  "unread self \<equiv> drop (st_raw_pos self) (st_raw self)"

text \<open>
  The invariant of a reader of which no read has failed: \<open>stream\<close> is what the body was opened
  on (the bytes after the head and all the connection delivers), \<open>out\<close> what has been handed out,
  \<open>ahead\<close> what is not consumed yet. An unfinished body is dirty; a finished one is the body that
  the framing cuts out.
\<close>

definition body_inv :: "bool \<Rightarrow> BodyFraming \<Rightarrow> bytes \<Rightarrow> bytes \<Rightarrow> bytes \<Rightarrow> StreamingBody \<Rightarrow> bool" where
  "body_inv reusable framing stream out ahead self =
     (st_raw_pos self \<le> length (st_raw self) \<and> st_reusable self = reusable
      \<and> (st_state self \<noteq> SDone \<longrightarrow> st_dirty self)
      \<and> (\<not> st_dirty self \<longrightarrow> st_reusable self \<and> unread self = [] \<and> framing \<noteq> UntilClose)
      \<and> (case st_state self of
           SLength r \<Rightarrow> \<exists>len. framing = ContentLength len \<and> stream = out @ ahead
             \<and> length out + unat r = unat len \<and> r \<noteq> 0
         | SUntilClose \<Rightarrow> framing = UntilClose \<and> stream = out @ ahead
         | SChunked d \<Rightarrow> framing = Chunked \<and> tracked ChunkedDecoder_new stream d ahead out \<and> cstate d \<noteq> Done
         | SDone \<Rightarrow> framed_body framing stream = Some (out, ahead)
             \<and> (framing \<noteq> UntilClose \<longrightarrow> (st_dirty self \<longleftrightarrow> \<not> st_reusable self \<or> unread self \<noteq> []))))"

lemma unat_sub_of_nat:
  assumes "n \<le> unat (a :: u64)"
  shows "unat (a - of_nat n) = unat a - n"
proof -
  have "a - of_nat n = of_nat (unat a - n)"
    using of_nat_diff [OF assms, where ?'a = u64] by simp
  moreover have "unat a < 2 ^ LENGTH(64)" by (rule unsigned_less)
  then have "unat a - n < 2 ^ 64" by simp
  ultimately show ?thesis by (simp add: unat_of_nat take_bit_nat_eq_self)
qed

lemma framed_body_length: "unat len = length b \<Longrightarrow> framed_body (ContentLength len) (b @ r) = Some (b, r)"
  by (simp add: framed_body_def)

lemma finish_unread [simp]:
  "st_raw (st_finish self) = st_raw self" "st_raw_pos (st_finish self) = st_raw_pos self"
  "st_state (st_finish self) = SDone" "st_reusable (st_finish self) = st_reusable self"
  "st_dirty (st_finish self) = (\<not> st_reusable self \<or> st_raw_pos self \<noteq> length (st_raw self))"
  "st_budget (st_finish self) = st_budget self"
  by (simp_all add: st_finish_def)

lemma body_inv_finish:
  assumes "st_raw_pos self \<le> length (st_raw self)" "st_reusable self = reusable" "framed_body framing stream = Some (out, ahead)" "framing \<noteq> UntilClose"
  shows "body_inv reusable framing stream out ahead (st_finish self)"
  using assms by (auto simp: body_inv_def)

lemma body_inv_new:
  assumes "st_new E True framing tail silence reusable w = (self, w1)"
  shows "body_inv reusable framing (tail @ later) [] (tail @ later) self" "unread self = tail"
proof -
  obtain b where s: "self = (let body = \<lparr> st_dirty = True,
       st_state = (case framing of NoBody \<Rightarrow> SDone | ContentLength len \<Rightarrow> if len = 0 then SDone else SLength len
          | Chunked \<Rightarrow> SChunked ChunkedDecoder_new | UntilClose \<Rightarrow> SUntilClose),
       st_raw = tail, st_raw_pos = 0, st_budget = b, st_reusable = reusable \<rparr> in
       if st_state body = SDone then st_finish body else body)"
    using assms by (cases "sb_new E silence w") (auto simp: st_new_def Let_def)
  have "cstate ChunkedDecoder_new \<noteq> Done" by (simp add: ChunkedDecoder_new_def)
  then show "body_inv reusable framing (tail @ later) [] (tail @ later) self"
    unfolding s using tracked_start [of "tail @ later"]
    by (cases framing) (auto simp: body_inv_def framed_body_def Let_def)
  show "unread self = tail"
    unfolding s by (auto simp: Let_def)
qed

context connection
begin

lemma refill_returns:
  assumes "st_raw_pos self \<le> length (st_raw self)"
  obtains (failed) e sb w1 where
      "refill E self w = Some (Inl e, self\<lparr> st_raw := resize (st_raw self) HEAD_BUF_SIZE 0, st_budget := sb \<rparr>, w1)"
      "unread self = []" "incoming w1 = incoming w" "T w \<le> T w1" "outgoing w1 = outgoing w"
  | (eof) self' w1 where "refill E self w = Some (Inr False, self', w1)" "unread self = []" "incoming w = []"
      "unread self' = []" "incoming w1 = []" "st_raw_pos self' \<le> length (st_raw self')" "st_state self' = st_state self"
      "st_dirty self' = st_dirty self" "st_reusable self' = st_reusable self" "T w \<le> T w1" "outgoing w1 = outgoing w"
  | (data) self' w1 where "refill E self w = Some (Inr True, self', w1)" "unread self' \<noteq> []"
      "unread self' @ incoming w1 = unread self @ incoming w" "st_raw_pos self' \<le> length (st_raw self')"
      "st_state self' = st_state self" "st_dirty self' = st_dirty self" "st_reusable self' = st_reusable self"
      "T w \<le> T w1" "outgoing w1 = outgoing w"
proof (cases "st_raw_pos self < length (st_raw self)")
  case True
  then show thesis by (intro data [of self w]) (simp_all add: refill_def)
next
  case False
  let ?self = "self\<lparr> st_raw := resize (st_raw self) HEAD_BUF_SIZE 0 \<rparr>"
  have len: "length (resize (st_raw self) HEAD_BUF_SIZE 0) = HEAD_BUF_SIZE" by (simp add: resize_def)
  have u: "unread self = []" using False by simp
  obtain r s w1 where r: "sb_read E (st_budget self) HEAD_BUF_SIZE w = Some (r, s, w1)"
    and p: "sb_read_post T incoming outgoing E (st_budget self) HEAD_BUF_SIZE w (r, s, w1)"
    using sb_read_returns [of "st_budget self" HEAD_BUF_SIZE w] by auto
  have eq: "refill E self w = Some (case r of
      Inl e \<Rightarrow> (Inl e, ?self\<lparr> st_budget := s \<rparr>, w1)
    | Inr d \<Rightarrow> (Inr (length d > 0), ?self\<lparr> st_raw := d, st_raw_pos := 0, st_budget := s \<rparr>, w1))"
    using False r len by (simp add: refill_def Let_def)
  show thesis
  proof (cases r)
    case (Inl e)
    then show thesis using eq p u by (intro failed [of e s w1]) (simp_all add: sb_read_post_def)
  next
    case (Inr d)
    show thesis
    proof (cases "d = []")
      case True
      then show thesis using eq p u Inr HEAD_BUF_pos
        by (intro eof [of "?self\<lparr> st_raw := d, st_raw_pos := 0, st_budget := s \<rparr>" w1]) (auto simp: sb_read_post_def)
    next
      case False
      then show thesis using eq p u Inr
        by (intro data [of "?self\<lparr> st_raw := d, st_raw_pos := 0, st_budget := s \<rparr>" w1]) (simp_all add: sb_read_post_def)
    qed
  qed
qed

end

text \<open>How a read may end: with data or the end, which keep the invariant, or with an error.\<close>

definition read_ok ::
  "bool \<Rightarrow> BodyFraming \<Rightarrow> bytes \<Rightarrow> bytes \<Rightarrow> bytes \<Rightarrow> (io_error + usize) \<Rightarrow> bytes \<Rightarrow> StreamingBody \<Rightarrow> bytes \<Rightarrow> bool" where
  "read_ok reusable framing stream out buf r buf' self' rest =
     (case r of
        Inl _ \<Rightarrow> \<not> st_is_done self' \<and> st_dirty self'
      | Inr n \<Rightarrow> n \<le> length buf \<and> length buf' = length buf \<and> (n = 0 \<longrightarrow> st_is_done self')
          \<and> body_inv reusable framing stream (out @ take n buf') (unread self' @ rest) self')"

context connection
begin

lemma length_read_returns:
  assumes inv: "body_inv reusable framing stream out (unread self @ incoming w) self" and st: "st_state self = SLength rem"
    and buf: "buf \<noteq> []"
  shows "\<exists>r buf' self' w1. st_read_content_length E self buf rem w = Some (r, buf', self', w1)
     \<and> T w \<le> T w1 \<and> outgoing w1 = outgoing w \<and> read_ok reusable framing stream out buf r buf' self' (incoming w1)"
proof -
  have pos: "st_raw_pos self \<le> length (st_raw self)" and dirty: "st_dirty self" and re: "st_reusable self = reusable"
    using inv st by (simp_all add: body_inv_def)
  obtain len where fr: "framing = ContentLength len" "stream = out @ unread self @ incoming w"
      "length out + unat rem = unat len" "rem \<noteq> 0"
    using inv st by (auto simp: body_inv_def)
  show ?thesis
  proof (cases rule: refill_returns [OF pos, of w, case_names failed eof data])
    case (failed e sb w1)
    then show ?thesis using st dirty
      by (simp add: st_read_content_length_def st_input_def read_ok_def st_is_done_def)
  next
    case (eof self' w1)
    then show ?thesis using st dirty
      by (simp add: st_read_content_length_def st_input_def read_ok_def st_is_done_def)
  next
    case (data self1 w1)
    define n where "n = min (min (unat rem) (length (unread self1))) (length buf)"
    let ?s = "self1\<lparr> st_raw_pos := st_raw_pos self1 + n \<rparr>"
    let ?rem = "rem - of_nat n"
    have n: "n \<le> unat rem" "n \<le> length (unread self1)" "0 < n" "n \<le> length buf"
      using data(2) buf fr(4) by (auto simp: n_def unat_gt_0)
    have rem: "unat ?rem = unat rem - n"
      by (rule unat_sub_of_nat [OF n(1)])
    have s: "unread self1 = take n (unread self1) @ unread ?s"
      using take_drop_at [of n "st_raw_pos self1" "st_raw self1"] by simp
    have str: "stream = (out @ take n (unread self1)) @ (unread ?s @ incoming w1)"
      using fr(2) data(3) s by (metis append.assoc)
    have eq: "st_read_content_length E self buf rem w = Some (Inr n, take n (unread self1) @ drop n buf,
        if ?rem = 0 then st_finish ?s else ?s\<lparr> st_state := SLength ?rem \<rparr>, w1)"
      using data(1,2) by (simp add: st_read_content_length_def st_input_def Let_def n_def)
    have pos': "st_raw_pos ?s \<le> length (st_raw ?s)" using n(2) data(4) by simp
    have lo: "length (out @ take n (unread self1)) = length out + n" using n(2) by simp
    have "body_inv reusable framing stream (out @ take n (unread self1)) (unread ?s @ incoming w1)
        (if ?rem = 0 then st_finish ?s else ?s\<lparr> st_state := SLength ?rem \<rparr>)"
    proof (cases "?rem = 0")
      case True
      then have "unat rem = n" using rem n(1) by simp
      then have l: "unat len = length (out @ take n (unread self1))" using fr(3) lo by simp
      have "framed_body framing stream = Some (out @ take n (unread self1), unread ?s @ incoming w1)"
        unfolding fr(1) str by (rule framed_body_length [OF l])
      then show ?thesis using True pos' fr(1) re data(7) body_inv_finish by simp
    next
      case False
      have "unat ?rem + length (out @ take n (unread self1)) = unat len" using rem n(1) fr(3) lo by linarith
      then show ?thesis using False pos' fr(1) str data dirty st re by (simp add: body_inv_def)
    qed
    moreover have lt: "length (take n (unread self1)) = n" using n(2) by (simp only: length_take min_absorb2)
    moreover have "take n (take n (unread self1) @ drop n buf) = take n (unread self1)"
      using lt by (metis append_eq_conv_conj)
    moreover have "length (take n (unread self1) @ drop n buf) = length buf"
      using n(4) lt by (simp only: length_append length_drop)
    ultimately have "read_ok reusable framing stream out buf (Inr n) (take n (unread self1) @ drop n buf)
        (if ?rem = 0 then st_finish ?s else ?s\<lparr> st_state := SLength ?rem \<rparr>) (incoming w1)"
      using n(3,4) by (simp add: read_ok_def split: if_splits)
    then show ?thesis using eq data(8,9) by blast
  qed
qed

lemma close_read_returns:
  assumes inv: "body_inv reusable framing stream out (unread self @ incoming w) self" and st: "st_state self = SUntilClose"
    and buf: "buf \<noteq> []"
  shows "\<exists>r buf' self' w1. st_read_until_close E self buf w = Some (r, buf', self', w1)
     \<and> T w \<le> T w1 \<and> outgoing w1 = outgoing w \<and> read_ok reusable framing stream out buf r buf' self' (incoming w1)"
proof -
  have pos: "st_raw_pos self \<le> length (st_raw self)" and dirty: "st_dirty self" and re: "st_reusable self = reusable"
    and fr: "framing = UntilClose" "stream = out @ unread self @ incoming w"
    using inv st by (simp_all add: body_inv_def)
  show ?thesis
  proof (cases rule: refill_returns [OF pos, of w, case_names failed eof data])
    case (failed e sb w1)
    then show ?thesis using st dirty
      by (simp add: st_read_until_close_def st_input_def read_ok_def st_is_done_def)
  next
    case (eof self' w1)
    then show ?thesis using st dirty fr re
      by (simp add: st_read_until_close_def st_input_def read_ok_def st_is_done_def body_inv_def framed_body_def)
  next
    case (data self1 w1)
    define n where "n = min (length (unread self1)) (length buf)"
    let ?s = "self1\<lparr> st_raw_pos := st_raw_pos self1 + n \<rparr>"
    have s: "unread self1 = take n (unread self1) @ unread ?s"
      using take_drop_at [of n "st_raw_pos self1" "st_raw self1"] by simp
    have str: "stream = (out @ take n (unread self1)) @ (unread ?s @ incoming w1)"
      using fr(2) data(3) s by (metis append.assoc)
    have eq: "st_read_until_close E self buf w = Some (Inr n, take n (unread self1) @ drop n buf, ?s, w1)"
      using data(1,2) by (simp add: st_read_until_close_def st_input_def Let_def n_def)
    have "st_raw_pos ?s \<le> length (st_raw ?s)" "0 < n" "n \<le> length buf" "n \<le> length (unread self1)"
      using data(2,4) buf by (auto simp: n_def)
    then show ?thesis using eq data str fr(1) st dirty re by (simp add: read_ok_def body_inv_def)
  qed
qed

lemma chunked_read_returns:
  assumes inv: "body_inv reusable framing stream out (unread self @ incoming w) self" and st: "st_state self = SChunked d"
    and buf: "buf \<noteq> []"
  shows "\<exists>r buf' self' w1. st_chunked_loop E self buf w = Some (r, buf', self', w1)
     \<and> T w \<le> T w1 \<and> outgoing w1 = outgoing w \<and> read_ok reusable framing stream out buf r buf' self' (incoming w1)"
  using assms
proof (induction "length (unread self @ incoming w)" arbitrary: self d w buf rule: less_induct)
  case less
  have pos: "st_raw_pos self \<le> length (st_raw self)" and dirty: "st_dirty self" and re: "st_reusable self = reusable"
    and fr: "framing = Chunked"
    and tr: "tracked ChunkedDecoder_new stream d (unread self @ incoming w) out" and nd: "cstate d \<noteq> Done"
    using less.prems(1,2) by (simp_all add: body_inv_def)
  show ?case
  proof (cases rule: refill_returns [OF pos, of w, case_names failed eof data])
    case (failed e sb w1)
    then show ?thesis using less.prems(2) dirty
      by (subst st_chunked_loop.simps) (simp add: st_read_chunked_def read_ok_def st_is_done_def)
  next
    case (eof self' w1)
    then show ?thesis using less.prems(2) dirty
      by (subst st_chunked_loop.simps) (simp add: st_read_chunked_def read_ok_def st_is_done_def)
  next
    case (data s w1)
    have t: "tracked ChunkedDecoder_new stream d (unread s @ incoming w1) out" using tr data(3) by simp
    have room: "0 < length buf" using less.prems(3) by simp
    have sd: "st_state s = SChunked d" using data(5) less.prems(2) by simp
    show ?thesis
    proof (rule tracked_decode [OF t room])
      fix d' buf' res n
      assume dec: "decode d (unread s) buf = Some (d', buf', res, n)" "n \<le> length (unread s)" "length buf' = length buf"
        and dat: "\<And>m. res = Data m \<Longrightarrow> 0 < n \<and> 0 < m \<and> m \<le> length buf'
            \<and> tracked ChunkedDecoder_new stream d' (drop n (unread s) @ incoming w1) (out @ take m buf')"
        and need: "res = NeedMore \<Longrightarrow> n = length (unread s) \<and> tracked ChunkedDecoder_new stream d' (incoming w1) out
            \<and> cstate d' \<noteq> Done"
        and don: "res = DecodeDone \<Longrightarrow> ref_run ChunkedDecoder_new stream = (out, Complete (drop n (unread s) @ incoming w1))"
      let ?s = "s\<lparr> st_state := SChunked d', st_raw_pos := st_raw_pos s + n \<rparr>"
      have u: "unread ?s = drop n (unread s)" by (simp add: add.commute)
      have pos': "st_raw_pos ?s \<le> length (st_raw ?s)" using dec(2) data(4) by simp
      have step: "st_read_chunked E self buf w = Some (case res of
              Data n \<Rightarrow> (Inr (Progress n), buf', if is_done d' then st_finish ?s else ?s, w1)
            | DecodeDone \<Rightarrow> (Inr (Progress 0), buf', st_finish ?s, w1)
            | NeedMore \<Rightarrow> (Inr NeedMoreInput, buf', ?s, w1)
            | DecodeError e \<Rightarrow> (Inl (io_err InvalidData (Error_display (Parse e))), buf', ?s, w1))"
        using data(1) sd dec(1) by (simp add: st_read_chunked_def Let_def)
      have go: "st_chunked_loop E self buf w = Some (Inr m, b, s', w1) \<Longrightarrow> m \<le> length buf \<Longrightarrow> length b = length buf
          \<Longrightarrow> (m = 0 \<longrightarrow> st_is_done s') \<Longrightarrow> body_inv reusable framing stream (out @ take m b) (unread s' @ incoming w1) s' \<Longrightarrow> ?thesis"
        for m b s' using data by (simp add: read_ok_def)
      show ?thesis
      proof (cases res)
        case (Data m)
        note a = dat [OF Data]
        show ?thesis
        proof (cases "is_done d'")
          case True
          then have "ref_run ChunkedDecoder_new stream = (out @ take m buf', Complete (drop n (unread s) @ incoming w1))"
            using a tracked_done [of stream d'] by (simp add: is_done_def)
          then have "body_inv reusable framing stream (out @ take m buf') (unread (st_finish ?s) @ incoming w1) (st_finish ?s)"
            using pos' fr u re data(7) by (intro body_inv_finish) (simp_all add: framed_body_def)
          moreover have "st_chunked_loop E self buf w = Some (Inr m, buf', st_finish ?s, w1)"
            using step Data True a by (subst st_chunked_loop.simps) simp
          ultimately show ?thesis using a dec(3) by (intro go [of m buf' "st_finish ?s"]) (simp_all add: st_is_done_def)
        next
          case False
          have "st_chunked_loop E self buf w = Some (Inr m, buf', ?s, w1)"
            using step Data False a by (subst st_chunked_loop.simps) simp
          moreover have "body_inv reusable framing stream (out @ take m buf') (unread ?s @ incoming w1) ?s"
            using a u pos' fr dirty re data(6,7) False by (simp add: body_inv_def is_done_def)
          ultimately show ?thesis using a dec(3) by (intro go [of m buf' ?s]) simp_all
        qed
      next
        case DecodeDone
        have "body_inv reusable framing stream out (unread (st_finish ?s) @ incoming w1) (st_finish ?s)"
          using pos' fr u re data(7) don [OF DecodeDone] by (intro body_inv_finish) (simp_all add: framed_body_def)
        moreover have "st_chunked_loop E self buf w = Some (Inr 0, buf', st_finish ?s, w1)"
          using step DecodeDone by (subst st_chunked_loop.simps) (simp add: st_is_done_def)
        moreover have "length buf' = length buf" using dec(3) .
        ultimately show ?thesis by (intro go [of 0 buf' "st_finish ?s"]) (simp_all add: st_is_done_def)
      next
        case NeedMore
        note a = need [OF NeedMore]
        have eq: "st_chunked_loop E self buf w = st_chunked_loop E ?s buf' w1"
          using step NeedMore by (subst st_chunked_loop.simps) simp
        have us: "unread ?s = []" using u a by simp
        have lb: "length buf' = length buf" using dec(3) .
        have "body_inv reusable framing stream out (unread ?s @ incoming w1) ?s"
          using a us pos' fr dirty re data(6,7) by (simp add: body_inv_def)
        moreover have "length (unread ?s @ incoming w1) < length (unread self @ incoming w)"
          using us data(2,3) by (metis append.left_neutral length_append length_greater_0_conv less_add_same_cancel2)
        moreover have "st_state ?s = SChunked d'" "buf' \<noteq> []" using lb room by auto
        ultimately have "\<exists>r b s' w2. st_chunked_loop E ?s buf' w1 = Some (r, b, s', w2) \<and> T w1 \<le> T w2
            \<and> outgoing w2 = outgoing w1 \<and> read_ok reusable framing stream out buf' r b s' (incoming w2)"
          by (intro less.hyps) simp_all
        then show ?thesis using data lb unfolding eq by (fastforce simp: read_ok_def split: sum.splits)
      next
        case (DecodeError e)
        then have "st_chunked_loop E self buf w = Some (Inl (io_err InvalidData (Error_display (Parse e))), buf', ?s, w1)"
          using step by (subst st_chunked_loop.simps) simp
        then show ?thesis using data dirty by (simp add: read_ok_def st_is_done_def)
      qed
    qed
  qed
qed

lemma st_read_returns:
  assumes "body_inv reusable framing stream out (unread self @ incoming w) self" "buf \<noteq> []"
  shows "\<exists>r buf' self' w1. st_read E self buf w = Some (r, buf', self', w1)
     \<and> T w \<le> T w1 \<and> outgoing w1 = outgoing w \<and> read_ok reusable framing stream out buf r buf' self' (incoming w1)"
proof (cases "st_state self")
  case (SLength rem)
  then show ?thesis using length_read_returns [OF assms(1) SLength assms(2)] assms(2) by (simp add: st_read_def)
next
  case (SChunked d)
  then show ?thesis using chunked_read_returns [OF assms(1) SChunked assms(2)] assms(2) by (simp add: st_read_def)
next
  case SUntilClose
  then show ?thesis using close_read_returns [OF assms(1) SUntilClose assms(2)] assms(2) by (simp add: st_read_def)
next
  case SDone
  then show ?thesis using assms by (simp add: st_read_def read_ok_def st_is_done_def)
qed

end

section \<open>Properties\<close>

text \<open>
  A caller that reads until an error or as long as it likes, with a buffer of its own each time;
  \<open>out\<close> collects what it has been given.
\<close>

inductive st_reads :: "'w env \<Rightarrow> StreamingBody \<Rightarrow> 'w \<Rightarrow> bytes \<Rightarrow> StreamingBody \<Rightarrow> 'w \<Rightarrow> bool" for E self0 w0 where
  start: "st_reads E self0 w0 [] self0 w0"
| more_data: "st_reads E self0 w0 out self w \<Longrightarrow> st_read E self buf w = Some (Inr n, buf', self', w')
     \<Longrightarrow> st_reads E self0 w0 (out @ take n buf') self' w'"

lemma st_read_empty: "st_read E self [] w = Some (Inr 0, [], self, w)"
  by (simp add: st_read_def)

context connection
begin

lemma st_reads_inv:
  assumes "st_reads E self0 w0 out self w"
    and "body_inv reusable framing stream [] (unread self0 @ incoming w0) self0"
  shows "body_inv reusable framing stream out (unread self @ incoming w) self \<and> outgoing w = outgoing w0"
  using assms
proof (induction rule: st_reads.induct)
  case (more_data out self w buf n buf' self' w')
  then have inv: "body_inv reusable framing stream out (unread self @ incoming w) self" by blast
  show ?case
  proof (cases "buf = []")
    case True
    then show ?thesis using more_data inv by (simp add: st_read_empty)
  next
    case False
    from st_read_returns [OF inv this] more_data show ?thesis by (auto simp: read_ok_def)
  qed
qed simp

end

text \<open>
  C39: a streaming body delivers exactly the body. However the bytes arrive and whatever buffers
  the caller reads with: as long as no read has failed, the body is finished exactly with the
  body that the framing cuts out of the stream (what came with the head, then the connection),
  and everything after it is still unread; what has been delivered before is a prefix of the
  consumed stream for a plain body and the reference decoder's output for a chunked one. The
  connection is left clean only if the body is finished, the head allowed reuse, no byte past
  the body was read, and the body was not ended by the close.
\<close>

theorem streaming_exact:
  assumes "connection E T incoming outgoing"
    and "st_new E True framing tail silence reusable w = (self0, w0)"
    and "st_reads E self0 w0 out self w1"
  shows "(st_is_done self \<longrightarrow> framed_body framing (tail @ incoming w0) = Some (out, unread self @ incoming w1))
    \<and> (\<not> st_dirty self \<longleftrightarrow> st_is_done self \<and> reusable \<and> unread self = [] \<and> framing \<noteq> UntilClose)
    \<and> (\<not> st_is_done self \<longrightarrow> length out \<le> body_size framing (tail @ incoming w0))
    \<and> outgoing w1 = outgoing w0"
proof -
  note new = body_inv_new(1) [OF assms(2), of "incoming w0"] body_inv_new(2) [OF assms(2)]
  from connection.st_reads_inv [OF assms(1,3), of reusable framing "tail @ incoming w0"] new
  have inv: "body_inv reusable framing (tail @ incoming w0) out (unread self @ incoming w1) self" "outgoing w1 = outgoing w0"
    by simp_all
  have "\<not> st_is_done self \<longrightarrow> length out \<le> body_size framing (tail @ incoming w0)"
    using inv(1) tracked_prefix [of "tail @ incoming w0" _ "unread self @ incoming w1" out]
    by (cases "st_state self") (auto simp: body_inv_def st_is_done_def body_size_def)
  then show ?thesis using inv by (cases "st_state self") (auto simp: body_inv_def st_is_done_def)
qed

definition sample_body :: "StreamingBody \<times> sworld" where
  "sample_body = st_new scripted True (ContentLength 3) [65, 66] 5 True (sample_world [Arrive 1 67 [68]])"

lemma sample_reads:
  "\<exists>self w1. st_reads scripted (fst sample_body) (snd sample_body) [65, 66, 67] self w1 \<and> st_is_done self
     \<and> st_raw self = [67, 68] \<and> st_raw_pos self = 1"
proof -
  let ?b0 = "fst sample_body" and ?w0 = "snd sample_body"
  let ?b1 = "?b0\<lparr> st_raw_pos := 2, st_state := SLength 1 \<rparr>"
  have 1: "st_read scripted ?b0 [0, 0, 0, 0] ?w0 = Some (Inr 2, [65, 66, 0, 0], ?b1, ?w0)"
    by (simp add: sample_body_def st_new_def sb_new_def sb_with_deadline_def st_read_def st_read_content_length_def
        st_input_def refill_def scripted_def sample_world_def Let_def)
  have "\<exists>sb w1. sb_read scripted (st_budget ?b1) HEAD_BUF_SIZE ?w0 = Some (Inr [67, 68], sb, w1)"
    by (subst sb_read.simps) (simp add: sample_body_def st_new_def sb_new_def sb_with_deadline_def
        sample_world_def scripted_def sw_rd_def rd_expired_def HEAD_BUF_SIZE_def Let_def)
  then obtain sb w1 where r: "sb_read scripted (st_budget ?b1) HEAD_BUF_SIZE ?w0 = Some (Inr [67, 68], sb, w1)" by blast
  have "length (resize [65 :: u8, 66] HEAD_BUF_SIZE 0) = HEAD_BUF_SIZE" by (simp add: resize_def HEAD_BUF_SIZE_def)
  then have 2: "st_read scripted ?b1 [0, 0] ?w0 = Some (Inr 1, [67, 0],
      st_finish (?b1\<lparr> st_raw := [67, 68], st_raw_pos := 1, st_budget := sb \<rparr>), w1)"
    using r by (simp add: sample_body_def st_new_def sb_new_def sb_with_deadline_def st_read_def
        st_read_content_length_def st_input_def refill_def sample_world_def Let_def scripted_def)
  show ?thesis
    using more_data [OF more_data [OF start 1] 2]
    by (intro exI [of _ "st_finish (?b1\<lparr> st_raw := [67, 68], st_raw_pos := 1, st_budget := sb \<rparr>)"] exI [of _ w1])
      (simp add: st_is_done_def)
qed

theorem streaming_exact_witness:
  "\<exists>self w1. st_reads scripted (fst sample_body) (snd sample_body) [65, 66, 67] self w1 \<and> st_is_done self \<and> st_dirty self
     \<and> framed_body (ContentLength 3) ([65, 66] @ sw_incoming (snd sample_body)) = Some ([65, 66, 67], [68] @ sw_incoming w1)"
proof -
  obtain self w1 where r: "st_reads scripted (fst sample_body) (snd sample_body) [65, 66, 67] self w1" "st_is_done self"
    "st_raw self = [67, 68]" "st_raw_pos self = 1" using sample_reads by blast
  have n: "st_new scripted True (ContentLength 3) [65, 66] 5 True (sample_world [Arrive 1 67 [68]])
      = (fst sample_body, snd sample_body)" by (simp add: sample_body_def)
  from streaming_exact [OF scripted_connection.connection_axioms n r(1)] r show ?thesis by auto
qed

text \<open>
  C40: after a read that failed, the next read hands out bytes the peer never sent. The refill
  resizes the raw buffer before it reads and leaves it so when the read fails, so that the
  zeros it added count as received: the next read returns them, up to the size of the buffer,
  as body bytes, without touching the connection. Callers that retry (\<^verbatim>\<open>Read::read_to_end\<close> and
  \<^verbatim>\<open>read_exact\<close> do so on \<^verbatim>\<open>ErrorKind::Interrupted\<close>) put them into the body.
\<close>

theorem failed_read_fabricates_zeros:
  assumes "st_read E self buf w = Some (Inl e, buf', self', w1)" "st_state self = SUntilClose"
    and "st_raw_pos self = length (st_raw self)" "length (st_raw self) < HEAD_BUF_SIZE" "buf2 \<noteq> []"
  shows "\<exists>n self''. 0 < n \<and> n = min (HEAD_BUF_SIZE - length (st_raw self)) (length buf2)
    \<and> st_read E self' buf2 w1 = Some (Inr n, replicate n 0 @ drop n buf2, self'', w1)"
proof -
  have "buf \<noteq> []" using assms(1) by (auto simp: st_read_def)
  moreover have len: "length (resize (st_raw self) HEAD_BUF_SIZE 0) = HEAD_BUF_SIZE" by (simp add: resize_def)
  ultimately obtain r sb w2 where r: "sb_read E (st_budget self) HEAD_BUF_SIZE w = Some (r, sb, w2)"
    using assms(1-3) by (auto simp: st_read_def st_read_until_close_def st_input_def refill_def Let_def)
  then have s: "self' = self\<lparr> st_raw := resize (st_raw self) HEAD_BUF_SIZE 0, st_budget := sb \<rparr>"
    using assms(1-3) \<open>buf \<noteq> []\<close> len
    by (cases r) (auto simp: st_read_def st_read_until_close_def st_input_def refill_def Let_def split: if_splits)
  have u: "unread self' = replicate (HEAD_BUF_SIZE - length (st_raw self)) 0"
    using assms(3,4) by (simp add: s resize_def)
  define n where "n = min (HEAD_BUF_SIZE - length (st_raw self)) (length buf2)"
  have lt: "st_raw_pos self' < length (st_raw self')" using assms(3,4) by (simp add: s resize_def)
  have "st_read E self' buf2 w1 = Some (Inr n, take n (unread self') @ drop n buf2, self'\<lparr> st_raw_pos := st_raw_pos self' + n \<rparr>, w1)"
    using assms(2,5) lt s u by (auto simp: st_read_def st_read_until_close_def st_input_def refill_def Let_def n_def)
  moreover have "take n (unread self') = replicate n 0" unfolding u by (simp add: n_def)
  moreover have "0 < n" using assms(4,5) by (simp add: n_def)
  ultimately show ?thesis by (auto simp: n_def)
qed

theorem failed_read_fabricates_zeros_witness:
  "\<exists>self self' w1 self''. st_read scripted self [7, 7] (sample_world [Fail 1 (io_err Interrupted []), Arrive 1 65 [66]])
       = Some (Inl (io_err Interrupted []), [7, 7], self', w1)
     \<and> sw_incoming w1 = [65, 66]
     \<and> st_read scripted self' [7, 7] w1 = Some (Inr 2, [0, 0], self'', w1)"
proof -
  let ?w = "sample_world [Fail 1 (io_err Interrupted []), Arrive 1 65 [66]]"
  let ?self = "fst (st_new scripted True UntilClose [] 5 True ?w)"
  have "\<exists>sb w1. sb_read scripted (st_budget ?self) HEAD_BUF_SIZE ?w = Some (Inl (io_err Interrupted []), sb, w1)
      \<and> sw_incoming w1 = [65, 66]"
    by (subst sb_read.simps) (simp add: st_new_def sb_new_def sb_with_deadline_def io_err_def Tick_marks_def
        sample_world_def scripted_def sw_rd_def rd_expired_def HEAD_BUF_SIZE_def Let_def sw_incoming_def)
  then obtain sb w1 where r: "sb_read scripted (st_budget ?self) HEAD_BUF_SIZE ?w = Some (Inl (io_err Interrupted []), sb, w1)"
      "sw_incoming w1 = [65, 66]" by blast
  have self: "st_state ?self = SUntilClose" "st_raw ?self = []" "st_raw_pos ?self = 0"
    by (simp_all add: st_new_def sb_new_def sb_with_deadline_def scripted_def)
  then have 1: "st_read scripted ?self [7, 7] ?w = Some (Inl (io_err Interrupted []), [7, 7],
      ?self\<lparr> st_raw := resize [] HEAD_BUF_SIZE 0, st_budget := sb \<rparr>, w1)"
    using r by (simp add: st_read_def st_read_until_close_def st_input_def refill_def Let_def resize_def)
  have n: "min (HEAD_BUF_SIZE - 0) (length [7 :: u8, 7]) = 2" by (simp add: HEAD_BUF_SIZE_def)
  have "\<exists>self''. st_read scripted (?self\<lparr> st_raw := resize [] HEAD_BUF_SIZE 0, st_budget := sb \<rparr>) [7, 7] w1
      = Some (Inr 2, [0, 0], self'', w1)"
    using failed_read_fabricates_zeros [OF 1 self(1), of "[7, 7]"] self n HEAD_BUF_pos
    by (auto simp: eval_nat_numeral)
  then show ?thesis using 1 r(2) by blast
qed

end
