(* ===== verification/Request.thy ===== *)
theory Request
  imports Head_Grammar
begin

text \<open>
  \<^verbatim>\<open>xibalba-proto/src/request.rs\<close>: validation and serialization of a request head, into a
  caller's buffer through \<^verbatim>\<open>BufWriter\<close> and to an \<^verbatim>\<open>impl Write\<close>. The locale \<open>byte_sink\<close> is what
  the two share: a sink that appends what it is given or fails. The results: both write the
  same text, the buffer variant fails exactly when the buffer is shorter than
  \<^verbatim>\<open>serialized_len\<close>, and the text of a validated request reads back as one request line and
  exactly its headers, so nothing can be injected through a target or a header.
\<close>

section \<open>Definitions\<close>

record Request =
  req_method :: Method
  req_path :: bytes
  req_query :: "bytes option"
  req_version :: Version
  req_headers :: "Header list"

definition is_target_byte :: "u8 \<Rightarrow> bool" where
  "is_target_byte b = (b > 0x20 \<and> b \<noteq> 0x7F)"

fun validate_headers :: "Header list \<Rightarrow> Error + unit" where
  "validate_headers [] = Inr ()"
| "validate_headers (header # rest) =
     (let name = name_as_bytes (hname header) in
      if name = [] \<or> \<not> list_all Tchar_is_valid name then Inl (Serialize InvalidHeader)
      else if list_ex (\<lambda>b. b \<noteq> HTAB \<and> (b < 0x20 \<or> b = 0x7F)) (hvalue header)
      then Inl (Serialize InvalidHeader)
      else validate_headers rest)"

definition validate :: "Request \<Rightarrow> Error + unit" where
  "validate self =
     (if req_path self = [] \<or> list_ex (\<lambda>b. \<not> is_target_byte b) (req_path self)
      then Inl (Serialize InvalidPath)
      else if (case req_query self of None \<Rightarrow> False
               | Some query \<Rightarrow> list_ex (\<lambda>b. \<not> is_target_byte b) query)
      then Inl (Serialize InvalidPath)
      else validate_headers (req_headers self))"

text \<open>\<^verbatim>\<open>BufWriter\<close>: the borrowed buffer and the position.\<close>

record BufWriter =
  wbuf :: bytes
  wpos :: usize

definition BufWriter_new :: "bytes \<Rightarrow> BufWriter" where
  "BufWriter_new buf = \<lparr> wbuf = buf, wpos = 0 \<rparr>"

text \<open>A write gives the writer, changed or not, and the result.\<close>

definition write_bytes :: "BufWriter \<Rightarrow> bytes \<Rightarrow> BufWriter \<times> (Error + unit)" where
  "write_bytes self data =
     (let fin = wpos self + length data in
      if fin > length (wbuf self) then (self, Inl (Serialize BufferTooSmall))
      else (self\<lparr> wbuf := take (wpos self) (wbuf self) @ data @ drop fin (wbuf self), wpos := fin \<rparr>, Inr ()))"

definition write_byte :: "BufWriter \<Rightarrow> u8 \<Rightarrow> BufWriter \<times> (Error + unit)" where
  "write_byte self byte =
     (if wpos self \<ge> length (wbuf self) then (self, Inl (Serialize BufferTooSmall))
      else (self\<lparr> wbuf := (wbuf self)[wpos self := byte], wpos := wpos self + 1 \<rparr>, Inr ()))"

text \<open>\<open>w_seq f g\<close> is \<^verbatim>\<open>f(w)?; g(w)\<close> on a writer passed by \<^verbatim>\<open>&mut\<close>.\<close>

definition w_seq :: "('w \<Rightarrow> 'w \<times> ('e + unit)) \<Rightarrow> ('w \<Rightarrow> 'w \<times> ('e + unit)) \<Rightarrow> 'w \<Rightarrow> 'w \<times> ('e + unit)" where
  "w_seq f g w = (case f w of (w', Inl e) \<Rightarrow> (w', Inl e) | (w', Inr _) \<Rightarrow> g w')"

fun w_all :: "('w \<Rightarrow> 'w \<times> ('e + unit)) list \<Rightarrow> 'w \<Rightarrow> 'w \<times> ('e + unit)" where
  "w_all [] w = (w, Inr ())"
| "w_all (f # fs) w = w_seq f (w_all fs) w"

definition buf_header_writes :: "Header \<Rightarrow> (BufWriter \<Rightarrow> BufWriter \<times> (Error + unit)) list" where
  "buf_header_writes header =
     [\<lambda>w. write_bytes w (name_as_bytes (hname header)), \<lambda>w. write_bytes w (bs '': ''),
      \<lambda>w. write_bytes w (hvalue header), \<lambda>w. write_bytes w CRLF]"

definition serialize_to_buf :: "Request \<Rightarrow> bytes \<Rightarrow> bytes \<times> (Error + usize)" where
  "serialize_to_buf self buf =
     (case validate self of
        Inl e \<Rightarrow> (buf, Inl e)
      | Inr _ \<Rightarrow>
          (case w_all
             ([\<lambda>w. write_bytes w (token (req_method self)), \<lambda>w. write_byte w SP,
               \<lambda>w. write_bytes w (req_path self)]
              @ (case req_query self of
                   None \<Rightarrow> []
                 | Some query \<Rightarrow> [\<lambda>w. write_byte w QUESTION, \<lambda>w. write_bytes w query])
              @ [\<lambda>w. write_byte w SP, \<lambda>w. write_bytes w (version_as_bytes (req_version self)),
                 \<lambda>w. write_bytes w CRLF]
              @ concat (map buf_header_writes (req_headers self))
              @ [\<lambda>w. write_bytes w CRLF]) (BufWriter_new buf) of
             (w, Inl e) \<Rightarrow> (wbuf w, Inl e)
           | (w, Inr _) \<Rightarrow> (wbuf w, Inr (wpos w))))"

text \<open>
  \<^verbatim>\<open>serialize_to_writer\<close>, for a writer given by its \<^verbatim>\<open>write_all\<close>; a validation error becomes
  an I/O error with the message.
\<close>

definition serialize_to_writer ::
  "('w \<Rightarrow> bytes \<Rightarrow> 'w \<times> (IoError + unit)) \<Rightarrow> Request \<Rightarrow> 'w \<Rightarrow> 'w \<times> (IoError + unit)" where
  "serialize_to_writer write_all self w0 =
     (case validate self of
        Inl e \<Rightarrow> (w0, Inl \<lparr> kind = InvalidInput, message = Error_display e \<rparr>)
      | Inr _ \<Rightarrow>
          w_all
            ([\<lambda>w. write_all w (token (req_method self)), \<lambda>w. write_all w [SP],
              \<lambda>w. write_all w (req_path self)]
             @ (case req_query self of
                  None \<Rightarrow> []
                | Some query \<Rightarrow> [\<lambda>w. write_all w [QUESTION], \<lambda>w. write_all w query])
             @ [\<lambda>w. write_all w [SP], \<lambda>w. write_all w (version_as_bytes (req_version self)),
                \<lambda>w. write_all w CRLF]
             @ concat (map (\<lambda>header.
                 [\<lambda>w. write_all w (name_as_bytes (hname header)), \<lambda>w. write_all w (bs '': ''),
                  \<lambda>w. write_all w (hvalue header), \<lambda>w. write_all w CRLF]) (req_headers self))
             @ [\<lambda>w. write_all w CRLF]) w0)"

text \<open>The additions of \<^verbatim>\<open>serialized_len\<close>, in order.\<close>

definition serialized_len :: "Request \<Rightarrow> usize" where
  "serialized_len self =
     (let len = length (token (req_method self)) + 1 + length (req_path self);
          len = (case req_query self of None \<Rightarrow> len | Some query \<Rightarrow> len + 1 + length query);
          len = len + 1 + length (version_as_bytes (req_version self)) + 2;
          len = foldl (\<lambda>len header. len + length (name_as_bytes (hname header)) + 2 + length (hvalue header) + 2)
                  len (req_headers self)
      in len + 2)"

text \<open>\<^verbatim>\<open>write_all\<close> of \<^verbatim>\<open>Vec<u8>\<close>.\<close>

definition vec_write_all :: "bytes \<Rightarrow> bytes \<Rightarrow> bytes \<times> (IoError + unit)" where
  "vec_write_all w data = (w @ data, Inr ())"

section \<open>The text of a request\<close>

text \<open>Reference: the request line and the header lines.\<close>

definition request_line :: "Request \<Rightarrow> bytes" where
  "request_line r =
     token (req_method r) @ [SP] @ req_path r
     @ (case req_query r of None \<Rightarrow> [] | Some q \<Rightarrow> QUESTION # q)
     @ [SP] @ version_as_bytes (req_version r)"

definition field_text :: "Header \<Rightarrow> bytes" where
  "field_text h = name_as_bytes (hname h) @ bs '': '' @ hvalue h @ CRLF"

definition request_text :: "Request \<Rightarrow> bytes" where
  "request_text r = request_line r @ CRLF @ concat (map field_text (req_headers r)) @ CRLF"

text \<open>The pieces in the order they are written.\<close>

definition request_pieces :: "Request \<Rightarrow> bytes list" where
  "request_pieces r =
     [token (req_method r), [SP], req_path r]
     @ (case req_query r of None \<Rightarrow> [] | Some q \<Rightarrow> [[QUESTION], q])
     @ [[SP], version_as_bytes (req_version r), CRLF]
     @ concat (map (\<lambda>h. [name_as_bytes (hname h), bs '': '', hvalue h, CRLF]) (req_headers r))
     @ [CRLF]"

lemma concat_pieces: "concat (request_pieces r) = request_text r"
proof -
  have "concat (concat (map (\<lambda>h. [name_as_bytes (hname h), bs '': '', hvalue h, CRLF]) hs))
      = concat (map field_text hs)" for hs
    by (induction hs) (simp_all add: field_text_def)
  then show ?thesis
    by (cases "req_query r") (simp_all add: request_pieces_def request_text_def request_line_def)
qed

lemma serialized_len_eq: "serialized_len r = length (request_text r)"
proof -
  have "foldl (\<lambda>len header. len + length (name_as_bytes (hname header)) + 2 + length (hvalue header) + 2) n hs
      = n + length (concat (map field_text hs))" for n hs
    by (induction hs arbitrary: n) (simp_all add: field_text_def bs_def)
  then show ?thesis
    by (cases "req_query r") (simp_all add: serialized_len_def request_text_def request_line_def Let_def)
qed

section \<open>The contract of a sink\<close>

text \<open>
  \<open>put\<close> appends the data to what \<open>written\<close> shows, or fails; \<open>room\<close> tells whether data fit.
\<close>

locale byte_sink =
  fixes put :: "'w \<Rightarrow> bytes \<Rightarrow> 'w \<times> ('e + unit)"
    and written :: "'w \<Rightarrow> bytes" and room :: "'w \<Rightarrow> nat \<Rightarrow> bool" and sink_inv :: "'w \<Rightarrow> bool"
    and full :: 'e
  assumes put_ok: "sink_inv w \<Longrightarrow> room w (length xs) \<Longrightarrow>
      \<exists>w'. put w xs = (w', Inr ()) \<and> sink_inv w' \<and> written w' = written w @ xs
         \<and> (\<forall>n. room w' n = room w (length xs + n))"
    and put_full: "sink_inv w \<Longrightarrow> \<not> room w (length xs) \<Longrightarrow> put w xs = (w, Inl full)"
    and room_0: "sink_inv w \<Longrightarrow> room w 0"
    and room_mono: "room w n \<Longrightarrow> m \<le> n \<Longrightarrow> room w m"
begin

lemma put_pieces:
  assumes "sink_inv w"
  shows "if room w (length (concat ps))
    then \<exists>w'. w_all (map (\<lambda>p w. put w p) ps) w = (w', Inr ()) \<and> sink_inv w'
      \<and> written w' = written w @ concat ps
    else snd (w_all (map (\<lambda>p w. put w p) ps) w) = Inl full"
  using assms
proof (induction ps arbitrary: w)
  case Nil
  then show ?case using room_0 by simp
next
  case (Cons p ps)
  show ?case
  proof (cases "room w (length p)")
    case True
    then obtain w' where p: "put w p = (w', Inr ())" "sink_inv w'" "written w' = written w @ p"
      and r: "\<And>n. room w' n = room w (length p + n)" using put_ok [OF Cons.prems] by blast
    have "w_all (map (\<lambda>p w. put w p) (p # ps)) w = w_all (map (\<lambda>p w. put w p) ps) w'"
      by (simp add: w_seq_def p)
    then show ?thesis using Cons.IH [OF p(2)] p(3) r [of "length (concat ps)"] by (auto split: if_splits)
  next
    case False
    then have "\<not> room w (length (concat (p # ps)))" using room_mono by (metis concat.simps(2) le_add1 length_append)
    moreover have "put w p = (w, Inl full)" using put_full [OF Cons.prems False] .
    ultimately show ?thesis by (simp add: w_seq_def)
  qed
qed

end

section \<open>The two sinks\<close>

text \<open>The writer over the buffer \<open>orig\<close>: what lies beyond the position is untouched.\<close>

definition buf_inv :: "bytes \<Rightarrow> BufWriter \<Rightarrow> bool" where
  "buf_inv orig w =
     (wpos w \<le> length orig \<and> length (wbuf w) = length orig \<and> drop (wpos w) (wbuf w) = drop (wpos w) orig)"

lemma drop_later: "drop p xs = drop p ys \<Longrightarrow> p \<le> q \<Longrightarrow> drop q xs = drop q ys"
  by (metis drop_drop le_add_diff_inverse2)

lemma write_bytes_ok:
  assumes "buf_inv orig w" "wpos w + length xs \<le> length (wbuf w)"
  shows "\<exists>w'. write_bytes w xs = (w', Inr ()) \<and> buf_inv orig w' \<and> wpos w' = wpos w + length xs
    \<and> length (wbuf w') = length (wbuf w) \<and> take (wpos w') (wbuf w') = take (wpos w) (wbuf w) @ xs"
  using assms drop_later [of "wpos w" "wbuf w" orig "wpos w + length xs"]
  by (simp add: write_bytes_def buf_inv_def Let_def)

interpretation buf_sink: byte_sink write_bytes "\<lambda>w. take (wpos w) (wbuf w)"
  "\<lambda>w n. wpos w + n \<le> length (wbuf w)" "buf_inv orig" "Serialize BufferTooSmall" for orig
proof
  fix w :: BufWriter and xs :: bytes
  assume "buf_inv orig w" "wpos w + length xs \<le> length (wbuf w)"
  from write_bytes_ok [OF this] show "\<exists>w'. write_bytes w xs = (w', Inr ()) \<and> buf_inv orig w'
      \<and> take (wpos w') (wbuf w') = take (wpos w) (wbuf w) @ xs
      \<and> (\<forall>n. (wpos w' + n \<le> length (wbuf w')) = (wpos w + (length xs + n) \<le> length (wbuf w)))"
    by (auto simp: add.assoc)
qed (auto simp: write_bytes_def buf_inv_def Let_def)

interpretation vec_sink: byte_sink vec_write_all "\<lambda>w. w" "\<lambda>w n. True" "\<lambda>w. True"
  "\<lparr> kind = WriteZero, message = [] \<rparr>"
  by unfold_locales (simp_all add: vec_write_all_def)

lemma write_byte_eq: "write_byte w b = write_bytes w [b]"
proof (cases "wpos w < length (wbuf w)")
  case True
  then show ?thesis
    by (simp add: write_byte_def write_bytes_def Let_def upd_conv_take_nth_drop)
qed (simp add: write_byte_def write_bytes_def Let_def)

lemma header_writes_eq:
  "concat (map (\<lambda>h. [\<lambda>w. put w (name_as_bytes (hname h)), \<lambda>w. put w (bs '': ''),
      \<lambda>w. put w (hvalue h), \<lambda>w. put w CRLF]) hs) =
   map (\<lambda>p w. put w p) (concat (map (\<lambda>h. [name_as_bytes (hname h), bs '': '', hvalue h, CRLF]) hs))"
  by (induction hs) simp_all

lemma request_writes_eq:
  "[\<lambda>w. put w (token (req_method r)), \<lambda>w. put w [SP], \<lambda>w. put w (req_path r)]
   @ (case req_query r of None \<Rightarrow> [] | Some query \<Rightarrow> [\<lambda>w. put w [QUESTION], \<lambda>w. put w query])
   @ [\<lambda>w. put w [SP], \<lambda>w. put w (version_as_bytes (req_version r)), \<lambda>w. put w CRLF]
   @ concat (map (\<lambda>h. [\<lambda>w. put w (name_as_bytes (hname h)), \<lambda>w. put w (bs '': ''),
       \<lambda>w. put w (hvalue h), \<lambda>w. put w CRLF]) (req_headers r))
   @ [\<lambda>w. put w CRLF] = map (\<lambda>p w. put w p) (request_pieces r)"
  unfolding header_writes_eq by (cases "req_query r") (simp_all add: request_pieces_def)

lemma buf_writes_eq:
  "serialize_to_buf r buf =
     (case validate r of
        Inl e \<Rightarrow> (buf, Inl e)
      | Inr _ \<Rightarrow>
          (case w_all (map (\<lambda>p w. write_bytes w p) (request_pieces r)) (BufWriter_new buf) of
             (w, Inl e) \<Rightarrow> (wbuf w, Inl e)
           | (w, Inr _) \<Rightarrow> (wbuf w, Inr (wpos w))))"
  unfolding serialize_to_buf_def write_byte_eq buf_header_writes_def request_writes_eq ..

lemma writer_writes_eq:
  "serialize_to_writer put r w0 =
     (case validate r of
        Inl e \<Rightarrow> (w0, Inl \<lparr> kind = InvalidInput, message = Error_display e \<rparr>)
      | Inr _ \<Rightarrow> w_all (map (\<lambda>p w. put w p) (request_pieces r)) w0)"
  unfolding serialize_to_writer_def request_writes_eq ..

section \<open>Properties\<close>

lemma buf_writes_run:
  "if length (request_text r) \<le> length buf
   then \<exists>w. w_all (map (\<lambda>p w. write_bytes w p) (request_pieces r)) (BufWriter_new buf) = (w, Inr ())
     \<and> wpos w = length (request_text r) \<and> wbuf w = request_text r @ drop (length (request_text r)) buf
   else snd (w_all (map (\<lambda>p w. write_bytes w p) (request_pieces r)) (BufWriter_new buf)) = Inl (Serialize BufferTooSmall)"
proof -
  have inv: "buf_inv buf (BufWriter_new buf)" by (simp add: buf_inv_def BufWriter_new_def)
  note run = buf_sink.put_pieces [OF inv, of "request_pieces r", unfolded concat_pieces]
  show ?thesis
  proof (cases "length (request_text r) \<le> length buf")
    case True
    then obtain w where w: "w_all (map (\<lambda>p w. write_bytes w p) (request_pieces r)) (BufWriter_new buf) = (w, Inr ())"
      and i: "buf_inv buf w" and t: "take (wpos w) (wbuf w) = request_text r"
      using run by (auto simp: BufWriter_new_def split: if_splits)
    have p: "wpos w = length (request_text r)"
      using i arg_cong [OF t, of length] by (auto simp: buf_inv_def)
    have "wbuf w = request_text r @ drop (length (request_text r)) buf"
      using i t p by (metis append_take_drop_id buf_inv_def)
    with w p True show ?thesis by simp
  next
    case False
    then show ?thesis using run by (simp add: BufWriter_new_def)
  qed
qed


section \<open>Reading a request back\<close>

definition request_target :: "Request \<Rightarrow> bytes" where
  "request_target r = req_path r @ (case req_query r of None \<Rightarrow> [] | Some q \<Rightarrow> QUESTION # q)"

text \<open>A header as a line of the head grammar, its value split into whitespace and content.\<close>

definition field_line :: "Header \<Rightarrow> header_line" where
  "field_line h =
     (let v = dropWhile is_ows (hvalue h) in
      (name_as_bytes (hname h), SP # takeWhile is_ows (hvalue h),
       rev (dropWhile is_ows (rev v)), rev (takeWhile is_ows (rev v))))"

lemma field_line_text: "line_text (field_line h) = field_text h"
proof -
  have "hvalue h = takeWhile is_ows (hvalue h) @ dropWhile is_ows (hvalue h)" by simp
  moreover have "dropWhile is_ows (hvalue h) =
    rev (dropWhile is_ows (rev (dropWhile is_ows (hvalue h)))) @ rev (takeWhile is_ows (rev (dropWhile is_ows (hvalue h))))"
    by (metis rev_append rev_rev_ident takeWhile_dropWhile_id)
  ultimately show ?thesis
    by (simp add: line_text_def field_line_def header_text_def field_text_def Let_def bs_def)
qed

lemma field_line_header:
  "line_header (field_line h) = \<lparr> hname = Other (name_as_bytes (hname h)), hvalue = trim_ows (hvalue h) \<rparr>"
  by (simp add: line_header_def field_line_def Let_def trim_ows_dropWhile)

lemma validate_headers_ok:
  "validate_headers hs = Inr () \<longleftrightarrow>
     list_all (\<lambda>h. name_ok (name_as_bytes (hname h)) \<and> list_all (\<lambda>b. \<not> is_ctl b) (hvalue h)) hs"
  by (induction hs) (auto simp: name_ok_def Let_def is_ctl_reason list_ex_iff list_all_iff)

lemma field_line_ok:
  assumes "name_ok (name_as_bytes (hname h))" "list_all (\<lambda>b. \<not> is_ctl b) (hvalue h)"
  shows "line_ok (field_line h)"
proof -
  have t: "rev (dropWhile is_ows (rev (dropWhile is_ows (hvalue h)))) = trim_ows (hvalue h)"
    by (simp add: trim_ows_dropWhile)
  have "value_ok (trim_ows (hvalue h))"
    using assms(2) set_trim_ows_subset [of "hvalue h"] trim_ows_ends [of "hvalue h"]
    by (auto simp: value_ok_def list_all_iff)
  moreover have "is_ows SP" by (simp add: is_ows_def)
  ultimately show ?thesis
    using assms(1)
    by (auto simp: line_ok_def field_line_def Let_def t ows_ok_def list_all_iff dest: set_takeWhileD)
qed

lemma request_text_lines:
  "request_text r = request_line r @ CRLF @ lines_text (map field_line (req_headers r)) @ CRLF"
  by (simp add: request_text_def lines_text_def comp_def field_line_text)

lemma validate_ok:
  "validate r = Inr () \<longleftrightarrow>
     req_path r \<noteq> [] \<and> list_all is_target_byte (request_target r)
     \<and> list_all (\<lambda>h. name_ok (name_as_bytes (hname h)) \<and> list_all (\<lambda>b. \<not> is_ctl b) (hvalue h)) (req_headers r)"
proof -
  have "is_target_byte QUESTION" by (simp add: is_target_byte_def)
  then show ?thesis
    unfolding validate_headers_ok [symmetric]
    by (cases "req_query r") (auto simp: validate_def request_target_def list_ex_iff list_all_iff)
qed

lemma target_byte_clean: "is_target_byte b \<Longrightarrow> b \<noteq> SP \<and> b \<noteq> CR \<and> b \<noteq> LF"
  by (auto simp: is_target_byte_def)

lemma token_clean: "b \<in> set (token m) \<Longrightarrow> b \<noteq> SP \<and> b \<noteq> CR \<and> b \<noteq> LF"
  by (cases m) (auto simp: bs_def)

lemma version_clean: "b \<in> set (version_as_bytes v) \<Longrightarrow> b \<noteq> SP \<and> b \<noteq> CR \<and> b \<noteq> LF"
  by (cases v) (auto simp: bs_def)

text \<open>
  C23: a validated request cannot be used to inject anything. The first CRLF of its text ends
  the request line, whose only two spaces separate the method token, the target and the
  version; and reading the following header section with the parser of head grammar gives
  exactly the request's headers (values without surrounding whitespace) and ends exactly at
  the end of the text, whatever bytes follow.
\<close>

theorem request_reads_back:
  assumes "validate r = Inr ()" "length (req_headers r) \<le> length slots"
  shows "find_crlf (request_text r @ rest) = Some (length (request_line r))
    \<and> split_on (\<lambda>b. b = SP) (request_line r)
        = [token (req_method r), request_target r, version_as_bytes (req_version r)]
    \<and> (\<exists>spans. parse_headers (request_text r @ rest) (length (request_line r) + 2) 0 slots [] =
          Inr ((map (\<lambda>h. \<lparr> hname = Other (name_as_bytes (hname h)), hvalue = trim_ows (hvalue h) \<rparr>) (req_headers r)
                  @ drop (length (req_headers r)) slots, spans),
               length (req_headers r), length (request_text r)))"
proof (intro conjI)
  have line: "request_line r = token (req_method r) @ SP # request_target r @ SP # version_as_bytes (req_version r)"
    by (simp add: request_line_def request_target_def)
  have tgt: "\<forall>b\<in>set (request_target r). b \<noteq> SP \<and> b \<noteq> CR \<and> b \<noteq> LF"
    using assms(1) target_byte_clean unfolding validate_ok by (auto simp: list_all_iff)
  have "CR \<notin> set (request_line r)"
    using tgt token_clean version_clean by (force simp: line)
  then show "find_crlf (request_text r @ rest) = Some (length (request_line r))"
    using find_crlf_text by (simp add: request_text_def)
  show "split_on (\<lambda>b. b = SP) (request_line r)
      = [token (req_method r), request_target r, version_as_bytes (req_version r)]"
  proof -
    let ?p = "\<lambda>b. b = SP" and ?v = "version_as_bytes (req_version r)"
    have "split_on ?p (request_line r) = token (req_method r) # split_on ?p (request_target r @ SP # ?v)"
      unfolding line by (rule split_on_sep) (use token_clean in blast, simp)
    also have "split_on ?p (request_target r @ SP # ?v) = request_target r # split_on ?p ?v"
      by (rule split_on_sep) (use tgt in blast, simp)
    also have "split_on ?p ?v = [?v]"
      by (rule split_on_no_sep) (use version_clean in blast)
    finally show ?thesis .
  qed
  let ?ls = "map field_line (req_headers r)" and ?pre = "request_line r @ CRLF"
  have ok: "list_all line_ok ?ls"
    using assms(1) field_line_ok unfolding validate_ok by (auto simp: list_all_iff)
  have "\<exists>sps. parse_headers (?pre @ lines_text ?ls @ CRLF @ rest) (length ?pre) 0 slots [] =
      Inr ((take 0 slots @ map line_header ?ls @ drop (0 + length ?ls) slots, [] @ sps),
           0 + length ?ls, length ?pre + length (lines_text ?ls) + 2)"
    using assms(2) by (intro parse_headers_complete [OF ok]) simp
  then show "\<exists>spans. parse_headers (request_text r @ rest) (length (request_line r) + 2) 0 slots [] =
          Inr ((map (\<lambda>h. \<lparr> hname = Other (name_as_bytes (hname h)), hvalue = trim_ows (hvalue h) \<rparr>) (req_headers r)
                  @ drop (length (req_headers r)) slots, spans),
               length (req_headers r), length (request_text r))"
    by (simp add: request_text_lines comp_def field_line_header)
qed

text \<open>A small request, at which the property is applied.\<close>

definition sample_request :: Request where
  "sample_request =
     \<lparr> req_method = Get, req_path = bs ''/a'', req_query = Some (bs ''q=1''), req_version = Http11,
       req_headers = [\<lparr> hname = HN_Host, hvalue = bs ''example.org'' \<rparr>] \<rparr>"

theorem request_reads_back_witness:
  "split_on (\<lambda>b. b = SP) (request_line sample_request) = [bs ''GET'', bs ''/a?q=1'', bs ''HTTP/1.1'']"
proof -
  have v: "validate sample_request = Inr ()" by code_simp
  have "length (req_headers sample_request) \<le> length [Header_empty]" by (simp add: sample_request_def)
  from request_reads_back [OF v this, of "[]"] show ?thesis
    by (simp add: sample_request_def request_target_def bs_def)
qed

end
