(* ===== verification/Url_Host.thy ===== *)
theory Url_Host
  imports Url
begin

text \<open>
  The host part of \<^verbatim>\<open>url.rs\<close> against the productions of RFC 3986 and RFC 6874: decimal octets,
  IPv4 and IPv6 addresses, percent-encoded text, zone identifiers, IP literals, and ports.
\<close>

section \<open>The address productions\<close>

definition h16 :: "bytes \<Rightarrow> bool" where
  "h16 g = (1 \<le> length g \<and> length g \<le> 4 \<and> list_all is_ascii_hexdigit g)"

definition ipv4_text :: "bytes \<Rightarrow> bool" where
  "ipv4_text v = (\<exists>a b c d. a \<le> 255 \<and> b \<le> 255 \<and> c \<le> 255 \<and> d \<le> 255
     \<and> v = join_with DOT (map to_decimal [a, b, c, d]))"

definition ipv6_text :: "bytes \<Rightarrow> bool" where
  "ipv6_text a \<longleftrightarrow>
     (\<exists>gs. length gs = 8 \<and> list_all h16 gs \<and> a = join_with COLON gs)
   \<or> (\<exists>gs v. length gs = 6 \<and> list_all h16 gs \<and> ipv4_text v \<and> a = join_with COLON (gs @ [v]))
   \<or> (\<exists>ls rs. length ls + length rs \<le> 7 \<and> list_all h16 (ls @ rs)
        \<and> a = join_with COLON ls @ bs ''::'' @ join_with COLON rs)
   \<or> (\<exists>ls rs v. length ls + length rs \<le> 5 \<and> list_all h16 (ls @ rs) \<and> ipv4_text v
        \<and> a = join_with COLON ls @ bs ''::'' @ join_with COLON (rs @ [v]))"

lemma to_decimal_decimal_value:
  assumes "list_all is_ascii_digit xs" "xs \<noteq> []" "length xs = 1 \<or> xs ! 0 \<noteq> DIGIT0"
  shows "to_decimal (decimal_value xs) = xs"
  using assms
proof (induction xs rule: rev_induct)
  case (snoc b xs)
  have b: "digit_value b < 10" "DIGIT0 + of_nat (digit_value b) = b" using snoc.prems digit_bytes by auto
  show ?case
  proof (cases "xs = []")
    case True
    then show ?thesis using b by (simp add: decimal_value_def to_decimal.simps)
  next
    case False
    then have lead: "xs ! 0 \<noteq> DIGIT0" and d: "list_all is_ascii_digit xs"
      using snoc.prems by (auto simp: nth_append)
    have IH: "to_decimal (decimal_value xs) = xs" using snoc.IH d False lead by simp
    have "decimal_value xs \<noteq> 0"
    proof
      assume "decimal_value xs = 0"
      with IH have "xs = [DIGIT0]" by (simp add: to_decimal.simps)
      with lead show False by simp
    qed
    moreover have "decimal_value (xs @ [b]) = decimal_value xs * 10 + digit_value b"
      by (simp add: decimal_value_def)
    ultimately show ?thesis using b IH
      by (subst to_decimal.simps) simp
  qed
qed simp

lemma foldl_u32_digits:
  "foldl (\<lambda>acc b. acc * 10 + ucast (b - DIGIT0)) (of_nat n :: u32) xs =
     of_nat (foldl (\<lambda>acc b. acc * 10 + digit_value b) n xs)"
proof (induction xs arbitrary: n)
  case (Cons b xs)
  have "of_nat n * 10 + ucast (b - DIGIT0) = (of_nat (n * 10 + digit_value b) :: u32)"
    by (simp add: digit_value_def)
  then show ?case using Cons.IH [of "n * 10 + digit_value b"] by (simp only: foldl_Cons)
qed simp

lemma decimal_value_bound:
  "list_all is_ascii_digit xs \<Longrightarrow> decimal_value xs < 10 ^ length xs"
proof (induction xs rule: rev_induct)
  case (snoc b xs)
  then show ?case using digit_bytes(2) [of b] by (simp add: decimal_value_def)
qed (simp add: decimal_value_def)

lemma is_ipv4_octet_iff: "is_ipv4_octet xs \<longleftrightarrow> (\<exists>n\<le>255. xs = to_decimal n)"
proof
  assume o: "is_ipv4_octet xs"
  then have d: "list_all is_ascii_digit xs" and l: "length xs \<le> 3" by (simp_all add: is_ipv4_octet_def)
  have "decimal_value xs < 10 ^ length xs" by (rule decimal_value_bound [OF d])
  also have "\<dots> \<le> 10 ^ 3" using l by (intro power_increasing) auto
  finally have lt: "decimal_value xs < 1000" by simp
  have "(of_nat (decimal_value xs) :: u32) \<le> 255"
    using o foldl_u32_digits [of 0 xs] by (simp add: is_ipv4_octet_def decimal_value_def)
  then have "decimal_value xs \<le> 255"
    using lt by (simp add: word_le_nat_alt unsigned_of_nat take_bit_nat_eq_self)
  then show "\<exists>n\<le>255. xs = to_decimal n"
    using to_decimal_decimal_value [of xs] o by (auto simp: is_ipv4_octet_def intro!: exI [of _ "decimal_value xs"])
next
  have "\<forall>n\<in>set [0..<256]. is_ipv4_octet (to_decimal n)" by code_simp
  then show "\<exists>n\<le>255. xs = to_decimal n \<Longrightarrow> is_ipv4_octet xs" by auto
qed

lemma DOT_notin_to_decimal: "DOT \<notin> set (to_decimal n)" "COLON \<notin> set (to_decimal n)"
  using to_decimal_digits [of n] by (auto simp: list_all_iff is_ascii_digit_def)

lemma is_ipv4_address_iff: "is_ipv4_address v \<longleftrightarrow> ipv4_text v"
proof
  assume "is_ipv4_address v"
  then obtain a b c d where s: "split_on (\<lambda>b. b = DOT) v = [a, b, c, d]"
    and o: "is_ipv4_octet a" "is_ipv4_octet b" "is_ipv4_octet c" "is_ipv4_octet d"
    by (auto simp: is_ipv4_address_def Let_def length_4_cases)
  moreover have "v = join_with DOT [a, b, c, d]" by (metis s join_split_on)
  ultimately show "ipv4_text v" unfolding ipv4_text_def is_ipv4_octet_iff by auto
next
  assume "ipv4_text v"
  then obtain a b c d where r: "a \<le> 255" "b \<le> 255" "c \<le> 255" "d \<le> 255"
    and v: "v = join_with DOT (map to_decimal [a, b, c, d])" by (auto simp: ipv4_text_def)
  have "split_on (\<lambda>b. b = DOT) v = map to_decimal [a, b, c, d]"
    unfolding v by (rule split_on_join) (auto simp: DOT_notin_to_decimal)
  then show "is_ipv4_address v" using r by (auto simp: is_ipv4_address_def is_ipv4_octet_iff)
qed

subsection \<open>Groups of an IPv6 address\<close>

lemma h16_clean: "h16 g \<Longrightarrow> COLON \<notin> set g \<and> DOT \<notin> set g \<and> g \<noteq> []"
  by (auto simp: h16_def list_all_iff is_ascii_hexdigit_def is_ascii_digit_def)

lemma ipv4_text_clean: "ipv4_text v \<Longrightarrow> COLON \<notin> set v \<and> v \<noteq> [] \<and> DOT \<in> set v"
  by (auto simp: ipv4_text_def DOT_notin_to_decimal)

abbreviation colon_clean :: "bytes list \<Rightarrow> bool" where
  "colon_clean gs \<equiv> \<forall>g\<in>set gs. COLON \<notin> set g \<and> g \<noteq> []"

lemma h16s_clean: "list_all h16 gs \<Longrightarrow> colon_clean gs"
  by (auto simp: list_all_iff dest: h16_clean)

lemma join_with_Nil_iff: "colon_clean gs \<Longrightarrow> join_with COLON gs = [] \<longleftrightarrow> gs = []"
  by (cases gs; cases "tl gs") (auto simp: join_with_Cons)

lemma h16_group_bad: "(g = [] \<or> length g > 4 \<or> \<not> list_all is_ascii_hexdigit g) \<longleftrightarrow> \<not> h16 g"
  by (cases g) (auto simp: h16_def)

lemma h16_groups_sound:
  assumes "h16_groups part allow = Inr (gs, v4)"
  shows "list_all h16 gs \<and>
    (if v4 then allow \<and> (\<exists>v. ipv4_text v \<and> part = join_with COLON (gs @ [v])) else part = join_with COLON gs)"
proof (cases "part = []")
  case True
  then show ?thesis using assms by (auto simp: h16_groups_def)
next
  case False
  let ?r = "split_on (\<lambda>b. b = COLON) part"
  let ?v4 = "allow \<and> ?r \<noteq> [] \<and> is_ipv4_address (last ?r)"
  have j: "part = join_with COLON ?r" by simp
  from assms False have v4: "v4 = ?v4" and gs: "gs = (if ?v4 then take (length ?r - 1) ?r else ?r)"
    and ok: "list_all h16 gs"
    unfolding h16_groups_def h16_group_bad
    by (auto simp: Let_def list_all_iff list_ex_iff split: if_splits)
  show ?thesis
  proof (cases ?v4)
    case True
    then have "?r = gs @ [last ?r]" using gs append_butlast_last_id [of ?r] by (simp add: butlast_conv_take)
    then have "part = join_with COLON (gs @ [last ?r])" using j by metis
    then show ?thesis using True v4 ok is_ipv4_address_iff by auto
  next
    case False
    then have nv: "\<not> v4" and "gs = ?r" unfolding v4 gs by (simp_all only: if_False not_False_eq_True)
    then show ?thesis using ok j by (simp only: if_False simp_thms)
  qed
qed

lemma h16_groups_plain:
  assumes "list_all h16 gs"
  shows "h16_groups (join_with COLON gs) allow = Inr (gs, False)"
proof (cases "gs = []")
  case False
  note c = h16s_clean [OF assms]
  have s: "split_on (\<lambda>b. b = COLON) (join_with COLON gs) = gs"
    by (rule split_on_join [OF False]) (use c in blast)
  have "h16 (last gs)" using assms False by (simp add: list_all_iff)
  then have "\<not> is_ipv4_address (last gs)"
    unfolding is_ipv4_address_iff using h16_clean ipv4_text_clean by blast
  then show ?thesis using False c assms join_with_Nil_iff [OF c]
    unfolding h16_groups_def h16_group_bad s by (auto simp: Let_def list_all_iff list_ex_iff)
qed (simp add: h16_groups_def)

lemma h16_groups_v4:
  assumes "list_all h16 gs" "ipv4_text v"
  shows "h16_groups (join_with COLON (gs @ [v])) True = Inr (gs, True)"
proof -
  have c: "colon_clean (gs @ [v])" using h16s_clean [OF assms(1)] ipv4_text_clean [OF assms(2)] by auto
  have s: "split_on (\<lambda>b. b = COLON) (join_with COLON (gs @ [v])) = gs @ [v]"
    by (rule split_on_join) (use c in auto)
  show ?thesis using c assms join_with_Nil_iff [OF c]
    unfolding h16_groups_def h16_group_bad s
    by (auto simp: Let_def list_all_iff list_ex_iff is_ipv4_address_iff)
qed

subsection \<open>The double colon\<close>

abbreviation find_dc :: "bytes \<Rightarrow> usize option" where
  "find_dc a \<equiv> position (\<lambda>w. w = [COLON, COLON]) (windows 2 a)"

lemma find_dc_append:
  "find_dc xs = None \<Longrightarrow> xs = [] \<or> last xs \<noteq> COLON \<Longrightarrow> find_dc (xs @ COLON # COLON # ys) = Some (length xs)"
proof (induction xs)
  case (Cons x xs)
  then show ?case by (cases xs) (auto simp: position_windows_simps split: if_splits)
qed (simp add: position_windows_simps)

lemma find_dc_clean: "COLON \<notin> set g \<Longrightarrow> find_dc g = None"
proof (induction g)
  case (Cons x xs)
  then show ?case by (cases xs) (auto simp: position_windows_simps)
qed (simp add: position_windows_simps)

lemma find_dc_group:
  assumes "COLON \<notin> set g" "y \<noteq> COLON"
  shows "find_dc (g @ COLON # y # ys) = map_option (\<lambda>i. length g + Suc i) (find_dc (y # ys))"
  using assms
proof (induction g)
  case (Cons x xs)
  then show ?case by (cases xs) (auto simp: position_windows_simps option.map_comp comp_def)
qed (simp add: position_windows_simps)

lemma join_with_no_dc:
  assumes "colon_clean gs"
  shows "find_dc (join_with COLON gs) = None \<and>
    (gs \<noteq> [] \<longrightarrow> hd (join_with COLON gs) \<noteq> COLON \<and> last (join_with COLON gs) \<noteq> COLON)"
  using assms
proof (induction gs)
  case (Cons g gs)
  have g: "COLON \<notin> set g" "g \<noteq> []" using Cons.prems by auto
  then have e: "hd g \<noteq> COLON" "last g \<noteq> COLON" using hd_in_set last_in_set by metis+
  show ?case
  proof (cases "gs = []")
    case True
    then show ?thesis using g e by (simp add: find_dc_clean)
  next
    case False
    have c: "colon_clean gs" using Cons.prems by auto
    from False join_with_Nil_iff [OF c] obtain y ys where y: "join_with COLON gs = y # ys"
      by (cases "join_with COLON gs") auto
    with Cons.IH [OF c] False have "y \<noteq> COLON" "find_dc (y # ys) = None" "last (y # ys) \<noteq> COLON" by auto
    then show ?thesis using g e find_dc_group [OF g(1), of y ys] False y
      by (auto simp: join_with_Cons)
  qed
qed (simp add: position_windows_simps)

lemma dc_ex_iff: "list_ex (\<lambda>w. w = [COLON, COLON]) (windows 2 a) \<longleftrightarrow> find_dc a \<noteq> None"
  by (auto simp: position_None_iff list_ex_iff)

lemma find_dc_join:
  assumes "colon_clean ls"
  shows "find_dc (join_with COLON ls @ COLON # COLON # ys) = Some (length (join_with COLON ls))"
  using join_with_no_dc [OF assms] by (intro find_dc_append) auto

lemma validate_ipv6_plain:
  "find_dc a = None \<Longrightarrow> validate_ipv6_address a =
     (if a = [] then Inl (invalid_byte 1)
      else res_bind (h16_groups a True) (\<lambda>(gs, v4).
        if length gs + (if v4 then 2 else 0) = 8 then Inr () else Inl (invalid_byte 1)))"
  by (auto simp: validate_ipv6_address_def split_h16_groups_allowing_v4_def h16_groups_def [of "[]"] Let_def
      intro!: arg_cong [of _ _ "res_bind (h16_groups a True)"])

lemma validate_ipv6_elided:
  "find_dc a = Some pos \<Longrightarrow> validate_ipv6_address a =
     (if find_dc (drop (pos + 2) a) \<noteq> None then Inl (invalid_byte 1)
      else res_bind (h16_groups (take pos a) False) (\<lambda>(ls, _).
        res_bind (h16_groups (drop (pos + 2) a) True) (\<lambda>(rs, v4).
          if length ls + length rs + (if v4 then 2 else 0) < 8 then Inr () else Inl (invalid_byte 1))))"
  by (cases "a = []"; cases "h16_groups (take pos a) False"; cases "h16_groups (drop (Suc (Suc pos)) a) True")
    (auto simp: validate_ipv6_address_def split_h16_groups_allowing_v4_def split_h16_groups_def
      dc_ex_iff Let_def position_windows_simps)

lemma validate_ipv6_complete:
  assumes "ipv6_text a"
  shows "validate_ipv6_address a = Inr ()"
proof -
  have plain: "validate_ipv6_address (join_with COLON gs) =
      res_bind (h16_groups (join_with COLON gs) True) (\<lambda>(gs, v4).
        if length gs + (if v4 then 2 else 0) = 8 then Inr () else Inl (invalid_byte 1))"
    if "colon_clean gs" "gs \<noteq> []" for gs
    using validate_ipv6_plain join_with_no_dc [OF that(1)] join_with_Nil_iff [OF that(1)] that(2) by simp
  have elided: "validate_ipv6_address (join_with COLON ls @ COLON # COLON # join_with COLON rs) =
      res_bind (h16_groups (join_with COLON ls) False) (\<lambda>(ls, _).
        res_bind (h16_groups (join_with COLON rs) True) (\<lambda>(rs, v4).
          if length ls + length rs + (if v4 then 2 else 0) < 8 then Inr () else Inl (invalid_byte 1)))"
    if "colon_clean ls" "colon_clean rs" for ls rs
    using validate_ipv6_elided [OF find_dc_join [OF that(1)]] join_with_no_dc [OF that(2)] by simp
  from assms show ?thesis unfolding ipv6_text_def
  proof (elim disjE exE conjE)
    fix gs assume "length gs = 8" "list_all h16 gs" "a = join_with COLON gs"
    moreover from this have "gs \<noteq> []" by auto
    ultimately show ?thesis using plain [of gs] h16s_clean [of gs] h16_groups_plain [of gs True] by auto
  next
    fix gs v assume a: "length gs = 6" "list_all h16 gs" "ipv4_text v" "a = join_with COLON (gs @ [v])"
    then have "colon_clean (gs @ [v])" using h16s_clean ipv4_text_clean by auto
    with a show ?thesis using plain [of "gs @ [v]"] h16_groups_v4 [of gs v] by simp
  next
    fix ls rs assume a: "length ls + length rs \<le> 7" "list_all h16 (ls @ rs)"
      "a = join_with COLON ls @ bs ''::'' @ join_with COLON rs"
    then have "colon_clean ls" "colon_clean rs" using h16s_clean [of ls] h16s_clean [of rs] by simp_all
    with a show ?thesis using elided [of ls rs] h16_groups_plain [of ls False] h16_groups_plain [of rs True]
      by (simp add: bs_def)
  next
    fix ls rs v assume a: "length ls + length rs \<le> 5" "list_all h16 (ls @ rs)" "ipv4_text v"
      "a = join_with COLON ls @ bs ''::'' @ join_with COLON (rs @ [v])"
    then have "colon_clean ls" "colon_clean (rs @ [v])"
      using h16s_clean [of ls] h16s_clean [of rs] ipv4_text_clean [of v] by auto
    with a show ?thesis using elided [of ls "rs @ [v]"] h16_groups_plain [of ls False] h16_groups_v4 [of rs v]
      by (simp add: bs_def)
  qed
qed

lemma validate_ipv6_sound:
  assumes "validate_ipv6_address a = Inr ()"
  shows "ipv6_text a"
proof (cases "find_dc a")
  case None
  from assms obtain gs v4 where g: "h16_groups a True = Inr (gs, v4)"
    and n: "length gs + (if v4 then 2 else 0) = 8"
    unfolding validate_ipv6_plain [OF None] by (auto simp: res_simps split: if_splits)
  from h16_groups_sound [OF g] n show ?thesis unfolding ipv6_text_def by (cases v4) auto
next
  case (Some pos)
  from assms obtain ls l4 rs v4 where l: "h16_groups (take pos a) False = Inr (ls, l4)"
    and r: "h16_groups (drop (pos + 2) a) True = Inr (rs, v4)"
    and n: "length ls + length rs + (if v4 then 2 else 0) < 8"
    unfolding validate_ipv6_elided [OF Some] by (auto simp: res_simps split: if_splits)
  have a: "a = take pos a @ bs ''::'' @ drop (pos + 2) a"
    using position_windows_Some [of "[COLON, COLON]" a pos] Some by (simp add: bs_def numeral_2_eq_2)
  note L = h16_groups_sound [OF l] and R = h16_groups_sound [OF r]
  show ?thesis
  proof (cases v4)
    case True
    then obtain v where v: "ipv4_text v" "drop (pos + 2) a = join_with COLON (rs @ [v])" using R by auto
    have "a = join_with COLON ls @ bs ''::'' @ join_with COLON (rs @ [v])"
      using a L v(2) by (metis (full_types))
    moreover have "length ls + length rs \<le> 5" "list_all h16 (ls @ rs)" using n True L R by auto
    ultimately show ?thesis unfolding ipv6_text_def using v(1) by blast
  next
    case False
    have "a = join_with COLON ls @ bs ''::'' @ join_with COLON rs"
      using a L R False by (metis (full_types))
    moreover have "length ls + length rs \<le> 7" "list_all h16 (ls @ rs)" using n False L R by auto
    ultimately show ?thesis unfolding ipv6_text_def by blast
  qed
qed

lemma validate_ipv6_iff: "validate_ipv6_address a = Inr () \<longleftrightarrow> ipv6_text a"
  using validate_ipv6_complete validate_ipv6_sound by blast

section \<open>Percent-encoded text\<close>

inductive pct_text :: "(u8 \<Rightarrow> bool) \<Rightarrow> bytes \<Rightarrow> bool" for plain where
  pct_Nil: "pct_text plain []"
| pct_plain: "plain b \<Longrightarrow> b \<noteq> PERCENT \<Longrightarrow> pct_text plain xs \<Longrightarrow> pct_text plain (b # xs)"
| pct_escape: "is_ascii_hexdigit h \<Longrightarrow> is_ascii_hexdigit l \<Longrightarrow> pct_text plain xs \<Longrightarrow> pct_text plain (PERCENT # h # l # xs)"

inductive_simps pct_text_Cons: "pct_text plain (b # xs)"

declare pct_Nil [simp]

lemma pct_loop_iff: "pct_loop plain xs i = Inr () \<longleftrightarrow> pct_text plain (drop i xs)"
proof (induction plain xs i rule: pct_loop.induct)
  case (1 plain xs i)
  show ?case
  proof (cases "i < length xs")
    case True
    then have d: "drop i xs = xs ! i # drop (i + 1) xs" by (simp add: Cons_nth_drop_Suc)
    show ?thesis
    proof (cases "xs ! i = PERCENT")
      case esc: True
      show ?thesis
      proof (cases "hex_at xs (i + 1) \<and> hex_at xs (i + 2)")
        case True
        then have "drop (i + 1) xs = xs ! (i + 1) # xs ! (i + 2) # drop (i + 3) xs"
          by (simp add: hex_at_def Cons_nth_drop_Suc eval_nat_numeral)
        then show ?thesis using True esc d \<open>i < length xs\<close> 1(1) [OF \<open>i < length xs\<close> refl esc]
          by (subst pct_loop.simps) (simp add: pct_text_Cons hex_at_def)
      next
        case False
        have "\<not> (\<exists>h l ys. drop (i + 1) xs = h # l # ys \<and> is_ascii_hexdigit h \<and> is_ascii_hexdigit l)"
        proof
          assume "\<exists>h l ys. drop (i + 1) xs = h # l # ys \<and> is_ascii_hexdigit h \<and> is_ascii_hexdigit l"
          then obtain h l ys where e: "drop (i + 1) xs = h # l # ys" "is_ascii_hexdigit h" "is_ascii_hexdigit l"
            by blast
          have "length (drop (i + 1) xs) = Suc (Suc (length ys))" using e(1) by simp
          then have "i + 2 < length xs" by simp
          moreover have "xs ! (i + 1) = h" "xs ! (i + 2) = l"
            using e(1) nth_drop [of "i + 1" xs 0] nth_drop [of "i + 1" xs 1] calculation by simp_all
          ultimately show False using False e by (simp add: hex_at_def)
        qed
        then show ?thesis using False esc d True by (subst pct_loop.simps) (auto simp: pct_text_Cons)
      qed
    next
      case False
      then show ?thesis using d True 1(2) [OF True refl False]
        by (subst pct_loop.simps) (auto simp: pct_text_Cons)
    qed
  next
    case False
    then show ?thesis by (subst pct_loop.simps) simp
  qed
qed

lemma pct_text_bytes: "pct_text plain xs \<Longrightarrow> b \<in> set xs \<Longrightarrow> plain b \<or> is_ascii_hexdigit b \<or> b = PERCENT"
  by (induction rule: pct_text.induct) auto

lemmas validate_pct_defs = validate_reg_name_def validate_zone_id_def validate_pct_encoded_unreserved_def

section \<open>Ports, splits and IP literals\<close>

lemma parse_port_loop_eq:
  "n \<le> 65535 \<Longrightarrow> parse_port_loop xs (of_nat n) =
     (let v = foldl (\<lambda>acc b. acc * 10 + digit_value b) n xs in
      if list_all is_ascii_digit xs \<and> v \<le> 65535 then Inr (of_nat v) else Inl (UrlParse InvalidPort))"
proof (induction xs arbitrary: n)
  case Nil
  then have "take_bit 32 n = n" by (simp add: take_bit_nat_eq_self)
  then show ?case using Nil by (simp add: unsigned_of_nat)
next
  case (Cons b xs)
  let ?m = "n * 10 + digit_value b"
  have e: "(of_nat n :: u32) * 10 + ucast (b - DIGIT0) = of_nat ?m" by (simp add: digit_value_def)
  show ?case
  proof (cases "is_ascii_digit b")
    case True
    then have "?m < 1000000" using Cons.prems digit_bytes(2) [OF True] by simp
    then have "(of_nat ?m :: u32) > 65535 \<longleftrightarrow> ?m > 65535"
      by (simp add: word_less_nat_alt unsigned_of_nat take_bit_nat_eq_self del: of_nat_add of_nat_mult)
    then show ?thesis using True Cons.IH [of ?m] foldl_digits_mono [of ?m xs]
      by (auto simp: Let_def digit_gt_9 e simp del: of_nat_add of_nat_mult)
  qed (simp add: Let_def digit_gt_9)
qed

lemma parse_port_iff:
  "parse_port xs = Inr p \<longleftrightarrow>
     xs \<noteq> [] \<and> list_all is_ascii_digit xs \<and> decimal_value xs \<le> 65535 \<and> p = of_nat (decimal_value xs)"
  using parse_port_loop_eq [of 0 xs] by (auto simp: parse_port_def decimal_value_def Let_def)

definition opt_text :: "u8 \<Rightarrow> bytes option \<Rightarrow> bytes" where
  "opt_text c r = (case r of None \<Rightarrow> [] | Some y \<Rightarrow> c # y)"

lemma opt_text_simps [simp]: "opt_text c None = []" "opt_text c (Some y) = c # y"
  by (simp_all add: opt_text_def)

lemma split_first_iff:
  "split_first (\<lambda>b. b = c) xs = (a, r) \<longleftrightarrow> xs = a @ opt_text c r \<and> c \<notin> set a"
proof
  assume h: "split_first (\<lambda>b. b = c) xs = (a, r)"
  show "xs = a @ opt_text c r \<and> c \<notin> set a"
  proof (cases "position (\<lambda>b. b = c) xs")
    case None
    then have "a = xs" "r = None" using h by (simp_all add: split_first_def)
    then show ?thesis using None by (auto simp: position_None_iff)
  next
    case (Some i)
    then have "i < length xs" "xs ! i = c" by (auto simp: position_Some_iff)
    then have "xs = take i xs @ c # drop (i + 1) xs" by (metis Suc_eq_plus1 id_take_nth_drop)
    moreover have "c \<notin> set (take i xs)" using position_take_clean [OF Some] by blast
    ultimately show ?thesis using h Some by (auto simp: split_first_def)
  qed
next
  assume h: "xs = a @ opt_text c r \<and> c \<notin> set a"
  then have "position (\<lambda>b. b = c) a = None" by (auto simp: position_None_iff)
  then show "split_first (\<lambda>b. b = c) xs = (a, r)"
    using h by (cases r) (auto simp: split_first_def position_append)
qed

definition ip_literal_text :: "bytes \<Rightarrow> bool" where
  "ip_literal_text x \<longleftrightarrow>
     ipv6_text x
   \<or> (\<exists>a z. x = a @ bs ''%25'' @ z \<and> ipv6_text a \<and> z \<noteq> [] \<and> pct_text is_zone_id_byte z)
   \<or> (\<exists>v ver rest. x = v # ver @ DOT # rest \<and> v \<in> {0x76, 0x56} \<and> ver \<noteq> [] \<and> rest \<noteq> []
        \<and> list_all is_ascii_hexdigit ver \<and> list_all is_future_byte rest)"

lemma ipv6_text_bytes: "ipv6_text a \<Longrightarrow> b \<in> set a \<Longrightarrow> is_ascii_hexdigit b \<or> b = COLON \<or> b = DOT"
proof -
  have j: "b \<in> set (join_with s gs) \<Longrightarrow> b = s \<or> (\<exists>g\<in>set gs. b \<in> set g)" for b s :: u8 and gs
    by (induction s gs rule: join_with.induct) auto
  have d: "b \<in> set (to_decimal n) \<Longrightarrow> is_ascii_hexdigit b" for n b
    using to_decimal_digits [of n] by (auto simp: list_all_iff is_ascii_hexdigit_def)
  have v: "ipv4_text v \<Longrightarrow> b \<in> set v \<Longrightarrow> is_ascii_hexdigit b \<or> b = DOT" for v
    using d j [of b DOT] unfolding ipv4_text_def by fastforce
  have h: "list_all h16 gs \<Longrightarrow> g \<in> set gs \<Longrightarrow> b \<in> set g \<Longrightarrow> is_ascii_hexdigit b" for gs g
    by (auto simp: list_all_iff h16_def)
  have jh: "list_all h16 gs \<Longrightarrow> b \<in> set (join_with COLON gs) \<Longrightarrow> is_ascii_hexdigit b \<or> b = COLON" for gs
    using j [of b COLON gs] h [of gs] by blast
  have jv: "list_all h16 gs \<Longrightarrow> ipv4_text v \<Longrightarrow> b \<in> set (join_with COLON (gs @ [v])) \<Longrightarrow>
      is_ascii_hexdigit b \<or> b = COLON \<or> b = DOT" for gs v
    using j [of b COLON "gs @ [v]"] h [of gs] v [of v] by auto
  assume "ipv6_text a" "b \<in> set a"
  then show ?thesis unfolding ipv6_text_def
    by (elim disjE exE conjE) (use jh jv in \<open>auto simp: bs_def\<close>)
qed

lemma ipv6_text_clean: "ipv6_text a \<Longrightarrow> b \<in> set a \<Longrightarrow> b \<noteq> PERCENT \<and> b \<noteq> 0x76 \<and> b \<noteq> 0x56"
  using ipv6_text_bytes [of a b] by (auto simp: is_ascii_hexdigit_def is_ascii_digit_def)

lemma ipv6_text_not_Nil [simp]: "\<not> ipv6_text []"
  using validate_ipv6_iff [of "[]"] by (simp add: validate_ipv6_address_def)

abbreviation find_zone :: "bytes \<Rightarrow> usize option" where
  "find_zone x \<equiv> position (\<lambda>w. w = bs ''%25'') (windows 3 x)"

lemma find_zone_eq: "find_zone x = find_subsequence x (bs ''%25'')"
  by (simp add: find_subsequence_def bs_def eval_nat_numeral)

lemma find_zone_clean: "PERCENT \<notin> set x \<Longrightarrow> find_zone x = None"
proof -
  assume p: "PERCENT \<notin> set x"
  have "take (length (bs ''%25'')) (drop i x) \<noteq> bs ''%25''" for i
  proof
    assume "take (length (bs ''%25'')) (drop i x) = bs ''%25''"
    then have "PERCENT \<in> set (take (length (bs ''%25'')) (drop i x))" by (simp add: bs_def)
    with p show False by (meson in_set_dropD in_set_takeD)
  qed
  then show ?thesis unfolding find_zone_eq by (subst find_subsequence_None_iff) (simp_all add: bs_def)
qed

lemma find_zone_append: "PERCENT \<notin> set a \<Longrightarrow> find_zone (a @ bs ''%25'' @ z) = Some (length a)"
proof -
  assume p: "PERCENT \<notin> set a"
  have "take (length (bs ''%25'')) (drop j (a @ bs ''%25'' @ z)) \<noteq> bs ''%25''" if "j < length a" for j
  proof
    let ?d = "drop j (a @ bs ''%25'' @ z)"
    assume h: "take (length (bs ''%25'')) ?d = bs ''%25''"
    have "0 < length (bs ''%25'')" by (simp add: bs_def)
    from hd_take [OF this, of ?d] have "hd ?d = PERCENT" unfolding h by (simp add: bs_def)
    then have "a ! j = PERCENT" using that by (simp add: hd_drop_conv_nth nth_append)
    with p that show False by (metis nth_mem)
  qed
  then show ?thesis unfolding find_zone_eq by (subst find_subsequence_Some_iff) (auto simp: bs_def)
qed

lemma validate_zone_id_iff: "validate_zone_id z = Inr () \<longleftrightarrow> z \<noteq> [] \<and> pct_text is_zone_id_byte z"
  by (simp add: validate_pct_defs pct_loop_iff)

lemma validate_ipvfuture_iff:
  "validate_ipvfuture (v # x) = Inr () \<and> v \<noteq> DOT \<longleftrightarrow>
     v \<noteq> DOT \<and> (\<exists>ver rest. x = ver @ DOT # rest \<and> ver \<noteq> [] \<and> rest \<noteq> []
        \<and> list_all is_ascii_hexdigit ver \<and> list_all is_future_byte rest)"
proof (cases "v = DOT")
  case False
  have dot: "list_all is_ascii_hexdigit ver \<Longrightarrow> DOT \<notin> set ver" for ver
    by (auto simp: list_all_iff is_ascii_hexdigit_def is_ascii_digit_def)
  obtain ver r where s: "split_first (\<lambda>b. b = DOT) x = (ver, r)" by (cases "split_first (\<lambda>b. b = DOT) x") auto
  note s' = s [unfolded split_first_iff]
  have "validate_ipvfuture (v # x) = Inr () \<longleftrightarrow>
      (\<exists>rest. r = Some rest \<and> ver \<noteq> [] \<and> rest \<noteq> [] \<and> list_all is_ascii_hexdigit ver \<and> list_all is_future_byte rest)"
    using s False by (auto simp: validate_ipvfuture_def split_first_def Let_def slice_def split: option.splits if_splits)
  also have "\<dots> \<longleftrightarrow> (\<exists>ver rest. x = ver @ DOT # rest \<and> ver \<noteq> [] \<and> rest \<noteq> []
        \<and> list_all is_ascii_hexdigit ver \<and> list_all is_future_byte rest)"
    (is "?L \<longleftrightarrow> (\<exists>w t. ?R w t)")
  proof
    assume ?L
    then show "\<exists>w t. ?R w t" using s' by (intro exI [of _ ver] exI [of _ "the r"]) auto
  next
    assume "\<exists>w t. ?R w t"
    then obtain w t where R: "?R w t" by blast
    then have "split_first (\<lambda>b. b = DOT) x = (w, Some t)" unfolding split_first_iff using dot by auto
    with R s show ?L by simp
  qed
  finally show ?thesis using False by blast
qed simp

lemma validate_ip_literal_iff: "validate_ip_literal x = Inr () \<longleftrightarrow> ip_literal_text x"
proof (cases x)
  case Nil
  then show ?thesis using ipv6_text_not_Nil by (auto simp: validate_ip_literal_def ip_literal_text_def bs_def)
next
  case (Cons v y)
  have future: "(\<exists>w ver rest. x = w # ver @ DOT # rest \<and> w \<in> {0x76, 0x56} \<and> P ver rest) \<longleftrightarrow>
      v \<in> {0x76, 0x56} \<and> (\<exists>ver rest. y = ver @ DOT # rest \<and> P ver rest)" for P
    using Cons by auto
  have no_v6: "\<not> ipv6_text (v # z)" if "v \<in> {0x76, 0x56}" for z
    using ipv6_text_clean [of "v # z" v] that by auto
  show ?thesis
  proof (cases "v \<in> {0x76, 0x56}")
    case True
    have "\<not> (\<exists>a z. x = a @ bs ''%25'' @ z \<and> ipv6_text a)"
    proof
      assume "\<exists>a z. x = a @ bs ''%25'' @ z \<and> ipv6_text a"
      then obtain a z where a: "x = a @ bs ''%25'' @ z" "ipv6_text a" by blast
      then show False using no_v6 [OF True] Cons ipv6_text_not_Nil by (cases a) auto
    qed
    then have "ip_literal_text x \<longleftrightarrow> v \<noteq> DOT \<and> (\<exists>ver rest. y = ver @ DOT # rest \<and> ver \<noteq> [] \<and> rest \<noteq> []
        \<and> list_all is_ascii_hexdigit ver \<and> list_all is_future_byte rest)"
      unfolding ip_literal_text_def future using True no_v6 [OF True] Cons by auto
    then show ?thesis using validate_ipvfuture_iff [of v y] True Cons
      by (auto simp: validate_ip_literal_def)
  next
    case False
    moreover have "x ! 0 = v" "x \<noteq> []" using Cons by simp_all
    ultimately have e: "validate_ip_literal x =
        (let (address, zone) =
              (case find_zone x of None \<Rightarrow> (x, None)
               | Some pos \<Rightarrow> (take pos x, Some (drop (pos + 3) x))) in
        res_bind (validate_ipv6_address address) (\<lambda>_.
          case zone of None \<Rightarrow> Inr () | Some zone \<Rightarrow> validate_zone_id zone))"
      by (simp add: validate_ip_literal_def)
    have t: "ip_literal_text x \<longleftrightarrow> ipv6_text x \<or>
        (\<exists>a z. x = a @ bs ''%25'' @ z \<and> ipv6_text a \<and> z \<noteq> [] \<and> pct_text is_zone_id_byte z)"
      unfolding ip_literal_text_def future using False by blast
    show ?thesis
    proof
      assume ok: "validate_ip_literal x = Inr ()"
      show "ip_literal_text x"
      proof (cases "find_zone x")
        case None
        then show ?thesis using ok t by (auto simp: e res_simps validate_ipv6_iff)
      next
        case (Some pos)
        have "x = take pos x @ bs ''%25'' @ drop (pos + 3) x"
          using position_windows_Some [of "bs ''%25''" x pos] Some by (simp add: bs_def eval_nat_numeral)
        moreover have "ipv6_text (take pos x)" "validate_zone_id (drop (pos + 3) x) = Inr ()"
          using ok Some by (auto simp: e res_simps validate_ipv6_iff)
        ultimately show ?thesis unfolding t validate_zone_id_iff by blast
      qed
    next
      assume "ip_literal_text x"
      then consider "ipv6_text x"
        | a z where "x = a @ bs ''%25'' @ z" "ipv6_text a" "z \<noteq> []" "pct_text is_zone_id_byte z"
        unfolding t by blast
      then show "validate_ip_literal x = Inr ()"
      proof cases
        case 1
        then have "find_zone x = None" using ipv6_text_clean [of x] by (intro find_zone_clean) blast
        then show ?thesis using validate_ipv6_complete [OF 1] by (simp add: e)
      next
        case (2 a z)
        then have "find_zone x = Some (length a)"
          using ipv6_text_clean [of a] find_zone_append [of a z] by blast
        moreover have "take (length a) x = a" "drop (length a + 3) x = z" using 2(1) by (simp_all add: bs_def)
        ultimately show ?thesis
          using validate_ipv6_complete [OF 2(2)] 2(3,4) validate_zone_id_iff [of z] by (simp add: e)
      qed
    qed
  qed
qed

section \<open>The IPv6 production\<close>

text \<open>
  C26: the IPv6 validator accepts exactly the address production of RFC 3986: eight groups of
  one to four hexadecimal digits, or fewer around one \<^verbatim>\<open>::\<close> that stands for at least one
  group, where the last two groups may be written as four decimal octets up to 255 without
  leading zeros.
\<close>

theorem ipv6_grammar: "validate_ipv6_address a = Inr () \<longleftrightarrow> ipv6_text a"
  by (rule validate_ipv6_iff)

end
