(* ===== verification/Url_Grammar.thy ===== *)
theory Url_Grammar
  imports Url_Host
begin

text \<open>
  The grammar of a whole URL, the exactness of the parser of \<^verbatim>\<open>url.rs\<close> with respect to it, the
  guarantees on the parts of a parsed URL, and the iterator over query parameters.
\<close>

section \<open>The URL grammar\<close>

definition host_text :: "bytes \<Rightarrow> bool" where
  "host_text h \<longleftrightarrow>
     (\<exists>x. h = LBRACKET # x @ [RBRACKET] \<and> ip_literal_text x) \<or> h \<noteq> [] \<and> pct_text is_reg_name_byte h"

definition port_text :: "u16 option \<Rightarrow> bytes \<Rightarrow> bool" where
  "port_text p t =
     (case p of None \<Rightarrow> t = []
      | Some n \<Rightarrow> \<exists>ds. t = COLON # ds \<and> ds \<noteq> [] \<and> list_all is_ascii_digit ds
                    \<and> decimal_value ds = unat n)"

lemma port_text_iff:
  "port_text p t \<longleftrightarrow> (t = [] \<and> p = None) \<or> (\<exists>ds n. t = COLON # ds \<and> parse_port ds = Inr n \<and> p = Some n)"
proof -
  have "decimal_value ds \<le> 65535 \<and> n = of_nat (decimal_value ds) \<longleftrightarrow> decimal_value ds = unat n" for n :: u16 and ds
  proof
    assume "decimal_value ds = unat n"
    moreover have "unat n < 65536" using unsigned_less [of n] by simp
    ultimately show "decimal_value ds \<le> 65535 \<and> n = of_nat (decimal_value ds)" by simp
  next
    assume "decimal_value ds \<le> 65535 \<and> n = of_nat (decimal_value ds)"
    then show "decimal_value ds = unat n" by (simp add: unsigned_of_nat take_bit_nat_eq_self)
  qed
  then show ?thesis by (cases p) (auto simp: port_text_def parse_port_iff)
qed

lemma hex_alnum: "is_ascii_hexdigit b \<Longrightarrow> is_ascii_alphanumeric b"
proof -
  have "\<forall>b. is_ascii_hexdigit b \<longrightarrow> is_ascii_alphanumeric b" unfolding all_bytes by code_simp
  then show "is_ascii_hexdigit b \<Longrightarrow> is_ascii_alphanumeric b" by blast
qed

lemma alnum_visible: "is_ascii_alphanumeric b \<Longrightarrow> 0x20 < b \<and> b < 0x7F"
proof -
  have "\<forall>b. is_ascii_alphanumeric b \<longrightarrow> 0x20 < b \<and> b < 0x7F" unfolding all_bytes by code_simp
  then show "is_ascii_alphanumeric b \<Longrightarrow> 0x20 < b \<and> b < 0x7F" by blast
qed

lemmas alnum_defs = is_ascii_alphanumeric_def is_ascii_alphabetic_def is_ascii_digit_def
  is_ascii_lowercase_def is_ascii_uppercase_def

lemma alnum_clean:
  "is_ascii_alphanumeric b \<Longrightarrow> b \<notin> {COLON, LBRACKET, RBRACKET, SLASH, QUESTION, HASH, AT_SIGN}"
  by (auto simp: alnum_defs)

lemma mark_clean:
  "is_unreserved_mark b \<or> is_sub_delim b \<Longrightarrow>
     b \<notin> {COLON, LBRACKET, RBRACKET, SLASH, QUESTION, HASH, AT_SIGN} \<and> 0x20 < b \<and> b < 0x7F"
  by (auto simp: is_unreserved_mark_def is_sub_delim_def)

lemma reg_name_byte_clean:
  assumes "is_reg_name_byte b \<or> is_ascii_hexdigit b \<or> b = PERCENT"
  shows "is_host_byte b \<and> b \<noteq> COLON \<and> b \<noteq> LBRACKET \<and> b \<noteq> RBRACKET"
  using assms alnum_clean [of b] mark_clean [of b] hex_alnum [of b]
  by (auto simp: is_reg_name_byte_def is_host_byte_def)

lemma literal_byte_clean:
  assumes "is_ascii_hexdigit b \<or> b = COLON \<or> b = DOT \<or> b = PERCENT \<or> is_zone_id_byte b \<or> is_future_byte b
    \<or> b = 0x76 \<or> b = 0x56"
  shows "is_host_byte b \<and> b \<noteq> LBRACKET \<and> b \<noteq> RBRACKET"
proof -
  have "is_unreserved_mark DOT" "is_ascii_alphanumeric 0x76" "is_ascii_alphanumeric 0x56"
    by (simp_all add: is_unreserved_mark_def alnum_defs)
  then show ?thesis
    using assms alnum_clean [of b] mark_clean [of b] hex_alnum [of b]
    by (auto simp: is_zone_id_byte_def is_future_byte_def is_host_byte_def)
qed

lemma host_byte_clean:
  "is_host_byte b \<Longrightarrow> b \<noteq> SLASH \<and> b \<noteq> QUESTION \<and> b \<noteq> HASH \<and> b \<noteq> AT_SIGN \<and> 0x20 < b \<and> b < 0x7F"
  using alnum_clean [of b] mark_clean [of b] alnum_visible [of b] by (auto simp: is_host_byte_def)

lemma ip_literal_bytes: "ip_literal_text x \<Longrightarrow> b \<in> set x \<Longrightarrow> is_host_byte b \<and> b \<noteq> LBRACKET \<and> b \<noteq> RBRACKET"
proof (rule literal_byte_clean)
  assume "ip_literal_text x" and b: "b \<in> set x"
  then show "is_ascii_hexdigit b \<or> b = COLON \<or> b = DOT \<or> b = PERCENT \<or> is_zone_id_byte b \<or> is_future_byte b \<or> b = 0x76 \<or> b = 0x56"
    unfolding ip_literal_text_def
  proof (elim disjE exE conjE)
    assume "ipv6_text x"
    then show ?thesis using ipv6_text_bytes [of x b] b by blast
  next
    fix a z assume x: "x = a @ bs ''%25'' @ z" and a: "ipv6_text a" and z: "pct_text is_zone_id_byte z"
    have "b \<in> set a \<or> b \<in> {PERCENT, 0x32, 0x35} \<or> b \<in> set z" using b x by (auto simp: bs_def)
    moreover have "is_ascii_hexdigit 0x32" "is_ascii_hexdigit 0x35" by code_simp+
    ultimately show ?thesis using ipv6_text_bytes [OF a] pct_text_bytes [OF z] by auto
  next
    fix v ver rest assume "x = v # ver @ DOT # rest" "v \<in> {0x76, 0x56}"
      "list_all is_ascii_hexdigit ver" "list_all is_future_byte rest"
    then show ?thesis using b by (auto simp: list_all_iff)
  qed
qed

lemma host_text_bytes:
  assumes "host_text h" "b \<in> set h"
  shows "is_host_byte b"
proof -
  from assms consider x where "h = LBRACKET # x @ [RBRACKET]" "ip_literal_text x" | "pct_text is_reg_name_byte h"
    unfolding host_text_def by blast
  then show ?thesis
  proof cases
    case 1
    then have "b = LBRACKET \<or> b = RBRACKET \<or> b \<in> set x" using assms(2) by auto
    then show ?thesis using ip_literal_bytes [OF 1(2)] by (auto simp: is_host_byte_def)
  next
    case 2
    then show ?thesis using pct_text_bytes [OF 2 assms(2)] reg_name_byte_clean by blast
  qed
qed

lemma host_text_not_Nil: "host_text h \<Longrightarrow> h \<noteq> []"
  by (auto simp: host_text_def)

lemma validate_reg_name_iff: "validate_reg_name h = Inr () \<longleftrightarrow> pct_text is_reg_name_byte h"
  by (simp add: validate_pct_defs pct_loop_iff)

lemma parse_authority_bracket:
  assumes "RBRACKET \<notin> set x" "AT_SIGN \<notin> set (x @ t)"
  shows "parse_authority (LBRACKET # x @ RBRACKET # t) =
    res_bind (validate_ip_literal x) (\<lambda>_.
      if t = [] then Inr (LBRACKET # x @ [RBRACKET], None)
      else if hd t = COLON then res_bind (parse_port (tl t)) (\<lambda>p. Inr (LBRACKET # x @ [RBRACKET], Some p))
      else Inl (invalid_byte (length x + 2)))"
proof -
  let ?a = "LBRACKET # x @ RBRACKET # t"
  have "position (\<lambda>b. b = AT_SIGN) ?a = None" using assms(2) by (auto simp: position_None_iff)
  moreover have "position (\<lambda>b. b = RBRACKET) x = None" using assms(1) by (auto simp: position_None_iff)
  then have "position (\<lambda>b. b = RBRACKET) ?a = Some (length x + 1)" by (simp add: position_append)
  moreover have "slice ?a 1 (length x + 1) = x" by (simp add: slice_def)
  moreover have "take (length x + 1 + 1) ?a = LBRACKET # x @ [RBRACKET]" "drop (length x + 1 + 1) ?a = t" by simp_all
  ultimately show ?thesis by (cases t) (simp_all add: parse_authority_def)
qed

lemma parse_authority_name:
  assumes "hd a \<noteq> LBRACKET" "a \<noteq> []" "AT_SIGN \<notin> set a"
  shows "parse_authority a =
    (case rposition (\<lambda>b. b = COLON) a of
       Some i \<Rightarrow> res_bind (validate_reg_name (take i a)) (\<lambda>_.
                  res_bind (parse_port (drop (i + 1) a)) (\<lambda>p. Inr (take i a, Some p)))
     | None \<Rightarrow> res_bind (validate_reg_name a) (\<lambda>_. Inr (a, None)))"
proof -
  have "position (\<lambda>b. b = AT_SIGN) a = None" using assms(3) by (auto simp: position_None_iff)
  then show ?thesis using assms(1,2) by (simp add: parse_authority_def hd_conv_nth Let_def split: option.split)
qed

lemma parse_authority_sound:
  assumes "parse_authority a = Inr (h, p)" "h \<noteq> []"
  shows "host_text h \<and> (\<exists>t. port_text p t \<and> a = h @ t)"
proof -
  have ne: "a \<noteq> []" and at: "AT_SIGN \<notin> set a"
    using assms by (auto simp: parse_authority_def position_None_iff split: if_splits option.splits)
  show ?thesis
  proof (cases "hd a = LBRACKET")
    case True
    then have "position (\<lambda>b. b = RBRACKET) a \<noteq> None"
      using assms(1) ne by (auto simp: parse_authority_def hd_conv_nth res_simps split: if_splits option.splits)
    then obtain y where y: "split_first (\<lambda>b. b = RBRACKET) a = (fst (split_first (\<lambda>b. b = RBRACKET) a), Some y)"
      by (auto simp: split_first_def)
    then obtain z t where z: "a = z @ RBRACKET # t" "RBRACKET \<notin> set z"
      unfolding split_first_iff by auto
    then obtain x where x: "a = LBRACKET # x @ RBRACKET # t" "RBRACKET \<notin> set x"
      using True by (cases z) auto
    have "AT_SIGN \<notin> set (x @ t)" using at x by auto
    note e = parse_authority_bracket [OF x(2) this]
    from assms(1) show ?thesis unfolding x(1) e port_text_iff host_text_def
      by (cases t) (auto simp: res_simps validate_ip_literal_iff split: if_splits)
  next
    case False
    note e = parse_authority_name [OF False ne at]
    show ?thesis
    proof (cases "rposition (\<lambda>b. b = COLON) a")
      case None
      then show ?thesis using assms
        by (auto simp: e res_simps validate_reg_name_iff host_text_def port_text_iff)
    next
      case (Some i)
      then have "i < length a" "a ! i = COLON" by (auto simp: rposition_Some_iff)
      then have "a = take i a @ COLON # drop (i + 1) a" by (metis Suc_eq_plus1 id_take_nth_drop)
      moreover have "h = take i a" "pct_text is_reg_name_byte (take i a)"
        "\<exists>n. parse_port (drop (i + 1) a) = Inr n \<and> p = Some n"
        using assms Some by (auto simp: e res_simps validate_reg_name_iff)
      ultimately show ?thesis unfolding host_text_def port_text_iff using assms(2) by metis
    qed
  qed
qed

lemma port_text_bytes:
  assumes "port_text p t" "b \<in> set t"
  shows "is_host_byte b"
proof -
  have "b = COLON \<or> is_ascii_digit b"
    using assms by (auto simp: port_text_def list_all_iff split: option.splits)
  then show ?thesis by (auto simp: is_host_byte_def is_ascii_alphanumeric_def)
qed

lemma rposition_none: "c \<notin> set h \<Longrightarrow> rposition (\<lambda>b. b = c) h = None"
  by (auto simp: rposition_def position_None_iff)

lemma rposition_last:
  assumes "c \<notin> set ds"
  shows "rposition (\<lambda>b. b = c) (h @ c # ds) = Some (length h)"
proof -
  have "position (\<lambda>b. b = c) (rev ds) = None" using assms by (auto simp: position_None_iff)
  then show ?thesis by (simp add: rposition_def position_append)
qed

lemma parse_authority_complete:
  assumes "host_text h" "port_text p t"
  shows "parse_authority (h @ t) = Inr (h, p)"
proof -
  have "AT_SIGN \<notin> set h" using host_text_bytes [OF assms(1)] host_byte_clean by blast
  moreover have "AT_SIGN \<notin> set t" using port_text_bytes [OF assms(2)] host_byte_clean by blast
  ultimately have at: "AT_SIGN \<notin> set (h @ t)" by simp
  from assms(1) consider x where "h = LBRACKET # x @ [RBRACKET]" "ip_literal_text x"
    | "h \<noteq> []" "pct_text is_reg_name_byte h" unfolding host_text_def by blast
  then show ?thesis
  proof cases
    case 1
    have rb: "RBRACKET \<notin> set x" using ip_literal_bytes [OF 1(2)] by blast
    have "AT_SIGN \<notin> set (x @ t)" using at 1 by auto
    note e = parse_authority_bracket [OF rb this]
    show ?thesis using assms(2) 1 e validate_ip_literal_iff [of x] by (auto simp: port_text_iff)
  next
    case 2
    have c: "COLON \<notin> set h" and b: "hd h \<noteq> LBRACKET"
      using pct_text_bytes [OF 2(2)] reg_name_byte_clean hd_in_set [OF 2(1)] by blast+
    from b 2 have hd: "hd (h @ t) \<noteq> LBRACKET" "h @ t \<noteq> []" by simp_all
    note e = parse_authority_name [OF this at]
    from assms(2) consider "t = []" "p = None" | ds n where "t = COLON # ds" "parse_port ds = Inr n" "p = Some n"
      unfolding port_text_iff by blast
    then show ?thesis
    proof cases
      case 1
      then show ?thesis using e 2 rposition_none [OF c] validate_reg_name_iff [of h] by simp
    next
      case (2 ds n)
      then have "COLON \<notin> set ds" by (auto simp: parse_port_iff list_all_iff is_ascii_digit_def)
      then show ?thesis using e 2 \<open>pct_text is_reg_name_byte h\<close> rposition_last [of COLON ds h]
          validate_reg_name_iff [of h] by simp
    qed
  qed
qed

definition path_text :: "bytes \<Rightarrow> bool" where
  "path_text p = ((p = [] \<or> hd p = SLASH) \<and> QUESTION \<notin> set p \<and> HASH \<notin> set p)"

definition url_text :: "Url \<Rightarrow> bytes \<Rightarrow> bytes \<Rightarrow> bytes" where
  "url_text u sch pt =
     sch @ bs ''://'' @ url_host u @ pt @ url_path u @ opt_text QUESTION (url_query u) @ opt_text HASH (url_fragment u)"

text \<open>The invariant of a parsed URL.\<close>

definition url_ok :: "Url \<Rightarrow> bool" where
  "url_ok u = (host_text (url_host u) \<and> path_text (url_path u) \<and> HASH \<notin> set (opt_text QUESTION (url_query u)))"

lemma parse_path_query_fragment_iff:
  assumes "x = [] \<or> hd x \<in> {SLASH, QUESTION, HASH}"
  shows "parse_path_query_fragment x = (p, q, f) \<longleftrightarrow>
    x = p @ opt_text QUESTION q @ opt_text HASH f \<and> path_text p \<and> HASH \<notin> set (opt_text QUESTION q)"
proof -
  obtain b g where bg: "split_first (\<lambda>b. b = HASH) x = (b, g)" by (cases "split_first (\<lambda>b. b = HASH) x") auto
  obtain p' q' where pq: "split_first (\<lambda>b. b = QUESTION) b = (p', q')"
    by (cases "split_first (\<lambda>b. b = QUESTION) b") auto
  have e: "parse_path_query_fragment x = (p', q', g)"
    using bg pq by (auto simp: parse_path_query_fragment_def split_first_def Let_def split: if_splits)
  note bg' = bg [unfolded split_first_iff] and pq' = pq [unfolded split_first_iff]
  show ?thesis
  proof
    assume "parse_path_query_fragment x = (p, q, f)"
    then have "p' = p" "q' = q" "g = f" using e by simp_all
    moreover have "p' = [] \<or> hd p' = SLASH"
      using assms bg' pq' by (cases p') auto
    ultimately show "x = p @ opt_text QUESTION q @ opt_text HASH f \<and> path_text p \<and> HASH \<notin> set (opt_text QUESTION q)"
      using bg' pq' by (auto simp: path_text_def)
  next
    assume h: "x = p @ opt_text QUESTION q @ opt_text HASH f \<and> path_text p \<and> HASH \<notin> set (opt_text QUESTION q)"
    then have "split_first (\<lambda>b. b = HASH) x = (p @ opt_text QUESTION q, f)"
      unfolding split_first_iff by (auto simp: path_text_def)
    then have "b = p @ opt_text QUESTION q" "g = f" using bg by simp_all
    moreover have "split_first (\<lambda>b. b = QUESTION) (p @ opt_text QUESTION q) = (p, q)"
      unfolding split_first_iff using h by (auto simp: path_text_def)
    ultimately show "parse_path_query_fragment x = (p, q, f)" using e pq by simp
  qed
qed

lemma after_authority:
  fixes rest :: bytes
  assumes "n = (case position (\<lambda>b. b = SLASH \<or> b = QUESTION \<or> b = HASH) rest of None \<Rightarrow> length rest | Some i \<Rightarrow> i)"
  shows "drop n rest = [] \<or> hd (drop n rest) \<in> {SLASH, QUESTION, HASH}"
  using assms by (auto simp: position_Some_iff hd_drop_conv_nth split: option.splits)

lemma authority_end:
  fixes y :: bytes
  assumes "\<forall>b\<in>set a. b \<noteq> SLASH \<and> b \<noteq> QUESTION \<and> b \<noteq> HASH" "y = [] \<or> hd y \<in> {SLASH, QUESTION, HASH}"
  shows "(case position (\<lambda>b. b = SLASH \<or> b = QUESTION \<or> b = HASH) (a @ y) of None \<Rightarrow> length (a @ y) | Some i \<Rightarrow> i)
    = length a"
proof -
  have "position (\<lambda>b. b = SLASH \<or> b = QUESTION \<or> b = HASH) a = None" using assms(1) by (auto simp: position_None_iff)
  then show ?thesis using assms(2) by (cases y) (auto simp: position_append)
qed

lemma Url_parse_unfold:
  assumes "find_subsequence x (bs ''://'') = Some i" "scheme_try_from (take i x) = Inr s"
    and "rest = drop (i + 3) x"
    and "n = (case position (\<lambda>b. b = SLASH \<or> b = QUESTION \<or> b = HASH) rest of None \<Rightarrow> length rest | Some i \<Rightarrow> i)"
  shows "Url_parse x =
    res_bind (parse_authority (take n rest)) (\<lambda>(h, p).
      if h = [] then Inl (UrlParse MissingHost)
      else case position (\<lambda>b. \<not> is_host_byte b) h of
        Some bad \<Rightarrow> Inl (invalid_byte bad)
      | None \<Rightarrow>
         (let (path, query, fragment) = parse_path_query_fragment (drop n rest) in
          Inr \<lparr> url_scheme = s, url_host = h, url_port = p, url_path = path,
                url_query = query, url_fragment = fragment \<rparr>))"
proof -
  have "x \<noteq> []" using assms(1) by (auto simp: find_subsequence_def windows_def bs_def)
  then show ?thesis using assms(1,2) unfolding assms(4) unfolding assms(3) by (simp add: Url_parse_def Let_def)
qed

lemma scheme_text_clean: "scheme_try_from sch = Inr s \<Longrightarrow> COLON \<notin> set sch"
proof
  assume s: "scheme_try_from sch = Inr s" and c: "COLON \<in> set sch"
  have "to_ascii_lowercase COLON = COLON" by (simp add: to_ascii_lowercase_def is_ascii_uppercase_def)
  then have "COLON \<in> set (lower_bytes sch)" using c by (force simp: lower_bytes_def)
  moreover have "lower_bytes sch = scheme_as_bytes s" using scheme_token.parse_sound [OF s] by blast
  ultimately show False by (cases s) (auto simp: bs_def)
qed

lemma find_sep:
  assumes "COLON \<notin> set sch"
  shows "find_subsequence (sch @ bs ''://'' @ rest) (bs ''://'') = Some (length sch)"
proof -
  have "take (length (bs ''://'')) (drop j (sch @ bs ''://'' @ rest)) \<noteq> bs ''://''" if "j < length sch" for j
  proof
    let ?d = "drop j (sch @ bs ''://'' @ rest)"
    assume h: "take (length (bs ''://'')) ?d = bs ''://''"
    have "0 < length (bs ''://'')" by (simp add: bs_def)
    from hd_take [OF this, of ?d] have "hd ?d = COLON" unfolding h by (simp add: bs_def)
    then have "sch ! j = COLON" using that by (simp add: hd_drop_conv_nth nth_append)
    with assms that show False by (metis nth_mem)
  qed
  then show ?thesis by (subst find_subsequence_Some_iff) (auto simp: bs_def)
qed

lemma Url_parse_sound:
  assumes "Url_parse x = Inr u"
  shows "url_ok u \<and> (\<exists>sch pt. scheme_try_from sch = Inr (url_scheme u) \<and> port_text (url_port u) pt
    \<and> x = url_text u sch pt)"
proof -
  from assms obtain i where i: "find_subsequence x (bs ''://'') = Some i"
    and s: "\<exists>s. scheme_try_from (take i x) = Inr s"
    by (auto simp: Url_parse_def res_simps split: if_splits)
  then obtain s where s: "scheme_try_from (take i x) = Inr s" by blast
  define rest where "rest = drop (i + 3) x"
  define n where "n = (case position (\<lambda>b. b = SLASH \<or> b = QUESTION \<or> b = HASH) rest of None \<Rightarrow> length rest | Some i \<Rightarrow> i)"
  have x: "x = take i x @ bs ''://'' @ rest"
    using position_windows_Some [of "bs ''://''" x i] i
    by (simp add: find_subsequence_def bs_def rest_def eval_nat_numeral split: if_splits)
  obtain p q f where pqf: "parse_path_query_fragment (drop n rest) = (p, q, f)"
    by (cases "parse_path_query_fragment (drop n rest)") auto
  from assms [unfolded Url_parse_unfold [OF i s rest_def n_def]] pqf
  obtain h port where a: "parse_authority (take n rest) = Inr (h, port)" "h \<noteq> []"
    and u: "u = \<lparr> url_scheme = s, url_host = h, url_port = port, url_path = p, url_query = q, url_fragment = f \<rparr>"
    by (auto simp: res_simps split: if_splits option.splits)
  from parse_authority_sound [OF a] obtain t where t: "host_text h" "port_text port t" "take n rest = h @ t" by blast
  note pf = pqf [unfolded parse_path_query_fragment_iff [OF after_authority [OF n_def]]]
  have "rest = h @ t @ p @ opt_text QUESTION q @ opt_text HASH f"
    using t(3) pf append_take_drop_id [of n rest] by simp
  then have "x = url_text u (take i x) t" using x by (simp add: url_text_def u)
  moreover have "url_ok u" using t(1) pf by (simp add: url_ok_def u)
  ultimately show ?thesis using s t(2) by (intro conjI exI [of _ "take i x"] exI [of _ t]) (simp_all add: u)
qed

lemma Url_parse_complete:
  assumes "url_ok u" "scheme_try_from sch = Inr (url_scheme u)" "port_text (url_port u) pt"
  shows "Url_parse (url_text u sch pt) = Inr u"
proof -
  let ?tail = "url_path u @ opt_text QUESTION (url_query u) @ opt_text HASH (url_fragment u)"
  let ?rest = "(url_host u @ pt) @ ?tail"
  have x: "url_text u sch pt = sch @ bs ''://'' @ ?rest" by (simp add: url_text_def)
  have i: "find_subsequence (url_text u sch pt) (bs ''://'') = Some (length sch)"
    unfolding x by (rule find_sep [OF scheme_text_clean [OF assms(2)]])
  have s: "scheme_try_from (take (length sch) (url_text u sch pt)) = Inr (url_scheme u)"
    using assms(2) by (simp add: x)
  have r: "?rest = drop (length sch + 3) (url_text u sch pt)" by (simp add: x bs_def)
  have h: "host_text (url_host u)" using assms(1) by (simp add: url_ok_def)
  have clean: "\<forall>b\<in>set (url_host u @ pt). b \<noteq> SLASH \<and> b \<noteq> QUESTION \<and> b \<noteq> HASH"
    using host_text_bytes [OF h] port_text_bytes [OF assms(3)] host_byte_clean unfolding set_append by blast
  have tail: "?tail = [] \<or> hd ?tail \<in> {SLASH, QUESTION, HASH}"
    using assms(1) by (cases "url_path u"; cases "url_query u"; cases "url_fragment u") (auto simp: url_ok_def path_text_def)
  have pqf: "parse_path_query_fragment ?tail = (url_path u, url_query u, url_fragment u)"
    unfolding parse_path_query_fragment_iff [OF tail] using assms(1) by (simp add: url_ok_def)
  have hb: "position (\<lambda>b. \<not> is_host_byte b) (url_host u) = None"
    using host_text_bytes [OF h] by (auto simp: position_None_iff)
  have tk: "take (length (url_host u @ pt)) ?rest = url_host u @ pt"
    and dr: "drop (length (url_host u @ pt)) ?rest = ?tail" by simp_all
  show ?thesis
    unfolding Url_parse_unfold [OF i s r authority_end [OF clean tail, symmetric]] tk dr
      parse_authority_complete [OF h assms(3)] pqf
    using host_text_not_Nil [OF h] hb by simp
qed

section \<open>Query parameters\<close>

text \<open>\<^verbatim>\<open>for pair in url.query_params()\<close>: the items until the first \<^verbatim>\<open>None\<close>.\<close>

function qp_collect :: "QueryParams \<Rightarrow> (bytes \<times> bytes option) list" where
  "qp_collect self = (case qp_next self of (None, _) \<Rightarrow> [] | (Some item, self') \<Rightarrow> item # qp_collect self')"
  by pat_completeness auto
termination
  by (relation "measure (\<lambda>s. if qp_done s then 0 else length (qp_remaining s) + 1)")
    (auto simp: qp_next_def Let_def position_Some_iff split: if_splits option.splits)

declare qp_collect.simps [simp del]

definition query_pieces :: "bytes \<Rightarrow> bytes list" where
  "query_pieces q = (let ps = split_on (\<lambda>b. b = AMPERSAND) q in if last ps = [] then butlast ps else ps)"

lemma qp_collect_pieces:
  "qp_collect \<lparr> qp_remaining = q, qp_done = False \<rparr> = map (split_first (\<lambda>b. b = EQUALS)) (query_pieces q)"
proof (induction q rule: length_induct)
  case (1 q)
  have fin: "qp_collect \<lparr> qp_remaining = [], qp_done = True \<rparr> = []"
    by (subst qp_collect.simps) (simp add: qp_next_def)
  show ?case
  proof (cases "position (\<lambda>b. b = AMPERSAND) q")
    case None
    then have "split_on (\<lambda>b. b = AMPERSAND) q = [q]" by (intro split_on_no_sep) (simp add: position_None_iff)
    then show ?thesis using None fin
      by (subst qp_collect.simps) (simp add: qp_next_def query_pieces_def Let_def)
  next
    case (Some i)
    then have "i < length q" "q ! i = AMPERSAND" by (auto simp: position_Some_iff)
    then have q: "q = take i q @ AMPERSAND # drop (i + 1) q" by (metis Suc_eq_plus1 id_take_nth_drop)
    have "split_on (\<lambda>b. b = AMPERSAND) (take i q @ AMPERSAND # drop (i + 1) q) =
        take i q # split_on (\<lambda>b. b = AMPERSAND) (drop (i + 1) q)"
      using position_take_clean [OF Some] by (intro split_on_sep) auto
    then have "query_pieces q = take i q # query_pieces (drop (i + 1) q)"
      unfolding q [symmetric] by (auto simp: query_pieces_def Let_def)
    moreover have "length (drop (i + 1) q) < length q" using \<open>i < length q\<close> by simp
    ultimately show ?thesis using 1 Some
      by (subst qp_collect.simps) (simp add: qp_next_def)
  qed
qed

section \<open>Properties\<close>

text \<open>
  C25: the URL parser accepts exactly the grammar
  \<^verbatim>\<open>scheme "://" host [":" port] [path] ["?" query] ["#" fragment]\<close> and returns exactly its
  parts: the scheme is \<^verbatim>\<open>http\<close> or \<^verbatim>\<open>https\<close> in any letter case, the host is a bracketed IP
  literal or a non-empty registered name with well-formed percent escapes, the port a
  decimal numeral up to 65535, the path empty or beginning with a slash. In particular a
  URL is never accepted with user information, and rendering its parts parses back to them.
\<close>

theorem url_parse_grammar:
  "Url_parse x = Inr u \<longleftrightarrow>
     url_ok u \<and> (\<exists>sch pt. lower_bytes sch = scheme_as_bytes (url_scheme u) \<and> port_text (url_port u) pt
       \<and> x = url_text u sch pt)"
  using Url_parse_sound Url_parse_complete scheme_token.parse_iff by (metis (no_types, lifting))

text \<open>
  Iterating over the query parameters terminates and yields the pieces of the query
  between ampersands, in order, each split at its first equals sign; only an empty piece at
  the very end is left out, and a URL without a query yields nothing.
\<close>

theorem query_params_pairs:
  "qp_collect (query_params u) =
     (case url_query u of None \<Rightarrow> []
      | Some q \<Rightarrow> map (split_first (\<lambda>b. b = EQUALS)) (query_pieces q))"
  by (cases "url_query u") (simp_all add: query_params_def qp_collect_pieces, subst qp_collect.simps, simp add: qp_next_def)

text \<open>
  What the parts of a parsed URL guarantee to the code that uses them: the host is not
  empty and has only visible ASCII bytes, the request path begins with a slash and has
  neither a question mark nor a hash, the host to connect to carries no brackets, and the
  effective port is the given one or the default of the scheme.
\<close>

theorem parsed_url_safe:
  assumes "Url_parse x = Inr u"
  shows "url_host u \<noteq> [] \<and> list_all (\<lambda>b. 0x20 < b \<and> b < 0x7F) (url_host u)
    \<and> hd (request_path u) = SLASH \<and> QUESTION \<notin> set (request_path u) \<and> HASH \<notin> set (request_path u)
    \<and> LBRACKET \<notin> set (connection_host u) \<and> RBRACKET \<notin> set (connection_host u) \<and> connection_host u \<noteq> []
    \<and> effective_port u = (case url_port u of Some p \<Rightarrow> p | None \<Rightarrow> if url_scheme u = Https then 443 else 80)"
proof -
  have ok: "url_ok u" using Url_parse_sound [OF assms] by blast
  then have h: "host_text (url_host u)" and p: "path_text (url_path u)" by (simp_all add: url_ok_def)
  have "list_all (\<lambda>b. 0x20 < b \<and> b < 0x7F) (url_host u)"
    using host_text_bytes [OF h] host_byte_clean by (simp add: list_all_iff)
  moreover have "hd (request_path u) = SLASH \<and> QUESTION \<notin> set (request_path u) \<and> HASH \<notin> set (request_path u)"
    using p by (auto simp: request_path_def path_text_def)
  moreover have "LBRACKET \<notin> set (connection_host u) \<and> RBRACKET \<notin> set (connection_host u) \<and> connection_host u \<noteq> []"
  proof -
    from h consider y where "url_host u = LBRACKET # y @ [RBRACKET]" "ip_literal_text y"
      | "url_host u \<noteq> []" "pct_text is_reg_name_byte (url_host u)" unfolding host_text_def by blast
    then show ?thesis
    proof cases
      case 1
      then have "connection_host u = y" by (simp add: connection_host_def slice_def)
      moreover have "y \<noteq> []" using 1(2) validate_ip_literal_iff [of "[]"] by (auto simp: validate_ip_literal_def)
      ultimately show ?thesis using ip_literal_bytes [OF 1(2)] by blast
    next
      case 2
      then have "LBRACKET \<notin> set (url_host u) \<and> RBRACKET \<notin> set (url_host u)"
        using pct_text_bytes [OF 2(2)] reg_name_byte_clean by blast
      moreover from this have "hd (url_host u) \<noteq> LBRACKET" using 2(1) by (metis hd_in_set)
      ultimately show ?thesis using 2(1) by (simp add: connection_host_def Let_def)
    qed
  qed
  moreover have "effective_port u = (case url_port u of Some p \<Rightarrow> p | None \<Rightarrow> if url_scheme u = Https then 443 else 80)"
    by (cases "url_scheme u") (simp_all add: effective_port_def split: option.split)
  ultimately show ?thesis using host_text_not_Nil [OF h] by blast
qed

theorem parsed_url_safe_witness:
  "\<exists>u. Url_parse (bs ''http://[::1]:8080?q=1#f'') = Inr u
     \<and> connection_host u = bs ''::1'' \<and> effective_port u = 8080 \<and> hd (request_path u) = SLASH"
proof -
  let ?u = "\<lparr> url_scheme = Http, url_host = bs ''[::1]'', url_port = Some 8080, url_path = [],
    url_query = Some (bs ''q=1''), url_fragment = Some (bs ''f'') \<rparr>"
  have "Url_parse (bs ''http://[::1]:8080?q=1#f'') = Inr ?u" by code_simp
  from parsed_url_safe [OF this] this show ?thesis
    by (intro exI [of _ ?u]) (simp add: connection_host_def slice_def bs_def)
qed

end
