(* ===== verification/Origin.thy ===== *)
theory Origin
  imports Url_Grammar Header_Name
begin

text \<open>
  \<^verbatim>\<open>xibalba-client/src/origin.rs\<close>: the scheme, host and port a connection is bound to. Two URLs
  are of one origin when the three agree, the host up to letter case; the \<^verbatim>\<open>Host\<close> header value
  leaves out the default port, and still determines the origin.
\<close>

section \<open>Definitions\<close>

record Origin =
  o_scheme :: Scheme
  o_host :: bytes
  o_port :: u16

definition from_url :: "Url \<Rightarrow> Origin" where
  "from_url url = \<lparr> o_scheme = url_scheme url, o_host = url_host url, o_port = effective_port url \<rparr>"

definition scheme_bytes :: "Origin \<Rightarrow> bytes" where
  "scheme_bytes self = scheme_as_bytes (o_scheme self)"

definition covers :: "Origin \<Rightarrow> Url \<Rightarrow> bool" where
  "covers self url =
     (ascii_eq_ignore_case (url_host url) (o_host self)
      \<and> effective_port url = o_port self
      \<and> url_scheme url = o_scheme self)"

definition downgrades_to :: "Origin \<Rightarrow> Scheme \<Rightarrow> bool" where
  "downgrades_to self target = (o_scheme self = Https \<and> target = Http)"

definition host_header_value :: "Origin \<Rightarrow> bytes" where
  "host_header_value self =
     (if o_port self = default_port (o_scheme self) then o_host self
      else o_host self @ [COLON] @ to_decimal (unat (o_port self)))"

definition root_url :: "Origin \<Rightarrow> Url" where
  "root_url self =
     \<lparr> url_scheme = o_scheme self, url_host = o_host self, url_port = Some (o_port self),
       url_path = [SLASH], url_query = None, url_fragment = None \<rparr>"

section \<open>The same origin\<close>

definition origin_key :: "Origin \<Rightarrow> Scheme \<times> bytes \<times> u16" where
  "origin_key o1 = (o_scheme o1, lower_bytes (o_host o1), o_port o1)"

definition same_origin :: "Url \<Rightarrow> Url \<Rightarrow> bool" where
  "same_origin u v = covers (from_url u) v"

interpretation origin_ci: keyed_equality same_origin "\<lambda>u. origin_key (from_url u)"
  by unfold_locales
    (auto simp: same_origin_def covers_def origin_key_def from_url_def ascii_eq_ignore_case_iff)

lemma covers_root: "covers o1 (root_url o1)"
  by (simp add: covers_def root_url_def effective_port_def)

lemma from_url_root: "from_url (root_url o1) = o1"
  by (simp add: from_url_def root_url_def effective_port_def)

text \<open>The invariant of an origin that was made from a parsed URL.\<close>

definition origin_ok :: "Origin \<Rightarrow> bool" where
  "origin_ok o1 = host_text (o_host o1)"

lemma from_url_ok: "Url_parse x = Inr u \<Longrightarrow> origin_ok (from_url u)"
  using Url_parse_sound by (auto simp: origin_ok_def from_url_def url_ok_def)

lemma root_url_ok: "origin_ok o1 \<Longrightarrow> url_ok (root_url o1)"
  by (simp add: origin_ok_def url_ok_def root_url_def path_text_def)

lemma host_header_port:
  "\<exists>p pt. port_text p pt \<and> host_header_value o1 = o_host o1 @ pt
     \<and> (case p of Some q \<Rightarrow> q | None \<Rightarrow> default_port (o_scheme o1)) = o_port o1"
proof (cases "o_port o1 = default_port (o_scheme o1)")
  case True
  then show ?thesis by (intro exI [of _ None] exI [of _ "[]"]) (simp add: host_header_value_def port_text_def)
next
  case False
  then show ?thesis
    by (intro exI [of _ "Some (o_port o1)"] exI [of _ "COLON # to_decimal (unat (o_port o1))"])
      (simp add: host_header_value_def port_text_def to_decimal_digits)
qed

lemma host_header_visible:
  assumes "origin_ok o1" "b \<in> set (host_header_value o1)"
  shows "0x20 < b \<and> b < 0x7F"
proof -
  obtain p pt where "port_text p pt" "host_header_value o1 = o_host o1 @ pt"
    using host_header_port by blast
  then have "is_host_byte b"
    using assms host_text_bytes port_text_bytes by (auto simp: origin_ok_def)
  then show ?thesis using host_byte_clean by blast
qed

text \<open>
  C28: the \<^verbatim>\<open>Host\<close> header value the client sends determines the origin it is connected to:
  parsing it as the authority of a URL of the origin's scheme gives back exactly that origin,
  although a default port is left out.
\<close>

theorem host_header_identifies_origin:
  assumes "origin_ok o1"
  shows "\<exists>u. Url_parse (scheme_bytes o1 @ bs ''://'' @ host_header_value o1 @ [SLASH]) = Inr u
    \<and> from_url u = o1 \<and> covers o1 u"
proof -
  obtain p pt where pt: "port_text p pt" "host_header_value o1 = o_host o1 @ pt"
    and e: "(case p of Some q \<Rightarrow> q | None \<Rightarrow> default_port (o_scheme o1)) = o_port o1"
    using host_header_port by blast
  let ?u = "\<lparr> url_scheme = o_scheme o1, url_host = o_host o1, url_port = p,
       url_path = [SLASH], url_query = None, url_fragment = None \<rparr>"
  have "url_ok ?u" using assms by (simp add: url_ok_def origin_ok_def path_text_def)
  then have "Url_parse (url_text ?u (scheme_bytes o1) pt) = Inr ?u"
    using pt(1) scheme_token.parse_render by (intro Url_parse_complete) (simp_all add: scheme_bytes_def)
  moreover have "url_text ?u (scheme_bytes o1) pt = scheme_bytes o1 @ bs ''://'' @ host_header_value o1 @ [SLASH]"
    by (simp add: url_text_def pt(2))
  moreover have "from_url ?u = o1" "covers o1 ?u"
    using e by (cases p; simp add: from_url_def covers_def effective_port_def)+
  ultimately show ?thesis by (intro exI [of _ ?u]) simp
qed

definition sample_origin :: Origin where
  "sample_origin = \<lparr> o_scheme = Https, o_host = bs ''a'', o_port = 81 \<rparr>"

lemma sample_origin_ok: "origin_ok sample_origin"
  by (simp add: origin_ok_def sample_origin_def host_text_def bs_def pct_text_Cons is_reg_name_byte_def alnum_defs)

theorem host_header_identifies_origin_witness:
  "\<exists>u. Url_parse (bs ''https://a:81/'') = Inr u \<and> from_url u = sample_origin"
proof -
  have e: "scheme_bytes sample_origin @ bs ''://'' @ host_header_value sample_origin @ [SLASH] = bs ''https://a:81/''"
    by code_simp
  from host_header_identifies_origin [OF sample_origin_ok, unfolded e] show ?thesis by blast
qed

end
