(* ===== verification/Reference.thy ===== *)
theory Reference
  imports Bytes
begin

text \<open>
  \<^verbatim>\<open>xibalba-client/src/reference.rs\<close>: resolution of a relative path against the path of the
  request that was redirected, and the removal of dot segments.
\<close>

section \<open>Definitions\<close>

definition merge_path :: "bytes \<Rightarrow> bytes \<Rightarrow> bytes" where
  "merge_path base_path reference =
     (let base_end = (case rposition (\<lambda>b. b = SLASH) base_path of None \<Rightarrow> 0 | Some pos \<Rightarrow> pos + 1);
          merged = take base_end base_path;
          merged = (if merged = [] then [SLASH] else merged) in
      merged @ reference)"

text \<open>The loop over the segments: the stack \<open>out\<close> (last pushed last) and the flag.\<close>

fun dot_loop :: "bytes list \<Rightarrow> bytes list \<Rightarrow> bool \<Rightarrow> bytes list \<times> bool" where
  "dot_loop [] out trailing_slash = (out, trailing_slash)"
| "dot_loop (segment # rest) out trailing_slash =
     (if segment = bs ''..'' then dot_loop rest (butlast out) True
      else if segment = bs ''.'' \<or> segment = [] then dot_loop rest out True
      else dot_loop rest (out @ [segment]) False)"

definition remove_dot_segments :: "bytes \<Rightarrow> bytes" where
  "remove_dot_segments path =
     (let absolute = starts_with path [SLASH];
          (out, trailing_slash) = dot_loop (split_on (\<lambda>b. b = SLASH) path) [] False;
          resolved = concat (map (\<lambda>segment. SLASH # segment) out);
          resolved = (if trailing_slash then resolved @ [SLASH] else resolved);
          resolved = (if resolved = [] then [SLASH] else resolved) in
      if \<not> absolute \<and> starts_with resolved [SLASH] then drop 1 resolved else resolved)"

definition resolve :: "bytes \<Rightarrow> bytes \<Rightarrow> bytes" where
  "resolve base_path reference = remove_dot_segments (merge_path base_path reference)"

section \<open>The meaning of the removal\<close>

text \<open>
  The reference: folding the segments from the left, where \<^verbatim>\<open>..\<close> drops the last segment kept,
  and \<^verbatim>\<open>.\<close> and the empty segment are skipped.
\<close>

fun norm_step :: "bytes list \<Rightarrow> bytes \<Rightarrow> bytes list" where
  "norm_step out seg = (if seg = bs ''..'' then butlast out else if seg = bs ''.'' \<or> seg = [] then out else out @ [seg])"

definition norm_segments :: "bytes list \<Rightarrow> bytes list" where
  "norm_segments segs = foldl norm_step [] segs"

text \<open>A path of segments none of which is empty, \<^verbatim>\<open>.\<close> or \<^verbatim>\<open>..\<close>.\<close>

definition plain_segments :: "bytes list \<Rightarrow> bool" where
  "plain_segments segs = list_all (\<lambda>s. s \<noteq> [] \<and> s \<noteq> bs ''.'' \<and> s \<noteq> bs ''..'' \<and> SLASH \<notin> set s) segs"

definition path_of :: "bytes list \<Rightarrow> bool \<Rightarrow> bytes" where
  "path_of segs slash = concat (map (\<lambda>s. SLASH # s) segs) @ (if slash \<or> segs = [] then [SLASH] else [])"

lemma bs_dots:
  "bs ''..'' \<noteq> []" "bs ''.'' \<noteq> []" "[] \<noteq> bs ''..''" "[] \<noteq> bs ''.''" "bs ''..'' \<noteq> bs ''.''"
  by (simp_all add: bs_def)

lemma dot_loop_eq:
  "dot_loop segs out t =
     (foldl norm_step out segs,
      if segs = [] then t else last segs \<in> {bs ''..'', bs ''.'', []})"
  by (induction segs out t rule: dot_loop.induct) (auto simp: bs_dots)

lemma plain_foldl:
  assumes "plain_segments out" "\<forall>s\<in>set segs. SLASH \<notin> set s"
  shows "plain_segments (foldl norm_step out segs)"
  using assms
proof (induction segs arbitrary: out)
  case (Cons s segs)
  have "plain_segments (norm_step out s)"
    using Cons.prems by (auto simp: plain_segments_def list_all_iff dest: in_set_butlastD)
  then show ?case using Cons by simp
qed simp

lemma split_slash_clean: "\<forall>s\<in>set (split_on (\<lambda>b. b = SLASH) p). SLASH \<notin> set s"
  by (auto dest: split_on_clean)

lemma remove_dot_segments_eq:
  assumes "starts_with p [SLASH]"
  shows "remove_dot_segments p =
    path_of (norm_segments (split_on (\<lambda>b. b = SLASH) p))
      (last (split_on (\<lambda>b. b = SLASH) p) \<in> {bs ''..'', bs ''.'', []})"
  using assms by (auto simp: remove_dot_segments_def dot_loop_eq Let_def norm_segments_def path_of_def)

lemma norm_segments_plain: "plain_segments (norm_segments (split_on (\<lambda>b. b = SLASH) p))"
  unfolding norm_segments_def by (rule plain_foldl [OF _ split_slash_clean]) (simp add: plain_segments_def)

lemma remove_dot_segments_absolute:
  assumes "p = SLASH # q"
  shows "\<exists>segs slash. remove_dot_segments p = path_of segs slash \<and> plain_segments segs
    \<and> segs = norm_segments (split_on (\<lambda>b. b = SLASH) p)"
proof -
  have "starts_with p [SLASH]" using assms by (simp add: starts_with_def)
  from remove_dot_segments_eq [OF this] norm_segments_plain show ?thesis by blast
qed

lemma split_path_of:
  assumes "plain_segments segs" "segs \<noteq> [] \<or> slash"
  shows "split_on (\<lambda>b. b = SLASH) (path_of segs slash) = [] # segs @ (if slash then [[]] else [])"
proof -
  have j: "segs \<noteq> [] \<or> e \<noteq> [] \<Longrightarrow> concat (map (\<lambda>s. SLASH # s) segs) @ (if e \<noteq> [] then [SLASH] else []) = join_with SLASH ([] # segs @ e)"
    if "e = [] \<or> e = [[]]" for e :: "bytes list" and segs
    using that
  proof (induction segs)
    case (Cons s segs)
    then show ?case by (cases "segs = [] \<and> e = []") (auto simp: join_with_Cons)
  qed auto
  let ?e = "if slash then [[]] else [] :: bytes list"
  have "path_of segs slash = join_with SLASH ([] # segs @ ?e)"
    using j [of ?e segs] assms(2) by (auto simp: path_of_def)
  moreover have "split_on (\<lambda>b. b = SLASH) (join_with SLASH ([] # segs @ ?e)) = [] # segs @ ?e"
    using assms(1) by (intro split_on_join) (auto simp: plain_segments_def list_all_iff split: if_splits)
  ultimately show ?thesis by simp
qed

lemma norm_plain:
  "plain_segments segs \<Longrightarrow> foldl norm_step out segs = out @ segs"
  by (induction segs arbitrary: out) (auto simp: plain_segments_def)

lemma remove_dot_path_of:
  assumes "plain_segments segs"
  shows "remove_dot_segments (path_of segs slash) = path_of segs (slash \<or> segs = [])"
proof -
  have p: "path_of segs slash = path_of segs (slash \<or> segs = [])" by (simp add: path_of_def)
  have s: "split_on (\<lambda>b. b = SLASH) (path_of segs slash) = [] # segs @ (if slash \<or> segs = [] then [[]] else [])"
    unfolding p by (rule split_path_of [OF assms]) simp
  have abs: "starts_with (path_of segs slash) [SLASH]"
    by (cases segs) (auto simp: path_of_def starts_with_def)
  have last_s: "segs \<noteq> [] \<Longrightarrow> last segs \<notin> {bs ''..'', bs ''.'', []}"
    using assms by (simp add: plain_segments_def list_all_iff)
  have "norm_segments ([] # segs @ (if slash \<or> segs = [] then [[]] else [])) = segs"
    using norm_plain [OF assms, of "[]"] by (simp add: norm_segments_def bs_dots)
  moreover have "last ([] # segs @ (if slash \<or> segs = [] then [[]] else [])) \<in> {bs ''..'', bs ''.'', []}
      \<longleftrightarrow> slash \<or> segs = []"
    using last_s by auto
  ultimately show ?thesis unfolding remove_dot_segments_eq [OF abs] s by (simp only:)
qed

text \<open>
  C29: removing dot segments from an absolute path gives an absolute path none of whose
  segments is \<^verbatim>\<open>.\<close>, \<^verbatim>\<open>..\<close> or empty (apart from the one a trailing slash makes): \<^verbatim>\<open>..\<close> at the
  root stays at the root. The operation is idempotent, and the segments are the left fold of
  the segments of the path.
\<close>

theorem remove_dot_segments_normal:
  assumes "p = SLASH # q"
  shows "\<exists>segs slash. remove_dot_segments p = path_of segs slash \<and> plain_segments segs
    \<and> segs = norm_segments (split_on (\<lambda>b. b = SLASH) p)
    \<and> remove_dot_segments (remove_dot_segments p) = remove_dot_segments p"
proof -
  obtain segs slash where s: "remove_dot_segments p = path_of segs slash" "plain_segments segs"
    "segs = norm_segments (split_on (\<lambda>b. b = SLASH) p)"
    using remove_dot_segments_absolute [OF assms] by blast
  moreover have "path_of segs (slash \<or> segs = []) = path_of segs slash" by (simp add: path_of_def)
  ultimately show ?thesis using remove_dot_path_of [OF s(2), of slash] by metis
qed

theorem remove_dot_segments_normal_witness:
  "remove_dot_segments (bs ''/../a/./b/..'') = bs ''/a/''
   \<and> remove_dot_segments (remove_dot_segments (bs ''/../a/./b/..'')) = remove_dot_segments (bs ''/../a/./b/..'')"
proof
  show "remove_dot_segments (bs ''/../a/./b/..'') = bs ''/a/''" by code_simp
  have "bs ''/../a/./b/..'' = SLASH # bs ''../a/./b/..''" by (simp add: bs_def)
  from remove_dot_segments_normal [OF this]
  show "remove_dot_segments (remove_dot_segments (bs ''/../a/./b/..'')) = remove_dot_segments (bs ''/../a/./b/..'')"
    by blast
qed

lemma merge_path_absolute: "base = [] \<or> hd base = SLASH \<Longrightarrow> \<exists>q. merge_path base r = SLASH # q"
proof -
  assume b: "base = [] \<or> hd base = SLASH"
  show ?thesis
  proof (cases "rposition (\<lambda>b. b = SLASH) base")
    case None
    then show ?thesis by (simp add: merge_path_def)
  next
    case (Some i)
    then have "i < length base" by (simp add: rposition_Some_iff)
    with b obtain x xs where "base = SLASH # xs" by (cases base) auto
    then show ?thesis using Some by (simp add: merge_path_def)
  qed
qed

lemma path_of_slash: "\<exists>q. path_of segs slash = SLASH # q"
  by (cases segs) (auto simp: path_of_def)

lemma resolve_absolute: "base = [] \<or> hd base = SLASH \<Longrightarrow> \<exists>q. resolve base r = SLASH # q"
  using merge_path_absolute [of base r] remove_dot_segments_absolute path_of_slash
  unfolding resolve_def by metis

lemma remove_dot_segments_slash: "p = SLASH # q \<Longrightarrow> \<exists>q'. remove_dot_segments p = SLASH # q'"
  using remove_dot_segments_absolute path_of_slash by metis

end
