(* ===== verification/Redirect.thy ===== *)
theory Redirect
  imports Origin Params Reference "HOL-Library.Sublist"
begin

text \<open>
  \<^verbatim>\<open>xibalba-client/src/redirect.rs\<close>: what following one \<^verbatim>\<open>Location\<close> does to a request and what it
  requires of the connection. A hop either stays on the connection or reports the URL to
  connect to; the client loop dials it. The inductive relation \<open>hops\<close> is that loop without the
  network, and its invariant states what no sequence of redirects can do: leave HTTPS, carry
  credentials to another origin, add a header, or send a target that is not absolute.
\<close>

section \<open>Definitions\<close>

datatype Hop = SameOrigin | Reconnect bytes

record RedirectState =
  rs_method :: Method
  rs_path :: bytes
  rs_query :: "bytes option"
  rs_body :: "bytes option"
  rs_extra_headers :: headers
  rs_allow_replay :: bool

definition RedirectState_new :: "RequestParams \<Rightarrow> RedirectState" where
  "RedirectState_new params =
     \<lparr> rs_method = rp_method params, rs_path = rp_path params, rs_query = rp_query params,
       rs_body = rp_body params, rs_extra_headers = rp_extra_headers params,
       rs_allow_replay = rp_allow_replay params \<rparr>"

definition to_params :: "RedirectState \<Rightarrow> RequestParams" where
  "to_params self =
     \<lparr> rp_method = rs_method self, rp_path = rs_path self, rp_query = rs_query self,
       rp_body = rs_body self, rp_extra_headers = rs_extra_headers self,
       rp_allow_replay = rs_allow_replay self \<rparr>"

definition is_credential_header :: "bytes \<Rightarrow> bool" where
  "is_credential_header name =
     (ascii_eq_ignore_case name (bs ''Authorization'') \<or> ascii_eq_ignore_case name (bs ''Proxy-Authorization'')
      \<or> ascii_eq_ignore_case name (bs ''Cookie'') \<or> ascii_eq_ignore_case name (bs ''Cookie2''))"

definition strip_cross_origin_headers :: "RedirectState \<Rightarrow> RedirectState" where
  "strip_cross_origin_headers self =
     self\<lparr> rs_extra_headers := filter (\<lambda>(name, _). \<not> is_credential_header name) (rs_extra_headers self) \<rparr>"

definition is_representation_header :: "bytes \<Rightarrow> bool" where
  "is_representation_header name =
     (ascii_eq_ignore_case name (bs ''Content-Type'') \<or> ascii_eq_ignore_case name (bs ''Content-Encoding'')
      \<or> ascii_eq_ignore_case name (bs ''Content-Language'') \<or> ascii_eq_ignore_case name (bs ''Content-Location''))"

definition strip_representation_headers :: "RedirectState \<Rightarrow> RedirectState" where
  "strip_representation_headers self =
     self\<lparr> rs_extra_headers := filter (\<lambda>(name, _). \<not> is_representation_header name) (rs_extra_headers self) \<rparr>"

definition is_followed_status :: "StatusCode \<Rightarrow> bool" where
  "is_followed_status status =
     (status \<in> {MOVED_PERMANENTLY, FOUND, SEE_OTHER, TEMPORARY_REDIRECT, PERMANENT_REDIRECT})"

text \<open>\<open>location_to_follow\<close> takes the status and the headers of the response.\<close>

definition location_to_follow :: "StatusCode \<Rightarrow> headers \<Rightarrow> bytes option" where
  "location_to_follow status response_headers =
     (if \<not> is_followed_status status then None
      else map_option snd (find (\<lambda>(name, _). ascii_eq_ignore_case name (bs ''Location'')) response_headers))"

definition apply_method_redirect :: "RedirectState \<Rightarrow> StatusCode \<Rightarrow> RedirectState" where
  "apply_method_redirect self status =
     (let becomes_get =
        (if status = SEE_OTHER then rs_method self \<noteq> Head
         else if status = MOVED_PERMANENTLY \<or> status = FOUND then rs_method self = Post
         else False) in
      if becomes_get then strip_representation_headers (self\<lparr> rs_method := Get, rs_body := None \<rparr>)
      else self)"

definition has_absolute_scheme :: "bytes \<Rightarrow> bool" where
  "has_absolute_scheme location =
     (case position (\<lambda>b. b = COLON) location of
        None \<Rightarrow> False
      | Some colon \<Rightarrow>
          (let scheme = take colon location in
           (ascii_eq_ignore_case scheme (bs ''http'') \<or> ascii_eq_ignore_case scheme (bs ''https''))
           \<and> starts_with (drop colon location) (bs ''://'')))"

definition is_scheme_token :: "bytes \<Rightarrow> bool" where
  "is_scheme_token bytes =
     (case bytes of
        first # rest \<Rightarrow>
          is_ascii_alphabetic first
          \<and> list_all (\<lambda>b. is_ascii_alphanumeric b \<or> b = 0x2B \<or> b = 0x2D \<or> b = DOT) rest
      | [] \<Rightarrow> False)"

definition has_named_scheme :: "bytes \<Rightarrow> bool" where
  "has_named_scheme location =
     (let end' = (case position (\<lambda>b. b = SLASH \<or> b = QUESTION) location of
                    None \<Rightarrow> length location | Some i \<Rightarrow> i) in
      case position (\<lambda>b. b = COLON) (take end' location) of
        None \<Rightarrow> False
      | Some colon \<Rightarrow> is_scheme_token (take colon location))"

definition resolve_relative_path :: "RedirectState \<Rightarrow> bytes \<Rightarrow> bytes" where
  "resolve_relative_path self relative = resolve (rs_path self) relative"

definition apply_absolute_location :: "RedirectState \<Rightarrow> Origin \<Rightarrow> bytes \<Rightarrow> RedirectState \<times> (Error + Hop)" where
  "apply_absolute_location self from location =
     (case Url_parse location of
        Inl e \<Rightarrow> (self, Inl e)
      | Inr url \<Rightarrow>
          if downgrades_to from (url_scheme url) then (self, Inl (Connection InsecureRedirect))
          else
            let (self, hop) =
                  (if covers from url then (self, SameOrigin)
                   else (strip_cross_origin_headers self, Reconnect location));
                self = self\<lparr> rs_path := (if url_path url = [] then [SLASH] else remove_dot_segments (url_path url)) \<rparr>;
                self = self\<lparr> rs_query := url_query url \<rparr> in
            (self, Inr hop))"

definition apply_location :: "RedirectState \<Rightarrow> Origin \<Rightarrow> bytes \<Rightarrow> RedirectState \<times> (Error + Hop)" where
  "apply_location self from location =
     (let without_fragment = (case position (\<lambda>b. b = HASH) location of
                                None \<Rightarrow> location | Some pos \<Rightarrow> take pos location) in
      if has_absolute_scheme without_fragment then apply_absolute_location self from without_fragment
      else if has_named_scheme without_fragment then (self, Inl (Connection UnsupportedRedirectScheme))
      else if starts_with without_fragment (bs ''//'')
      then apply_absolute_location self from (scheme_bytes from @ [COLON] @ without_fragment)
      else
        let (path_part, query) = split_first (\<lambda>b. b = QUESTION) without_fragment in
        if path_part = [] then
          (if query \<noteq> None then (self\<lparr> rs_query := query \<rparr>, Inr SameOrigin) else (self, Inr SameOrigin))
        else
          let self = self\<lparr> rs_path :=
                (if starts_with path_part [SLASH] then remove_dot_segments path_part
                 else resolve_relative_path self path_part) \<rparr> in
          (self\<lparr> rs_query := query \<rparr>, Inr SameOrigin))"

definition advance :: "RedirectState \<Rightarrow> Origin \<Rightarrow> StatusCode \<Rightarrow> bytes \<Rightarrow> RedirectState \<times> (Error + Hop)" where
  "advance self from status location = apply_location (apply_method_redirect self status) from location"

text \<open>
  The client loop of \<^verbatim>\<open>Client::execute\<close> without the network: each response with a followed status
  and a \<^verbatim>\<open>Location\<close> makes one step; after \<open>Reconnect\<close> the connection is to the URL's origin.
\<close>

inductive hops :: "Origin \<times> RedirectState \<Rightarrow> Origin \<times> RedirectState \<Rightarrow> bool" where
  hops_refl: "hops s s"
| hops_same: "hops s (from, st) \<Longrightarrow> location_to_follow status hs = Some location \<Longrightarrow>
    advance st from status location = (st', Inr SameOrigin) \<Longrightarrow> hops s (from, st')"
| hops_reconnect: "hops s (from, st) \<Longrightarrow> location_to_follow status hs = Some location \<Longrightarrow>
    advance st from status location = (st', Inr (Reconnect target)) \<Longrightarrow>
    Url_parse target = Inr u \<Longrightarrow> hops s (from_url u, st')"

section \<open>One hop\<close>

lemma apply_absolute_cases:
  assumes "apply_absolute_location st from loc = (st', Inr hop)"
  obtains u where "Url_parse loc = Inr u" "\<not> downgrades_to from (url_scheme u)"
    "hop = (if covers from u then SameOrigin else Reconnect loc)"
    "rs_extra_headers st' = (if covers from u then rs_extra_headers st
       else filter (\<lambda>(n, _). \<not> is_credential_header n) (rs_extra_headers st))"
    "rs_method st' = rs_method st" "rs_body st' = rs_body st" "rs_allow_replay st' = rs_allow_replay st"
    "rs_path st' = (if url_path u = [] then [SLASH] else remove_dot_segments (url_path u))"
    "rs_query st' = url_query u"
  using assms
  by (auto simp: apply_absolute_location_def strip_cross_origin_headers_def Let_def split: sum.splits if_splits)

lemma parsed_path_slash:
  assumes "Url_parse loc = Inr u"
  shows "\<exists>q. (if url_path u = [] then [SLASH] else remove_dot_segments (url_path u)) = SLASH # q"
proof (cases "url_path u")
  case (Cons b p)
  have "path_text (url_path u)" using Url_parse_sound [OF assms] by (simp add: url_ok_def)
  then have "url_path u = SLASH # p" using Cons by (simp add: path_text_def)
  then show ?thesis using remove_dot_segments_slash by simp
qed simp

lemma apply_location_step:
  assumes "apply_location st from loc = (st', Inr hop)"
  shows "rs_method st' = rs_method st \<and> rs_body st' = rs_body st \<and> rs_allow_replay st' = rs_allow_replay st"
    and "rs_path st = [] \<or> hd (rs_path st) = SLASH \<Longrightarrow> st' = st \<or> rs_path st' = rs_path st \<or> (\<exists>q. rs_path st' = SLASH # q)"
    and "hop = SameOrigin \<Longrightarrow> rs_extra_headers st' = rs_extra_headers st"
    and "hop = Reconnect t \<Longrightarrow>
      (\<exists>u. Url_parse t = Inr u \<and> \<not> downgrades_to from (url_scheme u) \<and> \<not> covers from u)
      \<and> rs_extra_headers st' = filter (\<lambda>(n, _). \<not> is_credential_header n) (rs_extra_headers st)"
proof -
  define wf where "wf = (case position (\<lambda>b. b = HASH) loc of None \<Rightarrow> loc | Some pos \<Rightarrow> take pos loc)"
  obtain pp q where pq: "split_first (\<lambda>b. b = QUESTION) wf = (pp, q)" by (cases "split_first (\<lambda>b. b = QUESTION) wf") auto
  consider l where "apply_absolute_location st from l = (st', Inr hop)"
    | "hop = SameOrigin" "pp = []" "st' = st \<or> st' = st\<lparr> rs_query := q \<rparr>"
    | "hop = SameOrigin" "pp \<noteq> []" "st' = st\<lparr> rs_path :=
                (if starts_with pp [SLASH] then remove_dot_segments pp
                 else resolve (rs_path st) pp), rs_query := q \<rparr>"
    using assms pq
    by (auto simp: apply_location_def resolve_relative_path_def wf_def [symmetric] Let_def split: if_splits)
  note cs = this
  show "rs_method st' = rs_method st \<and> rs_body st' = rs_body st \<and> rs_allow_replay st' = rs_allow_replay st"
    by (rule cs) (auto elim: apply_absolute_cases)
  show "hop = SameOrigin \<Longrightarrow> rs_extra_headers st' = rs_extra_headers st"
    by (rule cs) (auto elim!: apply_absolute_cases split: if_splits)
  show "hop = Reconnect t \<Longrightarrow>
      (\<exists>u. Url_parse t = Inr u \<and> \<not> downgrades_to from (url_scheme u) \<and> \<not> covers from u)
      \<and> rs_extra_headers st' = filter (\<lambda>(n, _). \<not> is_credential_header n) (rs_extra_headers st)"
    by (rule cs) (auto elim!: apply_absolute_cases split: if_splits)
  assume base: "rs_path st = [] \<or> hd (rs_path st) = SLASH"
  show "st' = st \<or> rs_path st' = rs_path st \<or> (\<exists>q. rs_path st' = SLASH # q)"
  proof (rule cs)
    fix l assume "apply_absolute_location st from l = (st', Inr hop)"
    then show ?thesis by (rule apply_absolute_cases) (use parsed_path_slash in metis)
  next
    assume "hop = SameOrigin" "pp \<noteq> []" and st': "st' = st\<lparr> rs_path :=
                (if starts_with pp [SLASH] then remove_dot_segments pp
                 else resolve (rs_path st) pp), rs_query := q \<rparr>"
    then show ?thesis
      using resolve_absolute [OF base, of pp] remove_dot_segments_slash [of pp "tl pp"]
      by (cases pp) (auto simp: starts_with_def)
  qed auto
qed

lemma apply_method_redirect_cases:
  "apply_method_redirect st status = st \<or>
   (rs_method (apply_method_redirect st status) = Get \<and> rs_body (apply_method_redirect st status) = None
    \<and> rs_path (apply_method_redirect st status) = rs_path st
    \<and> rs_allow_replay (apply_method_redirect st status) = rs_allow_replay st
    \<and> rs_extra_headers (apply_method_redirect st status) =
        filter (\<lambda>(n, _). \<not> is_representation_header n) (rs_extra_headers st))"
  by (auto simp: apply_method_redirect_def strip_representation_headers_def Let_def)

section \<open>Every sequence of hops\<close>

definition credential_free :: "RedirectState \<Rightarrow> bool" where
  "credential_free st = list_all (\<lambda>(n, _). \<not> is_credential_header n) (rs_extra_headers st)"

text \<open>
  What holds between the request as it was given (\<open>o0\<close>, \<open>s0\<close>) and the request after any number of
  hops (\<open>o1\<close>, \<open>s1\<close>).
\<close>

definition hops_inv :: "Origin \<times> RedirectState \<Rightarrow> Origin \<times> RedirectState \<Rightarrow> bool" where
  "hops_inv a b = (case a of (o0, s0) \<Rightarrow> case b of (o1, s1) \<Rightarrow>
     (o_scheme o0 = Https \<longrightarrow> o_scheme o1 = Https)
     \<and> (o1 = o0 \<or> credential_free s1)
     \<and> subseq (rs_extra_headers s1) (rs_extra_headers s0)
     \<and> (rs_method s1 = rs_method s0 \<and> rs_body s1 = rs_body s0 \<or> rs_method s1 = Get \<and> rs_body s1 = None)
     \<and> (rs_path s1 = rs_path s0 \<or> (\<exists>q. rs_path s1 = SLASH # q))
     \<and> rs_allow_replay s1 = rs_allow_replay s0
     \<and> (origin_ok o0 \<longrightarrow> origin_ok o1))"

lemma advance_step:
  assumes "advance st from status loc = (st', Inr hop)" "rs_path st = [] \<or> hd (rs_path st) = SLASH"
  shows "subseq (rs_extra_headers st') (rs_extra_headers st)
    \<and> (rs_method st' = rs_method st \<and> rs_body st' = rs_body st \<or> rs_method st' = Get \<and> rs_body st' = None)
    \<and> (rs_path st' = rs_path st \<or> (\<exists>q. rs_path st' = SLASH # q))
    \<and> rs_allow_replay st' = rs_allow_replay st
    \<and> (\<forall>t. hop = Reconnect t \<longrightarrow> credential_free st' \<and>
         (\<exists>u. Url_parse t = Inr u \<and> \<not> downgrades_to from (url_scheme u) \<and> \<not> covers from u))"
proof -
  let ?m = "apply_method_redirect st status"
  note a = assms(1) [unfolded advance_def]
  note m = apply_method_redirect_cases [of st status]
  have p: "rs_path ?m = rs_path st" and r: "rs_allow_replay ?m = rs_allow_replay st"
    and h: "subseq (rs_extra_headers ?m) (rs_extra_headers st)" using m by auto
  have "subseq (rs_extra_headers st') (rs_extra_headers ?m)"
    using apply_location_step(3) [OF a] apply_location_step(4) [OF a] by (cases hop) auto
  then have "subseq (rs_extra_headers st') (rs_extra_headers st)" using h by (rule subseq_order.trans)
  moreover have "rs_path st' = rs_path st \<or> (\<exists>q. rs_path st' = SLASH # q)"
    using apply_location_step(2) [OF a] assms(2) p by auto
  moreover have "credential_free st' \<and> (\<exists>u. Url_parse t = Inr u \<and> \<not> downgrades_to from (url_scheme u) \<and> \<not> covers from u)"
    if "hop = Reconnect t" for t
    using apply_location_step(4) [OF a that] by (auto simp: credential_free_def list_all_iff)
  ultimately show ?thesis using apply_location_step(1) [OF a] m r by auto
qed

lemma subseq_set: "subseq xs ys \<Longrightarrow> set xs \<subseteq> set ys"
  by (auto elim: list_emb_set)

lemma advance_credential_free:
  assumes "advance st from status loc = (st', Inr hop)" "rs_path st = [] \<or> hd (rs_path st) = SLASH"
    and "credential_free st"
  shows "credential_free st'"
proof -
  have "set (rs_extra_headers st') \<subseteq> set (rs_extra_headers st)"
    using advance_step [OF assms(1,2)] subseq_set by blast
  with assms(3) show ?thesis by (auto simp: credential_free_def list_all_iff)
qed

lemma hops_inv_step:
  assumes inv: "hops_inv (o0, s0) (fr, st)" and p0: "rs_path s0 = [] \<or> hd (rs_path s0) = SLASH"
    and adv: "advance st fr status loc = (st', Inr hop)"
    and dst: "o1 = fr \<or> credential_free st'" "o_scheme fr = Https \<longrightarrow> o_scheme o1 = Https" "origin_ok fr \<longrightarrow> origin_ok o1"
  shows "hops_inv (o0, s0) (o1, st')"
proof -
  have pst: "rs_path st = [] \<or> hd (rs_path st) = SLASH" using inv p0 by (auto simp: hops_inv_def)
  note step = advance_step [OF adv pst]
  note i = inv [unfolded hops_inv_def prod.case]
  have "subseq (rs_extra_headers st') (rs_extra_headers s0)"
    using subseq_order.trans step i by blast
  moreover have "rs_method st' = rs_method s0 \<and> rs_body st' = rs_body s0 \<or> rs_method st' = Get \<and> rs_body st' = None"
    using step i by (elim conjE disjE; simp)
  moreover have "rs_path st' = rs_path s0 \<or> (\<exists>q. rs_path st' = SLASH # q)"
    using step i by (elim conjE disjE; simp)
  moreover have "o1 = o0 \<or> credential_free st'"
    using i dst(1) advance_credential_free [OF adv pst] by blast
  moreover have "rs_allow_replay st' = rs_allow_replay s0" using step i by simp
  ultimately show ?thesis using i dst(2,3) unfolding hops_inv_def prod.case by blast
qed

lemma hops_preserves:
  assumes "hops a b" "rs_path (snd a) = [] \<or> hd (rs_path (snd a)) = SLASH"
  shows "hops_inv a b"
  using assms
proof (induction rule: hops.induct)
  case (hops_refl s)
  show ?case by (cases s) (simp add: hops_inv_def)
next
  case (hops_same s fr st status hs loc st')
  obtain o0 s0 where s: "s = (o0, s0)" by (cases s)
  then have inv: "hops_inv (o0, s0) (fr, st)" and p0: "rs_path s0 = [] \<or> hd (rs_path s0) = SLASH"
    using hops_same by auto
  show ?case unfolding s by (rule hops_inv_step [OF inv p0 hops_same.hyps(3)]) simp_all
next
  case (hops_reconnect s fr st status hs loc st' t u)
  obtain o0 s0 where s: "s = (o0, s0)" by (cases s)
  then have inv: "hops_inv (o0, s0) (fr, st)" and p0: "rs_path s0 = [] \<or> hd (rs_path s0) = SLASH"
    using hops_reconnect by auto
  have "rs_path st = [] \<or> hd (rs_path st) = SLASH" using inv p0 by (auto simp: hops_inv_def)
  from advance_step [OF hops_reconnect.hyps(3) this]
  have c: "credential_free st'" and d: "\<not> downgrades_to fr (url_scheme u)"
    using hops_reconnect.hyps(4) by auto
  have "o_scheme fr = Https \<longrightarrow> o_scheme (from_url u) = Https"
    using d by (cases "url_scheme u") (auto simp: downgrades_to_def from_url_def)
  then show ?case unfolding s
    using c from_url_ok [OF hops_reconnect.hyps(4)]
    by (intro hops_inv_step [OF inv p0 hops_reconnect.hyps(3)]) simp_all
qed

section \<open>Properties\<close>

text \<open>
  C24: no sequence of redirects, whatever the servers answer, takes a request from HTTPS to
  HTTP, sends an \<^verbatim>\<open>Authorization\<close>, \<^verbatim>\<open>Proxy-Authorization\<close> or \<^verbatim>\<open>Cookie\<close> header to an origin
  other than the one it was given for (not even back, once it has left), adds or reorders a
  header, changes the method other than to a \<^verbatim>\<open>GET\<close> without a body, or makes the target
  anything but an absolute path.
\<close>

theorem redirects_safe:
  assumes "hops (o0, s0) (o1, s1)" "\<exists>q. rs_path s0 = SLASH # q"
  shows "(o_scheme o0 = Https \<longrightarrow> o_scheme o1 = Https)
    \<and> (o1 \<noteq> o0 \<longrightarrow> list_all (\<lambda>(n, _). \<not> is_credential_header n) (rs_extra_headers s1))
    \<and> subseq (rs_extra_headers s1) (rs_extra_headers s0)
    \<and> (rs_method s1 = rs_method s0 \<and> rs_body s1 = rs_body s0 \<or> rs_method s1 = Get \<and> rs_body s1 = None)
    \<and> (\<exists>q. rs_path s1 = SLASH # q)"
proof -
  have "hops_inv (o0, s0) (o1, s1)" using hops_preserves [OF assms(1)] assms(2) by auto
  then show ?thesis using assms(2) unfolding hops_inv_def credential_free_def prod.case by auto
qed

definition sample_state :: RedirectState where
  "sample_state =
     \<lparr> rs_method = Post, rs_path = bs ''/a'', rs_query = None, rs_body = Some (bs ''x''),
       rs_extra_headers = [(bs ''Cookie'', bs ''c''), (bs ''Accept'', bs ''t'')], rs_allow_replay = False \<rparr>"

theorem redirects_safe_witness:
  "\<exists>o1 s1. hops (sample_origin, sample_state) (o1, s1) \<and> o_host o1 = bs ''b''
     \<and> rs_method s1 = Get \<and> rs_extra_headers s1 = [(bs ''Accept'', bs ''t'')] \<and> o_scheme o1 = Https"
proof -
  let ?s = "\<lparr> rs_method = Get, rs_path = bs ''/y'', rs_query = None, rs_body = None,
    rs_extra_headers = [(bs ''Accept'', bs ''t'')], rs_allow_replay = False \<rparr>"
  let ?u = "\<lparr> url_scheme = Https, url_host = bs ''b'', url_port = None, url_path = bs ''/x/../y'',
    url_query = None, url_fragment = None \<rparr>"
  have l: "location_to_follow SEE_OTHER [(bs ''location'', bs ''https://b/x/../y#z'')] = Some (bs ''https://b/x/../y#z'')"
    by code_simp
  have a: "advance sample_state sample_origin SEE_OTHER (bs ''https://b/x/../y#z'') = (?s, Inr (Reconnect (bs ''https://b/x/../y'')))"
    by code_simp
  have u: "Url_parse (bs ''https://b/x/../y'') = Inr ?u" by code_simp
  have h: "hops (sample_origin, sample_state) (from_url ?u, ?s)"
    by (rule hops_reconnect [OF hops_refl l a u])
  have "\<exists>q. rs_path sample_state = SLASH # q" by (simp add: sample_state_def bs_def)
  from redirects_safe [OF h this] h show ?thesis
    by (intro exI [of _ "from_url ?u"] exI [of _ ?s]) (simp add: from_url_def sample_origin_def)
qed

text \<open>
  What one hop answers. A reconnection names a URL that parses, is not of the origin the
  request is on and does not downgrade; a location that names a scheme other than \<^verbatim>\<open>http\<close> and
  \<^verbatim>\<open>https\<close> is refused and never becomes a path; a downgrade is refused with
  \<^verbatim>\<open>InsecureRedirect\<close>; and 307 and 308 keep method, body and headers of a request that stays
  on its origin.
\<close>

theorem advance_answers:
  assumes "rs_path st = [] \<or> hd (rs_path st) = SLASH"
  shows "(\<forall>st' t. advance st from status loc = (st', Inr (Reconnect t)) \<longrightarrow>
      (\<exists>u. Url_parse t = Inr u \<and> \<not> covers from u \<and> \<not> (o_scheme from = Https \<and> url_scheme u = Http)))
    \<and> (has_named_scheme loc \<and> HASH \<notin> set loc \<and> \<not> has_absolute_scheme loc \<longrightarrow>
        snd (advance st from status loc) = Inl (Connection UnsupportedRedirectScheme))
    \<and> (\<forall>u. Url_parse loc = Inr u \<and> HASH \<notin> set loc \<and> o_scheme from = Https \<and> url_scheme u = Http \<longrightarrow>
        snd (advance st from status loc) = Inl (Connection InsecureRedirect))
    \<and> (\<forall>st'. status \<in> {TEMPORARY_REDIRECT, PERMANENT_REDIRECT} \<and> advance st from status loc = (st', Inr SameOrigin) \<longrightarrow>
        rs_method st' = rs_method st \<and> rs_body st' = rs_body st \<and> rs_extra_headers st' = rs_extra_headers st)"
proof (intro conjI allI impI)
  fix st' t assume "advance st from status loc = (st', Inr (Reconnect t))"
  from advance_step [OF this assms]
  show "\<exists>u. Url_parse t = Inr u \<and> \<not> covers from u \<and> \<not> (o_scheme from = Https \<and> url_scheme u = Http)"
    by (auto simp: downgrades_to_def)
next
  assume h: "has_named_scheme loc \<and> HASH \<notin> set loc \<and> \<not> has_absolute_scheme loc"
  then have "position (\<lambda>b. b = HASH) loc = None" by (auto simp: position_None_iff)
  then show "snd (advance st from status loc) = Inl (Connection UnsupportedRedirectScheme)"
    using h by (simp add: advance_def apply_location_def)
next
  fix u assume u: "Url_parse loc = Inr u \<and> HASH \<notin> set loc \<and> o_scheme from = Https \<and> url_scheme u = Http"
  then have wf: "position (\<lambda>b. b = HASH) loc = None" by (auto simp: position_None_iff)
  obtain sch pt where s: "scheme_try_from sch = Inr (url_scheme u)" "loc = url_text u sch pt"
    using Url_parse_sound u by metis
  have c: "COLON \<notin> set sch" by (rule scheme_text_clean [OF s(1)])
  then have "position (\<lambda>b. b = COLON) sch = None" by (auto simp: position_None_iff)
  then have "position (\<lambda>b. b = COLON) loc = Some (length sch)"
    by (simp add: s(2) url_text_def position_append bs_def)
  moreover have "lower_bytes sch = scheme_as_bytes (url_scheme u)" using scheme_token.parse_sound [OF s(1)] by blast
  then have "ascii_eq_ignore_case sch (bs ''http'') \<or> ascii_eq_ignore_case sch (bs ''https'')"
    using scheme_token.render_canon [of Http] scheme_token.render_canon [of Https]
    by (cases "url_scheme u") (simp_all add: ascii_eq_ignore_case_iff)
  ultimately have "has_absolute_scheme loc"
    by (simp add: has_absolute_scheme_def s(2) url_text_def starts_with_def)
  then show "snd (advance st from status loc) = Inl (Connection InsecureRedirect)"
    using u wf by (simp add: advance_def apply_location_def apply_absolute_location_def downgrades_to_def)
next
  fix st' assume h: "status \<in> {TEMPORARY_REDIRECT, PERMANENT_REDIRECT} \<and> advance st from status loc = (st', Inr SameOrigin)"
  then have m: "apply_method_redirect st status = st" by (auto simp: apply_method_redirect_def)
  with h have a: "apply_location st from loc = (st', Inr SameOrigin)" by (simp add: advance_def)
  show "rs_method st' = rs_method st" "rs_body st' = rs_body st" "rs_extra_headers st' = rs_extra_headers st"
    using apply_location_step(1) [OF a] apply_location_step(3) [OF a refl] by simp_all
qed

theorem advance_answers_witness:
  "snd (advance sample_state sample_origin FOUND (bs ''mailto:a'')) = Inl (Connection UnsupportedRedirectScheme)
   \<and> snd (advance sample_state sample_origin FOUND (bs ''http://a/'')) = Inl (Connection InsecureRedirect)"
proof
  have p: "rs_path sample_state = [] \<or> hd (rs_path sample_state) = SLASH" by (simp add: sample_state_def bs_def)
  have "has_named_scheme (bs ''mailto:a'') \<and> HASH \<notin> set (bs ''mailto:a'') \<and> \<not> has_absolute_scheme (bs ''mailto:a'')"
    by code_simp
  with advance_answers [OF p, of sample_origin FOUND "bs ''mailto:a''"]
  show "snd (advance sample_state sample_origin FOUND (bs ''mailto:a'')) = Inl (Connection UnsupportedRedirectScheme)"
    by blast
  have "\<exists>u. Url_parse (bs ''http://a/'') = Inr u \<and> url_scheme u = Http"
    by (rule exI [of _ "\<lparr> url_scheme = Http, url_host = bs ''a'', url_port = None, url_path = bs ''/'',
        url_query = None, url_fragment = None \<rparr>"]) code_simp
  moreover have "HASH \<notin> set (bs ''http://a/'')" "o_scheme sample_origin = Https" by code_simp+
  ultimately show "snd (advance sample_state sample_origin FOUND (bs ''http://a/'')) = Inl (Connection InsecureRedirect)"
    using advance_answers [OF p, of sample_origin FOUND "bs ''http://a/''"] by blast
qed

end
