(* ===== verification/Client.thy ===== *)
theory Client
  imports Streaming Request Redirect
begin

text \<open>
  \<^verbatim>\<open>xibalba-client/src/client.rs\<close> with \<^verbatim>\<open>response/public.rs\<close>: the blocking client over one
  connection. The stream and the connector (with its TLS configuration) are the world and the
  environment: dialling replaces the stream of the world. The \<^verbatim>\<open>MAX_HEAD_SIZE\<close> parameter of the
  type is the argument \<open>max_head\<close>. A call that needs the interrupt consults the environment's.
\<close>

section \<open>Definitions\<close>

record Client =
  cl_config :: Config
  cl_origin :: Origin
  cl_write_buf :: bytes
  cl_head_buf :: bytes
  cl_dirty :: bool

record Response =
  rsp_version :: Version
  rsp_status :: StatusCode
  rsp_head :: HeadData
  rsp_body :: BodyReader

text \<open>
  \<^verbatim>\<open>String::from_utf8\<close>, by the table of well-formed byte sequences; a \<^verbatim>\<open>String\<close> is its bytes.
\<close>

definition in_range :: "u8 \<Rightarrow> u8 \<Rightarrow> u8 \<Rightarrow> bool" where
  "in_range lo hi b = (lo \<le> b \<and> b \<le> hi)"

definition utf8_second :: "u8 \<Rightarrow> u8 \<Rightarrow> bool" where
  "utf8_second b =
     (if b = 0xE0 then in_range 0xA0 0xBF else if b = 0xED then in_range 0x80 0x9F
      else if b = 0xF0 then in_range 0x90 0xBF else if b = 0xF4 then in_range 0x80 0x8F
      else in_range 0x80 0xBF)"

fun utf8_valid :: "bytes \<Rightarrow> bool" where
  "utf8_valid [] = True"
| "utf8_valid (b # xs) =
     (if b < 0x80 then utf8_valid xs
      else if in_range 0xC2 0xDF b then (case xs of c # ys \<Rightarrow> utf8_second b c \<and> utf8_valid ys | _ \<Rightarrow> False)
      else if in_range 0xE0 0xEF b then
        (case xs of c # d # ys \<Rightarrow> utf8_second b c \<and> in_range 0x80 0xBF d \<and> utf8_valid ys | _ \<Rightarrow> False)
      else if in_range 0xF0 0xF4 b then
        (case xs of c # d # e # ys \<Rightarrow>
           utf8_second b c \<and> in_range 0x80 0xBF d \<and> in_range 0x80 0xBF e \<and> utf8_valid ys
         | _ \<Rightarrow> False)
      else False)"

definition response_text :: "Response \<Rightarrow> Error + bytes" where
  "response_text self =
     (let (buf, r, _) = br_read_to_end (rsp_body self) [] in
      case r of
        Inl e \<Rightarrow> Inl (error_from_io e)
      | Inr _ \<Rightarrow> if utf8_valid buf then Inr buf else Inl (Connection InvalidUtf8Body))"

subsection \<open>Connecting\<close>

definition apply_timeouts :: "'w env \<Rightarrow> Client \<Rightarrow> 'w \<Rightarrow> (Error + unit) \<times> 'w" where
  "apply_timeouts E self w =
     (case set_read_timeout E w (read_timeout (cl_config self)) of
        (Inl e, w) \<Rightarrow> (Inl (error_from_io e), w)
      | (Inr _, w) \<Rightarrow>
          (case set_write_timeout E w (write_timeout (cl_config self)) of
             (Inl e, w) \<Rightarrow> (Inl (error_from_io e), w)
           | (Inr _, w) \<Rightarrow> (Inr (), w)))"

definition Client_connect :: "'w env \<Rightarrow> bytes \<Rightarrow> Config \<Rightarrow> 'w \<Rightarrow> (Error + Client) \<times> 'w" where
  "Client_connect E url_bytes config w =
     (case Config_validate config of
        Inl e \<Rightarrow> (Inl e, w)
      | Inr _ \<Rightarrow>
          (case Url_parse url_bytes of
             Inl e \<Rightarrow> (Inl e, w)
           | Inr url \<Rightarrow>
               (let (deadline, w) = connect_deadline E config w in
                case dial E w url deadline of
                  (Inl e, w) \<Rightarrow> (Inl e, w)
                | (Inr _, w) \<Rightarrow>
                    (let client = \<lparr> cl_config = config, cl_origin = from_url url, cl_write_buf = [], cl_head_buf = [],
                                    cl_dirty = False \<rparr> in
                     case apply_timeouts E client w of
                       (Inl e, w) \<Rightarrow> (Inl e, w)
                     | (Inr _, w) \<Rightarrow> (Inr client, w)))))"

definition connect_default :: "'w env \<Rightarrow> bytes \<Rightarrow> 'w \<Rightarrow> (Error + Client) \<times> 'w" where
  "connect_default E url_bytes w = Client_connect E url_bytes Config_default w"

definition reconnect_with_deadline ::
  "'w env \<Rightarrow> Client \<Rightarrow> Url \<Rightarrow> RequestDeadline \<Rightarrow> 'w \<Rightarrow> (Error + unit) \<times> Client \<times> 'w" where
  "reconnect_with_deadline E self url deadline w =
     (case rd_check E deadline w of
        (Inl e, w) \<Rightarrow> (Inl e, self, w)
      | (Inr _, w) \<Rightarrow>
          (let (fallback, w) = connect_deadline E (cl_config self) w;
               (within, w) = connect_deadline_within E deadline fallback w in
           case dial E w url within of
             (Inl e, w) \<Rightarrow> (Inl e, self, w)
           | (Inr _, w) \<Rightarrow>
               (let self = self\<lparr> cl_origin := from_url url \<rparr> in
                case apply_timeouts E self w of
                  (Inl e, w) \<Rightarrow> (Inl e, self, w)
                | (Inr _, w) \<Rightarrow> (Inr (), self\<lparr> cl_dirty := False \<rparr>, w))))"

definition reconnect_same_host_with_deadline ::
  "'w env \<Rightarrow> Client \<Rightarrow> RequestDeadline \<Rightarrow> 'w \<Rightarrow> (Error + unit) \<times> Client \<times> 'w" where
  "reconnect_same_host_with_deadline E self deadline w =
     reconnect_with_deadline E self (root_url (cl_origin self)) deadline w"

definition ensure_clean_with_deadline ::
  "'w env \<Rightarrow> Client \<Rightarrow> RequestDeadline \<Rightarrow> 'w \<Rightarrow> (Error + unit) \<times> Client \<times> 'w" where
  "ensure_clean_with_deadline E self deadline w =
     (if \<not> cl_dirty self then (Inr (), self, w) else reconnect_same_host_with_deadline E self deadline w)"

definition ensure_clean :: "'w env \<Rightarrow> Client \<Rightarrow> 'w \<Rightarrow> (Error + unit) \<times> Client \<times> 'w" where
  "ensure_clean E self w = ensure_clean_with_deadline E self RD_NONE w"

definition discard_partial_response :: "Client \<Rightarrow> Client" where
  "discard_partial_response self = self\<lparr> cl_dirty := True \<rparr>"

definition mark_reusable :: "Client \<Rightarrow> Client" where
  "mark_reusable self = self\<lparr> cl_dirty := False \<rparr>"

definition is_stale_connection :: "Error \<Rightarrow> bool" where
  "is_stale_connection err =
     (case err of
        Connection ConnectionClosed \<Rightarrow> True
      | Io io \<Rightarrow> kind io \<in> {UnexpectedEof, ConnectionReset, ConnectionAborted, BrokenPipe}
      | _ \<Rightarrow> False)"

subsection \<open>One exchange\<close>

definition MAX_INLINE_BODY :: usize where
  "MAX_INLINE_BODY = 64 * 1024"

definition inline_body_fits :: "Client \<Rightarrow> usize \<Rightarrow> bool" where
  "inline_body_fits self body_len = (length (cl_write_buf self) + body_len \<le> MAX_INLINE_BODY)"

text \<open>The headers and the request that \<^verbatim>\<open>send_head_once\<close> builds.\<close>

definition request_headers :: "Origin \<Rightarrow> RequestParams \<Rightarrow> Header list" where
  "request_headers origin params =
     [\<lparr> hname = HN_Host, hvalue = host_header_value origin \<rparr>]
     @ map (\<lambda>(n, v). \<lparr> hname = from_bytes n, hvalue = v \<rparr>) (rp_extra_headers params)
     @ (case (case rp_body params of
                Some data \<Rightarrow> Some (length data)
              | None \<Rightarrow> if rp_method params \<in> {Post, Put, Patch} then Some 0 else None) of
          Some len \<Rightarrow> [\<lparr> hname = HN_ContentLength, hvalue = to_decimal len \<rparr>]
        | None \<Rightarrow> [])"

definition request_of :: "Origin \<Rightarrow> RequestParams \<Rightarrow> Request" where
  "request_of origin params =
     \<lparr> req_method = rp_method params, req_path = rp_path params, req_query = rp_query params,
       req_version = Http11, req_headers = request_headers origin params \<rparr>"

text \<open>The writes of a request, one or two, and the flush, on one budget.\<close>

definition dispatch_request ::
  "'w env \<Rightarrow> bool \<Rightarrow> bytes \<Rightarrow> bytes option \<Rightarrow> WriteBudget \<Rightarrow> 'w \<Rightarrow> ((Error + unit) \<times> bytes \<times> 'w) option" where
  "dispatch_request wire inline write_buf body budget w =
     (let flush = (\<lambda>write_buf budget w. map_option (\<lambda>(r, w). (r, write_buf, w)) (flush_proto wire budget w)) in
      case body of
        Some data \<Rightarrow>
          if inline then
            (let write_buf = write_buf @ data in
             Option.bind (write_all_proto wire budget write_buf w) (\<lambda>(r, budget, w).
               case r of Inl e \<Rightarrow> Some (Inl e, write_buf, w) | Inr _ \<Rightarrow> flush write_buf budget w))
          else
            Option.bind (write_all_proto wire budget write_buf w) (\<lambda>(r, budget, w).
              case r of
                Inl e \<Rightarrow> Some (Inl e, write_buf, w)
              | Inr _ \<Rightarrow>
                  Option.bind (write_all_proto wire budget data w) (\<lambda>(r, budget, w).
                    case r of Inl e \<Rightarrow> Some (Inl e, write_buf, w) | Inr _ \<Rightarrow> flush write_buf budget w))
      | None \<Rightarrow>
          Option.bind (write_all_proto wire budget write_buf w) (\<lambda>(r, budget, w).
            case r of Inl e \<Rightarrow> Some (Inl e, write_buf, w) | Inr _ \<Rightarrow> flush write_buf budget w))"

type_synonym head_parts = "HeadData \<times> BodyFraming \<times> usize"

definition send_head_once ::
  "'w env \<Rightarrow> usize \<Rightarrow> Client \<Rightarrow> RequestParams \<Rightarrow> RequestDeadline \<Rightarrow> 'w
   \<Rightarrow> ((Error + head_parts) \<times> Client \<times> 'w) option" where
  "send_head_once E max_head self params deadline w =
     (case rd_check E deadline w of
        (Inl e, w) \<Rightarrow> Some (Inl e, self, w)
      | (Inr _, w) \<Rightarrow>
          if rp_method params = Connect then Some (Inl (Connection TunnelingNotSupported), self, w)
          else
            let self = self\<lparr> cl_head_buf := [] \<rparr> in
            case serialize_to_writer vec_write_all (request_of (cl_origin self) params) [] of
              (write_buf, Inl e) \<Rightarrow> Some (Inl (Io e), self\<lparr> cl_write_buf := write_buf \<rparr>, w)
            | (write_buf, Inr _) \<Rightarrow>
                (let self = discard_partial_response (self\<lparr> cl_write_buf := write_buf \<rparr>);
                     inline = (case rp_body params of None \<Rightarrow> False | Some d \<Rightarrow> inline_body_fits self (length d));
                     (budget, w) = wb_with_deadline E (head_silence (cl_config self)) deadline w;
                     wire = interruptible E in
                 Option.bind (dispatch_request wire inline write_buf (rp_body params) budget w) (\<lambda>(r, write_buf, w).
                   let self = self\<lparr> cl_write_buf := write_buf \<rparr> in
                   case r of
                     Inl e \<Rightarrow> Some (Inl e, self, w)
                   | Inr _ \<Rightarrow>
                       map_option (\<lambda>(r, head_buf, w). (r, self\<lparr> cl_head_buf := head_buf \<rparr>, w))
                         (read_response wire max_head (head_silence (cl_config self)) deadline (rp_method params) w))))"

definition send_head_interruptible ::
  "'w env \<Rightarrow> usize \<Rightarrow> Client \<Rightarrow> RequestParams \<Rightarrow> RequestDeadline \<Rightarrow> 'w
   \<Rightarrow> ((Error + head_parts) \<times> Client \<times> 'w) option" where
  "send_head_interruptible E max_head self params deadline w =
     Option.bind (send_head_once E max_head self params deadline w) (\<lambda>(r, self, w).
       case r of
         Inr head \<Rightarrow> Some (Inr head, self, w)
       | Inl e \<Rightarrow>
           if rp_allow_replay params \<and> is_stale_connection e \<and> cl_head_buf self = [] then
             (let (c, w) = intr E w in
              if c then Some (Inl (Io \<lparr> kind = Interrupted, message = ''request cancelled'' \<rparr>), self, w)
              else case reconnect_same_host_with_deadline E self deadline w of
                (Inl e, self, w) \<Rightarrow> Some (Inl e, self, w)
              | (Inr _, self, w) \<Rightarrow> send_head_once E max_head self params deadline w)
           else Some (Inl e, self, w))"

definition read_full_body ::
  "'w env \<Rightarrow> Client \<Rightarrow> BodyFraming \<Rightarrow> usize \<Rightarrow> RequestDeadline \<Rightarrow> 'w \<Rightarrow> ((Error + bytes) \<times> Client \<times> 'w) option" where
  "read_full_body E self framing tail_offset deadline w =
     (let (collector, w) = bc_with_deadline E (max_response_body (cl_config self)) (stream_silence (cl_config self)) deadline w in
      map_option (\<lambda>(data, collector, w).
          (data,
           case data of
             Inr _ \<Rightarrow> if bc_reusable collector then mark_reusable self else discard_partial_response self
           | Inl _ \<Rightarrow> discard_partial_response self,
           w))
        (bc_read E collector framing (drop tail_offset (cl_head_buf self)) w))"

text \<open>The blocking client never cancels.\<close>

definition uncancelled :: "'w env \<Rightarrow> 'w env" where
  "uncancelled E = E\<lparr> intr := NeverCancelled \<rparr>"

definition send_one ::
  "'w env \<Rightarrow> usize \<Rightarrow> Client \<Rightarrow> RequestParams \<Rightarrow> RequestDeadline \<Rightarrow> 'w \<Rightarrow> ((Error + Response) \<times> Client \<times> 'w) option" where
  "send_one E max_head self params deadline w =
     (case ensure_clean_with_deadline E self deadline w of
        (Inl e, self, w) \<Rightarrow> Some (Inl e, self, w)
      | (Inr _, self, w) \<Rightarrow>
          Option.bind (send_head_interruptible (uncancelled E) max_head self params deadline w) (\<lambda>(r, self, w).
            case r of
              Inl e \<Rightarrow> Some (Inl e, self, w)
            | Inr (head_data, framing, tail_offset) \<Rightarrow>
                (let reuse = connection_reuse head_data (requests_close params) in
                 case rd_check E deadline w of
                   (Inl e, w) \<Rightarrow> Some (Inl e, self, w)
                 | (Inr _, w) \<Rightarrow>
                     Option.bind (read_full_body E self framing tail_offset deadline w) (\<lambda>(r, self, w).
                       case r of
                         Inl e \<Rightarrow> Some (Inl e, self, w)
                       | Inr body_data \<Rightarrow>
                           (let self = (if is_keep reuse then self else discard_partial_response self) in
                            Some (Inr \<lparr> rsp_version = hd_version head_data, rsp_status = hd_status head_data,
                                        rsp_head = head_data, rsp_body = BodyReader_new body_data \<rparr>,
                                  self, w))))))"

section \<open>Requests\<close>

text \<open>
  A streaming response is its head and the body reader, which holds the client's dirty flag
  until it is dropped (\<open>st_drop\<close> puts it back into the client).
\<close>

definition execute_streaming ::
  "'w env \<Rightarrow> usize \<Rightarrow> Client \<Rightarrow> RequestParams \<Rightarrow> 'w \<Rightarrow> ((Error + HeadData \<times> StreamingBody) \<times> Client \<times> 'w) option" where
  "execute_streaming E max_head self params w =
     (let (deadline, w) = rd_after E (request_deadline (cl_config self)) w in
      case ensure_clean_with_deadline E self deadline w of
        (Inl e, self, w) \<Rightarrow> Some (Inl e, self, w)
      | (Inr _, self, w) \<Rightarrow>
          Option.bind (send_head_interruptible (uncancelled E) max_head self params deadline w) (\<lambda>(r, self, w).
            case r of
              Inl e \<Rightarrow> Some (Inl e, self, w)
            | Inr (head_data, framing, tail_offset) \<Rightarrow>
                (let reuse = connection_reuse head_data (requests_close params);
                     tail = drop tail_offset (cl_head_buf self);
                     self = self\<lparr> cl_dirty := True \<rparr>;
                     (body, w) = st_new E (cl_dirty self) framing tail (stream_silence (cl_config self)) (is_keep reuse) w in
                 Some (Inr (head_data, body), self, w))))"

definition st_drop :: "Client \<Rightarrow> StreamingBody \<Rightarrow> Client" where
  "st_drop self body = self\<lparr> cl_dirty := st_dirty body \<rparr>"

partial_function (option) execute_loop ::
  "'w env \<Rightarrow> usize \<Rightarrow> RequestDeadline \<Rightarrow> u8 \<Rightarrow> RedirectState \<Rightarrow> Client \<Rightarrow> 'w \<Rightarrow> ((Error + Response) \<times> Client \<times> 'w) option" where
  "execute_loop E max_head deadline hops_left state self w =
     Option.bind (send_one E max_head self (to_params state) deadline w) (\<lambda>(r, self, w).
       case r of
         Inl e \<Rightarrow> Some (Inl e, self, w)
       | Inr response \<Rightarrow>
           (case location_to_follow (rsp_status response) (hd_headers (rsp_head response)) of
              None \<Rightarrow> Some (Inr response, self, w)
            | Some location \<Rightarrow>
                if hops_left = 0 then Some (Inl (Connection TooManyRedirects), self, w)
                else
                  let hops_left = hops_left - 1;
                      (state, hop) = advance state (cl_origin self) (rsp_status response) location in
                  case hop of
                    Inl e \<Rightarrow> Some (Inl e, self, w)
                  | Inr SameOrigin \<Rightarrow> execute_loop E max_head deadline hops_left state self w
                  | Inr (Reconnect target) \<Rightarrow>
                      if \<not> allow_cross_origin_redirects (cl_config self)
                      then Some (Inl (Connection CrossOriginRedirectRefused), self, w)
                      else case Url_parse target of
                        Inl e \<Rightarrow> Some (Inl e, self, w)
                      | Inr url \<Rightarrow>
                          (case reconnect_with_deadline E self url deadline w of
                             (Inl e, self, w) \<Rightarrow> Some (Inl e, self, w)
                           | (Inr _, self, w) \<Rightarrow> execute_loop E max_head deadline hops_left state self w)))"

definition execute ::
  "'w env \<Rightarrow> usize \<Rightarrow> Client \<Rightarrow> RequestParams \<Rightarrow> 'w \<Rightarrow> ((Error + Response) \<times> Client \<times> 'w) option" where
  "execute E max_head self params w =
     (let state = RedirectState_new params;
          hops_left = max_redirects (cl_config self);
          (deadline, w) = rd_after E (request_deadline (cl_config self)) w in
      execute_loop E max_head deadline hops_left state self w)"

definition Client_send ::
  "'w env \<Rightarrow> usize \<Rightarrow> Client \<Rightarrow> RequestBuilder \<Rightarrow> 'w \<Rightarrow> ((Error + Response) \<times> Client \<times> 'w) option" where
  "Client_send E max_head self builder w =
     (case into_params builder of Inl e \<Rightarrow> Some (Inl e, self, w) | Inr params \<Rightarrow> execute E max_head self params w)"

definition send_streaming ::
  "'w env \<Rightarrow> usize \<Rightarrow> Client \<Rightarrow> RequestBuilder \<Rightarrow> 'w \<Rightarrow> ((Error + HeadData \<times> StreamingBody) \<times> Client \<times> 'w) option" where
  "send_streaming E max_head self builder w =
     (case into_params builder of Inl e \<Rightarrow> Some (Inl e, self, w) | Inr params \<Rightarrow> execute_streaming E max_head self params w)"

definition Client_request ::
  "'w env \<Rightarrow> usize \<Rightarrow> Client \<Rightarrow> Method \<Rightarrow> bytes \<Rightarrow> bytes option \<Rightarrow> bytes option \<Rightarrow> 'w
   \<Rightarrow> ((Error + Response) \<times> Client \<times> 'w) option" where
  "Client_request E max_head self method path query body w =
     execute E max_head self
       \<lparr> rp_method = method, rp_path = path, rp_query = query, rp_body = body, rp_extra_headers = [],
         rp_allow_replay = is_replay_eligible method \<rparr> w"

definition Client_get :: "'w env \<Rightarrow> usize \<Rightarrow> Client \<Rightarrow> bytes \<Rightarrow> 'w \<Rightarrow> ((Error + Response) \<times> Client \<times> 'w) option" where
  "Client_get E max_head self path w = Client_request E max_head self Get path None None w"

definition Client_post :: "'w env \<Rightarrow> usize \<Rightarrow> Client \<Rightarrow> bytes \<Rightarrow> bytes \<Rightarrow> 'w \<Rightarrow> ((Error + Response) \<times> Client \<times> 'w) option" where
  "Client_post E max_head self path body w = Client_request E max_head self Post path None (Some body) w"

end
