(* ===== verification/Frame.thy ===== *)
theory Frame
  imports Client
begin

text \<open>
  What the operations of the client leave alone. Every operation is built from the calls of the
  environment, so a relation between worlds that is reflexive, transitive and kept by each of
  these calls is kept by each operation. \<open>steady\<close> states what a relation needs; the lemmas carry it
  through the loops, each by induction over the loop's own computation.
\<close>

locale steady =
  fixes E :: "'w env" and R :: "'w \<Rightarrow> 'w \<Rightarrow> bool"
  assumes R_refl [simp]: "R w w"
    and R_trans [trans]: "R w w1 \<Longrightarrow> R w1 w2 \<Longrightarrow> R w w2"
    and R_rd: "rd E w n = (r, w1) \<Longrightarrow> R w w1"
    and R_wr: "wr E w x = (s, w1) \<Longrightarrow> R w w1"
    and R_fl: "fl E w = (u, w1) \<Longrightarrow> R w w1"
    and R_clock: "clock E w = (t, w1) \<Longrightarrow> R w w1"
    and R_sleep: "R w (sleep E w d)"
    and R_intr: "intr E w = (c, w1) \<Longrightarrow> R w w1"
    and R_dial: "dial E w url within = (v, w1) \<Longrightarrow> R w w1"
    and R_options: "set_read_timeout E w od = (u, w1) \<Longrightarrow> R w w1" "set_write_timeout E w od = (u, w1) \<Longrightarrow> R w w1"
begin

lemma steady_interruptible: "steady (interruptible E) R"
proof unfold_locales
  fix w w1 :: 'w and n x r s u
  obtain c w0 where i: "intr E w = (c, w0)" by (cases "intr E w")
  note R_intr [OF i]
  then show "rd (interruptible E) w n = (r, w1) \<Longrightarrow> R w w1" "wr (interruptible E) w x = (s, w1) \<Longrightarrow> R w w1"
      "fl (interruptible E) w = (u, w1) \<Longrightarrow> R w w1"
    using R_rd [of w0 n r w1] R_wr [of w0 x s w1] R_fl [of w0 u w1] R_trans [of w w0 w1]
    by (auto simp: interruptible_def intr_read_def intr_write_def intr_flush_def i split: if_splits)
  show "R w w2 \<Longrightarrow> R w2 w1 \<Longrightarrow> R w w1" for w2 by (rule R_trans)
qed (auto simp: interruptible_def R_clock R_sleep R_intr R_dial R_options)

section \<open>Clocks and deadlines\<close>

lemma R_clock_snd: "R w (snd (clock E w))"
  using R_clock by (cases "clock E w") auto

lemma R_pace: "R w (Tick_pace E started w)"
proof -
  obtain t w1 where c: "clock E w = (t, w1)" by (cases "clock E w")
  show ?thesis using R_clock [OF c] R_trans [OF R_clock [OF c] R_sleep] by (simp add: Tick_pace_def c Let_def)
qed

lemma R_clocked:
  "rd_expired E d w = (b, w1) \<Longrightarrow> R w w1"
  "rd_after E bd w = (d', w1) \<Longrightarrow> R w w1"
  "Deadline_after E dur w = (d', w1) \<Longrightarrow> R w w1"
  "sb_with_deadline E lim d w = (sb, w1) \<Longrightarrow> R w w1"
  "wb_with_deadline E lim d w = (wb, w1) \<Longrightarrow> R w w1"
  using R_clock_snd [of w]
  by (cases "clock E w"; auto simp: rd_expired_def rd_after_def Deadline_after_def sb_with_deadline_def wb_with_deadline_def
      split: option.splits)+

lemma R_checked:
  "check_io E d w = (c, w1) \<Longrightarrow> R w w1"
  "rd_check E d w = (e, w1) \<Longrightarrow> R w w1"
  "sb_new E lim w = (sb, w1) \<Longrightarrow> R w w1"
  "bc_with_deadline E m lim d w = (bc, w1) \<Longrightarrow> R w w1"
  "connect_deadline E config w = (d', w1) \<Longrightarrow> R w w1"
  using R_clocked
  by (fastforce simp: check_io_def rd_check_def sb_new_def bc_with_deadline_def connect_deadline_def
      split: prod.splits if_splits option.splits)+

lemma R_within: "connect_deadline_within E d fallback w = (d', w1) \<Longrightarrow> R w w1"
  using R_clock R_clocked(3) R_trans
  by (fastforce simp: connect_deadline_within_def split: option.splits prod.splits)

lemma R_st_new: "st_new E dirty framing tail silence reusable w = (body, w1) \<Longrightarrow> R w w1"
  using R_checked(3) by (auto simp: st_new_def Let_def split: prod.splits)

section \<open>Reading\<close>

lemma sb_read_aux:
  assumes "sb_read F sb n w = Some res"
  shows "F = E \<longrightarrow> R w (snd (snd res))"
  apply (rule sb_read.raw_induct [OF _ assms, where P = "\<lambda>F sb n w res. F = E \<longrightarrow> R w (snd (snd res))"])
  subgoal premises step for loop F sb n w res
  proof
    assume F: "F = E"
    obtain b w1 where b: "rd_expired E (sb_deadline sb) w = (b, w1)" by (cases "rd_expired E (sb_deadline sb) w")
    obtain ts w2 where ts: "clock E w1 = (ts, w2)" by (cases "clock E w1")
    obtain r w3 where r: "rd E w2 n = (r, w3)" by (cases "rd E w2 n")
    obtain t w4 where t: "clock E w3 = (t, w4)" by (cases "clock E w3")
    have R1: "R w w1" by (rule R_clocked(1) [OF b])
    have R3: "R w w3" by (rule R_trans [OF R1 R_trans [OF R_clock [OF ts] R_rd [OF r]]])
    have R4: "R w w4" by (rule R_trans [OF R3 R_clock [OF t]])
    have ih: "loop E sb n w5 = Some res \<Longrightarrow> R w5 (snd (snd res))" for w5 using step(1) F by blast
    have ih': "loop E sb n (Tick_pace E ts w4) = Some res \<Longrightarrow> R w (snd (snd res))"
      using ih R_trans [OF R_trans [OF R4 R_pace]] by blast
    show "R w (snd (snd res))"
      using step(2) ih' R1 R3 R4 by (cases r) (auto simp: F b ts r t split: if_splits)
  qed
  done

lemma R_sb_read: "sb_read E sb n w = Some (r, sb', w1) \<Longrightarrow> R w w1"
  using sb_read_aux by fastforce

lemma R_sb_read_proto: "sb_read_proto E sb n w = Some (r, sb', w1) \<Longrightarrow> R w w1"
  using R_sb_read by (auto simp: sb_read_proto_def)

lemma sb_read_exact_aux:
  assumes "sb_read_exact F sb need got w = Some res"
  shows "F = E \<longrightarrow> R w (snd (snd res))"
  apply (rule sb_read_exact.raw_induct [OF _ assms, where P = "\<lambda>F sb need got w res. F = E \<longrightarrow> R w (snd (snd res))"])
  subgoal premises step for loop F sb need got w res
  proof
    assume F: "F = E"
    show "R w (snd (snd res))"
    proof (cases "length got < need")
      case True
      then obtain r sb1 w1 where r: "sb_read E sb (need - length got) w = Some (r, sb1, w1)"
        using step(2) by (cases "sb_read E sb (need - length got) w") (auto simp: F)
      note R1 = R_sb_read [OF r]
      have ih: "loop E sb1 need got' w1 = Some res \<Longrightarrow> R w (snd (snd res))" for got'
        using step(1) F R_trans [OF R1] by blast
      show ?thesis using step(2) True ih R1 by (cases r) (auto simp: F r split: if_splits)
    qed (use step(2) in auto)
  qed
  done

lemma R_sb_read_exact_proto: "sb_read_exact_proto E sb need w = Some (r, sb', w1) \<Longrightarrow> R w w1"
  using sb_read_exact_aux by (fastforce simp: sb_read_exact_proto_def)

section \<open>Writing\<close>

lemma write_all_aux:
  assumes "write_all_raw F wb buf off w = Some res"
  shows "F = E \<longrightarrow> R w (snd (snd res))"
  apply (rule write_all_raw.raw_induct [OF _ assms, where P = "\<lambda>F wb buf off w res. F = E \<longrightarrow> R w (snd (snd res))"])
  subgoal premises step for loop F wb buf off w res
  proof
    assume F: "F = E"
    obtain c w1 where c: "check_io E (wb_deadline wb) w = (c, w1)" by (cases "check_io E (wb_deadline wb) w")
    obtain ts w2 where ts: "clock E w1 = (ts, w2)" by (cases "clock E w1")
    obtain r w3 where r: "wr E w2 (drop off buf) = (r, w3)" by (cases "wr E w2 (drop off buf)")
    obtain t w4 where t: "clock E w3 = (t, w4)" by (cases "clock E w3")
    have R1: "R w w1" by (rule R_checked(1) [OF c])
    have R3: "R w w3" by (rule R_trans [OF R1 R_trans [OF R_clock [OF ts] R_wr [OF r]]])
    have R4: "R w w4" by (rule R_trans [OF R3 R_clock [OF t]])
    have ih: "loop E a buf b w5 = Some res \<Longrightarrow> R w w5 \<Longrightarrow> R w (snd (snd res))" for a b w5
      using step(1) F R_trans by blast
    note ih4 = ih [OF _ R4] ih [OF _ R_trans [OF R4 R_pace]]
    show "R w (snd (snd res))"
      using step(2) ih4 R1 R3 R4 by (cases c; cases r) (auto simp: F c ts r t split: if_splits)
  qed
  done

lemma R_write_all_proto: "write_all_proto E wb buf w = Some (r, wb', w1) \<Longrightarrow> R w w1"
  using write_all_aux by (fastforce simp: write_all_proto_def)

lemma flush_aux:
  assumes "wb_flush F wb w = Some res"
  shows "F = E \<longrightarrow> R w (snd res)"
  apply (rule wb_flush.raw_induct [OF _ assms, where P = "\<lambda>F wb w res. F = E \<longrightarrow> R w (snd res)"])
  subgoal premises step for loop F wb w res
  proof
    assume F: "F = E"
    obtain c w1 where c: "check_io E (wb_deadline wb) w = (c, w1)" by (cases "check_io E (wb_deadline wb) w")
    obtain ts w2 where ts: "clock E w1 = (ts, w2)" by (cases "clock E w1")
    obtain r w3 where r: "fl E w2 = (r, w3)" by (cases "fl E w2")
    obtain t w4 where t: "clock E w3 = (t, w4)" by (cases "clock E w3")
    have R1: "R w w1" by (rule R_checked(1) [OF c])
    have R3: "R w w3" by (rule R_trans [OF R1 R_trans [OF R_clock [OF ts] R_fl [OF r]]])
    have R4: "R w w4" by (rule R_trans [OF R3 R_clock [OF t]])
    have ih: "loop E a w5 = Some res \<Longrightarrow> R w w5 \<Longrightarrow> R w (snd res)" for a w5
      using step(1) F R_trans by blast
    note ih4 = ih [OF _ R_trans [OF R4 R_pace]]
    show "R w (snd res)"
      using step(2) ih4 R1 R3 R4 by (cases c; cases r) (auto simp: F c ts r t split: if_splits)
  qed
  done

lemma R_flush_proto: "flush_proto E wb w = Some (r, w1) \<Longrightarrow> R w w1"
  using flush_aux by (fastforce simp: flush_proto_def)

lemma write_flush_frame:
  assumes "Option.bind (write_all_proto E wb buf w) (\<lambda>(r, budget, w).
       case r of Inl e \<Rightarrow> Some (Inl e, x, w)
       | Inr _ \<Rightarrow> map_option (\<lambda>(r, w). (r, x, w)) (flush_proto E budget w)) = Some (r, x', w1)"
  shows "R w w1"
proof -
  obtain q b w2 where q: "write_all_proto E wb buf w = Some (q, b, w2)"
    using assms by (cases "write_all_proto E wb buf w") auto
  show ?thesis using assms R_write_all_proto [OF q] R_flush_proto [of b w2 _ w1] R_trans
    by (cases q) (auto simp: q)
qed

lemma R_dispatch_request:
  assumes "dispatch_request E inline write_buf body budget w = Some (r, wb, w1)"
  shows "R w w1"
proof (cases body)
  case None
  then show ?thesis using assms write_flush_frame by (auto simp: dispatch_request_def)
next
  case (Some data)
  show ?thesis
  proof (cases inline)
    case True
    then show ?thesis using Some assms write_flush_frame by (auto simp: dispatch_request_def Let_def)
  next
    case False
    then obtain q b w2 where q: "write_all_proto E budget write_buf w = Some (q, b, w2)"
      using assms Some by (cases "write_all_proto E budget write_buf w") (auto simp: dispatch_request_def)
    note R2 = R_write_all_proto [OF q]
    show ?thesis
    proof (cases q)
      case (Inl e)
      then show ?thesis using assms Some False q R2 by (simp add: dispatch_request_def)
    next
      case (Inr u)
      then have "Option.bind (write_all_proto E b data w2) (\<lambda>(r, budget, w).
           case r of Inl e \<Rightarrow> Some (Inl e, write_buf, w)
           | Inr _ \<Rightarrow> map_option (\<lambda>(r, w). (r, write_buf, w)) (flush_proto E budget w)) = Some (r, wb, w1)"
        using assms Some False q by (simp add: dispatch_request_def)
      from R_trans [OF R2 write_flush_frame [OF this]] show ?thesis .
    qed
  qed
qed

section \<open>Heads and bodies\<close>

lemma head_end_aux:
  assumes "head_end_loop F m sc acc sb w = Some res"
  shows "F = E \<longrightarrow> R w (snd (snd (snd res)))"
  apply (rule head_end_loop.raw_induct [OF _ assms, where P = "\<lambda>F m sc acc sb w res. F = E \<longrightarrow> R w (snd (snd (snd res)))"])
  subgoal premises step for loop F m sc acc sb w res
  proof
    assume F: "F = E"
    show "R w (snd (snd (snd res)))"
    proof (cases "find_blank (drop (sc - 3) acc) = None \<and> length acc \<le> m")
      case True
      then obtain r sb1 w1 where r: "sb_read_proto E sb HEAD_BUF_SIZE w = Some (r, sb1, w1)"
        using step(2) by (cases "sb_read_proto E sb HEAD_BUF_SIZE w") (auto simp: F)
      note R1 = R_sb_read_proto [OF r]
      have ih: "loop E m a b sb1 w1 = Some res \<Longrightarrow> R w (snd (snd (snd res)))" for a b
        using step(1) F R_trans [OF R1] by blast
      show ?thesis using step(2) True ih R1 by (cases r) (auto simp: F r split: if_splits)
    next
      case False
      then show ?thesis using step(2) by (auto simp: F Let_def split: option.splits if_splits)
    qed
  qed
  done

lemma R_read_until_head_end: "read_until_head_end E acc sb m w = Some (r, acc', sb', w1) \<Longrightarrow> R w w1"
  using head_end_aux by (fastforce simp: read_until_head_end_def)

lemma read_response_aux:
  assumes "read_response_loop F m meth seen acc sb w = Some res"
  shows "F = E \<longrightarrow> R w (snd (snd res))"
  apply (rule read_response_loop.raw_induct [OF _ assms, where P = "\<lambda>F m meth seen acc sb w res. F = E \<longrightarrow> R w (snd (snd res))"])
  subgoal premises step for loop F m meth seen acc sb w res
  proof
    assume F: "F = E"
    obtain r acc1 sb1 w1 where r: "read_until_head_end E acc sb m w = Some (r, acc1, sb1, w1)"
      using step(2) by (cases "read_until_head_end E acc sb m w") (auto simp: F)
    note R1 = R_read_until_head_end [OF r]
    have ih: "loop E m meth n a sb1 w1 = Some res \<Longrightarrow> R w (snd (snd res))" for n a
      using step(1) F R_trans [OF R1] by blast
    show "R w (snd (snd res))"
      using step(2) ih R1 by (cases r) (auto simp: F r split: if_splits sum.splits)
  qed
  done

lemma R_read_response:
  assumes "read_response E m silence d meth w = Some (r, acc, w1)"
  shows "R w w1"
proof -
  obtain sb w2 where sb: "sb_with_deadline E silence d w = (sb, w2)" by (cases "sb_with_deadline E silence d w")
  then have "read_response_loop E m meth 0 [] sb w2 = Some (r, acc, w1)" using assms by (simp add: read_response_def)
  from R_trans [OF R_clocked(4) [OF sb]] read_response_aux [OF this] show ?thesis by simp
qed

lemma chunk_loop_aux:
  assumes "chunk_loop F m d body sb w = Some res"
  shows "F = E \<longrightarrow> R w (snd (snd (snd res)))"
  apply (rule chunk_loop.raw_induct [OF _ assms, where P = "\<lambda>F m d body sb w res. F = E \<longrightarrow> R w (snd (snd (snd res)))"])
  subgoal premises step for loop F m d body sb w res
  proof
    assume F: "F = E"
    obtain r sb1 w1 where r: "sb_read_proto E sb HEAD_BUF_SIZE w = Some (r, sb1, w1)"
      using step(2) by (cases "sb_read_proto E sb HEAD_BUF_SIZE w") (auto simp: F)
    note R1 = R_sb_read_proto [OF r]
    have ih: "loop E m a b sb1 w1 = Some res \<Longrightarrow> R w (snd (snd (snd res)))" for a b
      using step(1) F R_trans [OF R1] by blast
    show "R w (snd (snd (snd res)))"
    proof (cases r)
      case (Inr raw)
      show ?thesis
      proof (cases "raw_loop m d body raw")
        case (Some f)
        then show ?thesis using step(2) ih R1 Inr by (cases f) (auto simp: F r split: if_splits)
      qed (use step(2) R1 Inr in \<open>auto simp: F r split: if_splits\<close>)
    qed (use step(2) R1 in \<open>auto simp: F r\<close>)
  qed
  done

lemma close_loop_aux:
  assumes "close_loop F m body sb w = Some res"
  shows "F = E \<longrightarrow> R w (snd (snd res))"
  apply (rule close_loop.raw_induct [OF _ assms, where P = "\<lambda>F m body sb w res. F = E \<longrightarrow> R w (snd (snd res))"])
  subgoal premises step for loop F m body sb w res
  proof
    assume F: "F = E"
    obtain r sb1 w1 where r: "sb_read_proto E sb HEAD_BUF_SIZE w = Some (r, sb1, w1)"
      using step(2) by (cases "sb_read_proto E sb HEAD_BUF_SIZE w") (auto simp: F)
    note R1 = R_sb_read_proto [OF r]
    have ih: "loop E m b sb1 w1 = Some res \<Longrightarrow> R w (snd (snd res))" for b
      using step(1) F R_trans [OF R1] by blast
    show "R w (snd (snd res))"
      using step(2) ih R1 by (cases r) (auto simp: F r Let_def split: if_splits)
  qed
  done

lemma R_bc_read:
  assumes "bc_read E bc framing tail w = Some (r, bc', w1)"
  shows "R w w1"
proof (cases framing)
  case NoBody
  then show ?thesis using assms by (simp add: bc_read_def)
next
  case (ContentLength len)
  then show ?thesis using assms R_sb_read_exact_proto
    by (auto simp: bc_read_def bc_read_content_length_def Let_def split: option.splits if_splits)
next
  case Chunked
  then obtain f where f: "tail_loop (bc_max_body bc) ChunkedDecoder_new [] tail = Some f"
    using assms by (auto simp: bc_read_def bc_read_chunked_def bind_eq_Some_conv)
  show ?thesis
  proof (cases f)
    case (Return res reusable)
    then show ?thesis using Chunked assms f by (simp add: bc_read_def bc_read_chunked_def)
  next
    case (Break d body)
    then obtain res where "chunk_loop E (bc_max_body bc) d body (bc_budget bc) w = Some res" "w1 = snd (snd (snd res))"
      using Chunked assms f by (auto simp: bc_read_def bc_read_chunked_def)
    then show ?thesis using chunk_loop_aux [of E] by blast
  qed
next
  case UntilClose
  then consider "w1 = w" | res where "close_loop E (bc_max_body bc) tail (bc_budget bc) w = Some res" "w1 = snd (snd res)"
    using assms by (auto simp: bc_read_def bc_read_until_close_def Let_def split: if_splits)
  then show ?thesis using close_loop_aux [of E] by cases auto
qed

lemma R_refill:
  assumes "refill E body w = Some (r, body', w1)"
  shows "R w w1"
proof (cases "sb_read E (st_budget body) (length (resize (st_raw body) HEAD_BUF_SIZE 0)) w")
  case (Some res)
  obtain q sb w2 where res: "res = (q, sb, w2)" by (cases res)
  show ?thesis using assms Some res R_sb_read [of _ _ w q sb w2]
    by (cases q) (auto simp: refill_def Let_def split: if_splits)
qed (use assms in \<open>auto simp: refill_def Let_def split: if_splits\<close>)

lemma R_st_input: "st_input E body w = Some (r, body', w1) \<Longrightarrow> R w w1"
  using R_refill by (auto simp: st_input_def)

lemma R_st_read_chunked:
  assumes "st_read_chunked E body buf w = Some (r, buf', body', w1)"
  shows "R w w1"
proof -
  obtain q b2 w2 where q: "refill E body w = Some (q, b2, w2)" using assms by (auto simp: st_read_chunked_def bind_eq_Some_conv)
  have "w1 = w2"
    using assms by (cases q)
      (auto simp: st_read_chunked_def q Let_def bind_eq_Some_conv split: if_splits StreamState.splits DecodeResult.splits)
  then show ?thesis using R_refill [OF q] by simp
qed

lemma chunked_loop_aux:
  assumes "st_chunked_loop F body buf w = Some res"
  shows "F = E \<longrightarrow> R w (snd (snd (snd res)))"
  apply (rule st_chunked_loop.raw_induct [OF _ assms, where P = "\<lambda>F body buf w res. F = E \<longrightarrow> R w (snd (snd (snd res)))"])
  subgoal premises step for loop F body buf w res
  proof
    assume F: "F = E"
    obtain r buf1 b1 w1 where r: "st_read_chunked E body buf w = Some (r, buf1, b1, w1)"
      using step(2) by (cases "st_read_chunked E body buf w") (auto simp: F)
    note R1 = R_st_read_chunked [OF r]
    have ih: "loop E b1 buf1 w1 = Some res \<Longrightarrow> R w (snd (snd (snd res)))"
      using step(1) F R_trans [OF R1] by blast
    show "R w (snd (snd (snd res)))"
      using step(2) ih R1 by (cases r) (auto simp: F r split: if_splits ChunkedRead.splits)
  qed
  done

lemma R_st_read:
  assumes "st_read E body buf w = Some (r, buf', body', w1)"
  shows "R w w1"
proof (cases "buf = [] \<or> st_state body = SDone")
  case True
  then show ?thesis using assms by (auto simp: st_read_def split: if_splits)
next
  case False
  then consider n where "st_read_content_length E body buf n w = Some (r, buf', body', w1)"
    | "st_read_until_close E body buf w = Some (r, buf', body', w1)"
    | "st_chunked_loop E body buf w = Some (r, buf', body', w1)"
    using assms by (cases "st_state body") (auto simp: st_read_def)
  then show ?thesis
  proof cases
    case (1 n)
    then obtain q b2 w2 where q: "st_input E body w = Some (q, b2, w2)" by (auto simp: st_read_content_length_def)
    then have "w1 = w2" using 1 by (cases q) (auto simp: st_read_content_length_def Let_def split: if_splits)
    then show ?thesis using R_st_input [OF q] by simp
  next
    case 2
    then obtain q b2 w2 where q: "st_input E body w = Some (q, b2, w2)" by (auto simp: st_read_until_close_def)
    then have "w1 = w2" using 2 by (cases q) (auto simp: st_read_until_close_def Let_def split: if_splits)
    then show ?thesis using R_st_input [OF q] by simp
  next
    case 3
    then show ?thesis using chunked_loop_aux by fastforce
  qed
qed

section \<open>The client\<close>

lemma R_apply_timeouts:
  assumes "apply_timeouts E c w = (r, w1)"
  shows "R w w1"
proof -
  obtain a w2 where a: "set_read_timeout E w (read_timeout (cl_config c)) = (a, w2)" by force
  obtain b w3 where b: "set_write_timeout E w2 (write_timeout (cl_config c)) = (b, w3)" by force
  show ?thesis using assms R_options(1) [OF a] R_trans [OF R_options(1) [OF a] R_options(2) [OF b]]
    by (cases a; cases b) (auto simp: apply_timeouts_def a b)
qed

lemma R_reconnect:
  assumes "reconnect_with_deadline E c url d w = (r, c', w1)"
  shows "R w w1"
proof -
  obtain k w2 where k: "rd_check E d w = (k, w2)" by force
  obtain fb w3 where fb: "connect_deadline E (cl_config c) w2 = (fb, w3)" by force
  obtain wi w4 where wi: "connect_deadline_within E d fb w3 = (wi, w4)" by force
  obtain v w5 where v: "dial E w4 url wi = (v, w5)" by force
  obtain a w6 where a: "apply_timeouts E (c\<lparr> cl_origin := from_url url \<rparr>) w5 = (a, w6)" by force
  have R2: "R w w2" by (rule R_checked(2) [OF k])
  have R5: "R w w5" by (rule R_trans [OF R2 R_trans [OF R_checked(5) [OF fb] R_trans [OF R_within [OF wi] R_dial [OF v]]]])
  have R6: "R w w6" by (rule R_trans [OF R5 R_apply_timeouts [OF a]])
  show ?thesis using assms R2 R5 R6
    by (cases k; cases v; cases a) (auto simp: reconnect_with_deadline_def k fb wi v a Let_def)
qed

lemma R_ensure_clean: "ensure_clean_with_deadline E c d w = (r, c', w1) \<Longrightarrow> R w w1"
  using R_reconnect by (auto simp: ensure_clean_with_deadline_def reconnect_same_host_with_deadline_def split: if_splits)

end

context steady
begin

lemmas R_wire = steady.R_dispatch_request [OF steady_interruptible] steady.R_read_response [OF steady_interruptible]

lemma R_send_head_once:
  assumes "send_head_once E m c params d w = Some (r, c', w1)"
  shows "R w w1"
proof -
  obtain k w2 where k: "rd_check E d w = (k, w2)" by force
  have R2: "R w w2" by (rule R_checked(2) [OF k])
  obtain wbuf s where s: "serialize_to_writer vec_write_all (request_of (cl_origin c) params) [] = (wbuf, s)" by force
  show ?thesis
  proof (cases "w1 = w2")
    case True
    then show ?thesis using R2 by simp
  next
    case False
    obtain b w3 where b: "wb_with_deadline E (head_silence (cl_config c)) d w2 = (b, w3)" by force
    have R3: "R w w3" by (rule R_trans [OF R2 R_clocked(5) [OF b]])
    let ?inline = "case rp_body params of None \<Rightarrow> False
      | Some d \<Rightarrow> inline_body_fits (c\<lparr> cl_head_buf := [], cl_write_buf := wbuf, cl_dirty := True \<rparr>) (length d)"
    obtain q wb4 w4 where q: "dispatch_request (interruptible E) ?inline wbuf (rp_body params) b w3 = Some (q, wb4, w4)"
      using assms False by (cases k; cases s)
        (auto simp: send_head_once_def k s b Let_def bind_eq_Some_conv discard_partial_response_def split: if_splits)
    have rest: "w1 = w4 \<or> (\<exists>r' hb. read_response (interruptible E) m (head_silence (cl_config c)) d (rp_method params) w4 = Some (r', hb, w1))"
      using assms False q by (cases k; cases s; cases q)
        (auto simp: send_head_once_def k s b Let_def discard_partial_response_def split: if_splits)
    have R4: "R w w4" by (rule R_trans [OF R3 R_wire(1) [OF q]])
    from rest show ?thesis using R4 R_trans [OF R4 R_wire(2)] by blast
  qed
qed

lemma R_send_head_interruptible:
  assumes "send_head_interruptible E m c params d w = Some (r, c', w1)"
  shows "R w w1"
proof -
  obtain q c2 w2 where q: "send_head_once E m c params d w = Some (q, c2, w2)"
    using assms by (auto simp: send_head_interruptible_def bind_eq_Some_conv)
  have R2: "R w w2" by (rule R_send_head_once [OF q])
  obtain b w3 where b: "intr E w2 = (b, w3)" by force
  have R3: "R w w3" by (rule R_trans [OF R2 R_intr [OF b]])
  obtain k c4 w4 where k: "reconnect_same_host_with_deadline E c2 d w3 = (k, c4, w4)"
    by (cases "reconnect_same_host_with_deadline E c2 d w3")
  have R4: "R w w4"
    using R_trans [OF R3 R_reconnect] k by (simp add: reconnect_same_host_with_deadline_def)
  have "w1 = w2 \<or> w1 = w3 \<or> w1 = w4 \<or> send_head_once E m c4 params d w4 = Some (r, c', w1)"
    using assms by (cases q; cases k) (auto simp: send_head_interruptible_def q b k split: if_splits)
  then show ?thesis using R2 R3 R4 R_trans [OF R4 R_send_head_once] by blast
qed

end

end
