(* ===== verification/Client_Session.thy ===== *)
theory Client_Session
  imports Client
begin

text \<open>
  What a client promises about the connection it keeps: every operation returns, and while the
  client calls its connection clean, the connection is in step, that is, every request sent on
  it has been answered by a complete response of which the client has read exactly the bytes.
  A response can then never be read as the answer to a later request.
\<close>

section \<open>The network\<close>

text \<open>
  What the client relies on beyond \<open>connection\<close>: the two directions are independent, a flush
  and the socket options move no bytes, and a connection that could not be opened leaves the
  current one as it is. Nothing is assumed of a connection that was opened but that time went on.
\<close>

locale duplex = connection E T incoming outgoing for E :: "'w env" and T incoming outgoing +
  assumes wr_in: "wr E w x = (s, w1) \<Longrightarrow> incoming w1 = incoming w"
    and fl_still: "fl E w = (u, w1) \<Longrightarrow> incoming w1 = incoming w \<and> outgoing w1 = outgoing w"

locale network = duplex E T incoming outgoing for E :: "'w env" and T incoming outgoing +
  assumes dial_time: "dial E w u d = (r, w1) \<Longrightarrow> T w \<le> T w1"
    and dial_failed: "dial E w u d = (Inl e, w1) \<Longrightarrow> incoming w1 = incoming w \<and> outgoing w1 = outgoing w"
    and option_still: "set_read_timeout E w d = (s, w1) \<Longrightarrow> T w \<le> T w1 \<and> incoming w1 = incoming w \<and> outgoing w1 = outgoing w"
      "set_write_timeout E w d = (s, w1) \<Longrightarrow> T w \<le> T w1 \<and> incoming w1 = incoming w \<and> outgoing w1 = outgoing w"

interpretation scripted_network: network scripted sw_now sw_incoming sw_sent
  by unfold_locales (auto simp: scripted_def sw_incoming_def)

section \<open>Writing leaves the incoming bytes alone\<close>

context duplex
begin

lemma quiet_steps:
  "clock E w = (t, w1) \<Longrightarrow> incoming w1 = incoming w \<and> outgoing w1 = outgoing w"
  "incoming (Tick_pace E s w) = incoming w \<and> outgoing (Tick_pace E s w) = outgoing w"
  "check_io E d w = (c, w1) \<Longrightarrow> incoming w1 = incoming w \<and> outgoing w1 = outgoing w"
  using clock_still pace_still check_io_cases(2,3) by blast+

lemma write_all_in_aux:
  assumes "write_all_raw F wb buf off w = Some res"
  shows "F = E \<longrightarrow> incoming (snd (snd res)) = incoming w"
  apply (rule write_all_raw.raw_induct [OF _ assms, where P = "\<lambda>F wb buf off w res. F = E \<longrightarrow> incoming (snd (snd res)) = incoming w"])
  subgoal premises step for loop F wb buf off w res
  proof
    assume F: "F = E"
    obtain c w1 where c: "check_io E (wb_deadline wb) w = (c, w1)" by (cases "check_io E (wb_deadline wb) w")
    obtain ts w2 where ts: "clock E w1 = (ts, w2)" by (cases "clock E w1")
    obtain r w3 where r: "wr E w2 (drop off buf) = (r, w3)" by (cases "wr E w2 (drop off buf)")
    obtain t w4 where t: "clock E w3 = (t, w4)" by (cases "clock E w3")
    note still = quiet_steps(3) [OF c] quiet_steps(1) [OF ts] wr_in [OF r] quiet_steps(1) [OF t] quiet_steps(2) [of ts w4]
    have ih: "loop E a b n w5 = Some res \<Longrightarrow> incoming (snd (snd res)) = incoming w5" for a b n w5
      using step(1) F by blast
    show "incoming (snd (snd res)) = incoming w"
      using step(2) ih still by (cases c; cases r) (auto simp: F c ts r t split: if_splits)
  qed
  done

lemma flush_in_aux:
  assumes "wb_flush F wb w = Some res"
  shows "F = E \<longrightarrow> incoming (snd res) = incoming w \<and> outgoing (snd res) = outgoing w"
  apply (rule wb_flush.raw_induct [OF _ assms, where P = "\<lambda>F wb w res. F = E \<longrightarrow>
      incoming (snd res) = incoming w \<and> outgoing (snd res) = outgoing w"])
  subgoal premises step for loop F wb w res
  proof
    assume F: "F = E"
    obtain c w1 where c: "check_io E (wb_deadline wb) w = (c, w1)" by (cases "check_io E (wb_deadline wb) w")
    obtain ts w2 where ts: "clock E w1 = (ts, w2)" by (cases "clock E w1")
    obtain r w3 where r: "fl E w2 = (r, w3)" by (cases "fl E w2")
    obtain t w4 where t: "clock E w3 = (t, w4)" by (cases "clock E w3")
    note still = quiet_steps(3) [OF c] quiet_steps(1) [OF ts] fl_still [OF r] quiet_steps(1) [OF t] quiet_steps(2) [of ts w4]
    have ih: "loop E a w5 = Some res \<Longrightarrow> incoming (snd res) = incoming w5 \<and> outgoing (snd res) = outgoing w5" for a w5
      using step(1) F by blast
    show "incoming (snd res) = incoming w \<and> outgoing (snd res) = outgoing w"
      using step(2) ih still by (cases c; cases r) (auto simp: F c ts r t split: if_splits)
  qed
  done

text \<open>Writes and flushes as the client uses them.\<close>

lemma write_proto_returns:
  obtains (failed) e s w1 k where "write_all_proto E wb buf w = Some (Inl (classify e), s, w1)"
      "outgoing w1 = outgoing w @ take k buf" "incoming w1 = incoming w" "T w \<le> T w1"
  | (written) s w1 where "write_all_proto E wb buf w = Some (Inr (), s, w1)"
      "outgoing w1 = outgoing w @ buf" "incoming w1 = incoming w" "T w \<le> T w1"
proof -
  obtain r s w1 k where w: "write_all_raw E wb buf 0 w = Some (r, s, w1)" "T w \<le> T w1"
      "outgoing w1 = outgoing w @ take k (drop 0 buf)"
    and c: "case r of Inr _ \<Rightarrow> outgoing w1 = outgoing w @ drop 0 buf | Inl _ \<Rightarrow> True"
    using write_all_returns [of wb buf 0 w] by (fastforce split: sum.splits)
  have i: "incoming w1 = incoming w" using write_all_in_aux [OF w(1)] by simp
  show thesis
  proof (cases r)
    case (Inl e)
    then show thesis using w i by (intro failed [of e s w1 k]) (simp_all add: write_all_proto_def)
  next
    case (Inr u)
    then show thesis using w c i by (intro written [of s w1]) (simp_all add: write_all_proto_def)
  qed
qed

lemma flush_proto_returns:
  "\<exists>r w1. flush_proto E wb w = Some (r, w1) \<and> T w \<le> T w1 \<and> incoming w1 = incoming w \<and> outgoing w1 = outgoing w
     \<and> (\<forall>e. r = Inl e \<longrightarrow> (\<exists>io. e = classify io))"
proof -
  obtain r w1 where "wb_flush E wb w = Some (r, w1)" "T w \<le> T w1" using flush_returns [of wb w] by blast
  then show ?thesis using flush_in_aux [of E wb w "(r, w1)"] by (cases r) (auto simp: flush_proto_def)
qed

text \<open>\<open>sent_part\<close>: a part of \<open>data\<close> has been sent, all of it if the operation succeeded.\<close>

definition sent_part :: "bytes \<Rightarrow> (Error + unit) \<Rightarrow> 'w \<Rightarrow> 'w \<Rightarrow> bool" where
  "sent_part data r w w1 \<longleftrightarrow> T w \<le> T w1 \<and> incoming w1 = incoming w
     \<and> (\<exists>k. outgoing w1 = outgoing w @ take k data)
     \<and> (case r of Inr _ \<Rightarrow> outgoing w1 = outgoing w @ data | Inl e \<Rightarrow> \<exists>io. e = classify io)"

lemma write_flush_returns:
  "\<exists>r w1. Option.bind (write_all_proto E wb buf w) (\<lambda>(r, budget, w).
       case r of Inl e \<Rightarrow> Some (Inl e, x, w)
       | Inr _ \<Rightarrow> map_option (\<lambda>(r, w). (r, x, w)) (flush_proto E budget w)) = Some (r, x, w1)
     \<and> sent_part buf r w w1"
proof (cases rule: write_proto_returns [of wb buf w])
  case (failed e s w1 k)
  then show ?thesis by (auto simp: sent_part_def)
next
  case (written s w1)
  obtain r w2 where f: "flush_proto E s w1 = Some (r, w2)" "T w1 \<le> T w2" "incoming w2 = incoming w1"
    "outgoing w2 = outgoing w1" "\<forall>e. r = Inl e \<longrightarrow> (\<exists>io. e = classify io)"
    using flush_proto_returns [of s w1] by blast
  moreover have "\<exists>k. outgoing w2 = outgoing w @ take k buf"
    using written f by (intro exI [of _ "length buf"]) simp
  ultimately have "sent_part buf r w w2" using written by (cases r) (auto simp: sent_part_def)
  then show ?thesis using written f(1) by simp
qed

lemma dispatch_request_returns:
  "\<exists>r wb' w1. dispatch_request E inline write_buf body budget w = Some (r, wb', w1)
     \<and> sent_part (write_buf @ (case body of None \<Rightarrow> [] | Some d \<Rightarrow> d)) r w w1"
proof (cases body)
  case None
  then show ?thesis using write_flush_returns [of budget write_buf w write_buf]
    by (simp add: dispatch_request_def) blast
next
  case (Some data)
  show ?thesis
  proof (cases inline)
    case True
    then show ?thesis using Some write_flush_returns [of budget "write_buf @ data" w "write_buf @ data"]
      by (simp add: dispatch_request_def Let_def) blast
  next
    case False
    show ?thesis
    proof (cases rule: write_proto_returns [of budget write_buf w])
      case (failed e s w1 k)
      have "\<exists>k. outgoing w1 = outgoing w @ take k (write_buf @ data)"
        using failed(2) by (intro exI [of _ "min k (length write_buf)"]) (simp add: min_def)
      then show ?thesis using failed False Some by (auto simp: dispatch_request_def sent_part_def)
    next
      case (written s w1)
      obtain r w2 where r: "Option.bind (write_all_proto E s data w1) (\<lambda>(r, budget, w).
           case r of Inl e \<Rightarrow> Some (Inl e, write_buf, w)
           | Inr _ \<Rightarrow> map_option (\<lambda>(r, w). (r, write_buf, w)) (flush_proto E budget w)) = Some (r, write_buf, w2)"
         and sp: "sent_part data r w1 w2" using write_flush_returns [of s data w1 write_buf] by blast
      obtain k where k: "outgoing w2 = outgoing w1 @ take k data" using sp by (auto simp: sent_part_def)
      have "\<exists>k. outgoing w2 = outgoing w @ take k (write_buf @ data)"
        using k written(2) by (intro exI [of _ "length write_buf + k"]) simp
      then have "sent_part (write_buf @ data) r w w2"
        using sp written by (cases r) (auto simp: sent_part_def)
      then show ?thesis using r written(1) False Some by (simp add: dispatch_request_def)
    qed
  qed
qed

end

section \<open>In step\<close>

text \<open>
  Reference. A connection is in step if it was opened and since then complete requests went out
  and exactly their complete responses were read: \<open>exs\<close> are the exchanges so far, each a request
  text with its body, and the bytes of its response, interim heads included. A response that is
  ended by the close does not count: nothing can follow it.
\<close>

definition opened :: "'w env \<Rightarrow> 'w \<Rightarrow> bool" where
  "opened E w \<longleftrightarrow> (\<exists>w0 u d v. dial E w0 u d = (Inr v, w))"

definition request_bytes :: "Origin \<Rightarrow> RequestParams \<Rightarrow> bytes" where
  "request_bytes origin params =
     request_text (request_of origin params) @ (case rp_body params of None \<Rightarrow> [] | Some d \<Rightarrow> d)"

definition complete_request :: "Method \<Rightarrow> bytes \<Rightarrow> bool" where
  "complete_request m rq \<longleftrightarrow> (\<exists>origin params. rp_method params = m
     \<and> validate (request_of origin params) = Inr () \<and> rq = request_bytes origin params)"

definition final_head :: "Method \<Rightarrow> bytes \<Rightarrow> HeadData \<Rightarrow> BodyFraming \<Rightarrow> bool" where
  "final_head m hb hdata framing \<longleftrightarrow>
     (\<exists>h slots spans. parse_head hb (replicate MAX_HEADERS Header_empty) = Inr (h, slots, spans, length hb)
        \<and> \<not> (is_informational (status h) \<and> status h \<noteq> SWITCHING_PROTOCOLS)
        \<and> hd_version hdata = version h \<and> hd_status hdata = status h \<and> hd_buf hdata = hb
        \<and> hd_headers hdata = header_pairs (take (header_count h) slots)
        \<and> from_response (status h) m (take (header_count h) slots) = Inr framing)"

definition complete_response :: "Method \<Rightarrow> bytes \<Rightarrow> bool" where
  "complete_response m rs \<longleftrightarrow>
     (\<exists>skipped hb hdata framing raw body. rs = concat skipped @ hb @ raw \<and> list_all interim_head skipped
        \<and> final_head m hb hdata framing \<and> framing \<noteq> UntilClose \<and> framed_body framing raw = Some (body, []))"

definition in_step :: "('w \<Rightarrow> bytes) \<Rightarrow> ('w \<Rightarrow> bytes) \<Rightarrow> 'w env \<Rightarrow> 'w \<Rightarrow> bool" where
  "in_step inc out E w \<longleftrightarrow>
     (\<exists>w0 exs. opened E w0 \<and> out w = out w0 @ concat (map fst exs) \<and> inc w0 = concat (map snd exs) @ inc w
        \<and> list_all (\<lambda>(rq, rs). \<exists>m. complete_request m rq \<and> complete_response m rs) exs)"

text \<open>The invariant of a client.\<close>

definition clean_in_step :: "('w \<Rightarrow> bytes) \<Rightarrow> ('w \<Rightarrow> bytes) \<Rightarrow> 'w env \<Rightarrow> Client \<Rightarrow> 'w \<Rightarrow> bool" where
  "clean_in_step inc out E c w \<longleftrightarrow> (\<not> cl_dirty c \<longrightarrow> in_step inc out E w)"

lemma in_step_cong:
  "in_step inc out E w \<Longrightarrow> inc w1 = inc w \<Longrightarrow> out w1 = out w \<Longrightarrow> in_step inc out E w1"
  by (simp add: in_step_def)

lemma in_step_opened: "opened E w0 \<Longrightarrow> inc w = inc w0 \<Longrightarrow> out w = out w0 \<Longrightarrow> in_step inc out E w"
  unfolding in_step_def by (intro exI [of _ w0] exI [of _ "[]"]) simp

lemma in_step_exchange:
  assumes "in_step inc out E w" "out w1 = out w @ rq" "inc w = rs @ inc w1"
    and "complete_request m rq" "complete_response m rs"
  shows "in_step inc out E w1"
proof -
  obtain w0 exs where "opened E w0" "out w = out w0 @ concat (map fst exs)" "inc w0 = concat (map snd exs) @ inc w"
    "list_all (\<lambda>(rq, rs). \<exists>m. complete_request m rq \<and> complete_response m rs) exs"
    using assms(1) unfolding in_step_def by blast
  then show ?thesis unfolding in_step_def
    by (intro exI [of _ w0] exI [of _ "exs @ [(rq, rs)]"]) (use assms(2-) in auto)
qed

text \<open>A framed body is cut out of the stream whatever follows it.\<close>

lemma stop_done:
  assumes "chunk_step d b = Stop" "chunk_inv d" "alive d"
  shows "cstate d = Done"
proof (rule decode_refines_aux [OF assms(2,3), of "[b]" "[0]"])
  fix d' outb' res n d1 data
  assume st: "steps d (take n [b]) = Some (d1, data)" and a: "answer_ok d1 d' (drop n [b]) (length data) (length [0 :: u8]) res"
  have "n = 0" using st assms(1) by (cases n) auto
  then have "d1 = d" "data = []" using st by auto
  then show ?thesis using a assms(1) \<open>n = 0\<close> by (cases res) (auto simp: rejects_def)
qed

lemma ref_run_local:
  "ref_run d stream = (body, Complete rest) \<Longrightarrow> chunk_inv d \<Longrightarrow> alive d \<Longrightarrow> \<exists>raw. stream = raw @ rest \<and> ref_run d raw = (body, Complete [])"
proof (induction stream arbitrary: d body)
  case Nil
  then show ?case by (intro exI [of _ "[]"]) (auto split: if_splits)
next
  case (Cons b xs)
  show ?case
  proof (cases "chunk_step d b")
    case (Next d' out)
    obtain body' oc where r: "ref_run d' xs = (body', oc)" by (cases "ref_run d' xs")
    then have "oc = Complete rest" "body = out @ body'" using Cons.prems Next by auto
    moreover have "chunk_inv d'" "alive d'"
      using chunk_inv_steps [OF Cons.prems(2), of "[b]" d' out] alive_steps [OF Cons.prems(3), of "[b]" d' out] Next by simp_all
    moreover from Cons.IH [of d' body'] r this calculation obtain raw where "xs = raw @ rest" "ref_run d' raw = (body', Complete [])" by auto
    ultimately show ?thesis using Next by (intro exI [of _ "b # raw"]) simp
  next
    case (Reject e)
    then show ?thesis using Cons.prems by simp
  next
    case Stop
    then have "cstate d = Done" using stop_done Cons.prems(2,3) by blast
    then show ?thesis using Cons.prems Stop by (intro exI [of _ "[]"]) auto
  qed
qed

lemma framed_body_local:
  assumes "framed_body framing stream = Some (body, rest)" "framing \<noteq> UntilClose"
  shows "\<exists>raw. stream = raw @ rest \<and> framed_body framing raw = Some (body, [])"
proof (cases framing)
  case (ContentLength len)
  then show ?thesis using assms by (intro exI [of _ body]) (auto simp: framed_body_def split: if_splits)
next
  case Chunked
  then obtain oc where "ref_run ChunkedDecoder_new stream = (body, oc)" "oc = Complete rest"
    using assms by (cases "ref_run ChunkedDecoder_new stream") (auto simp: framed_body_def split: Outcome.splits)
  then show ?thesis using ref_run_local [of ChunkedDecoder_new stream body rest] chunk_inv_new alive_new Chunked by (auto simp: framed_body_def)
qed (use assms in \<open>auto simp: framed_body_def\<close>)

section \<open>One exchange\<close>

text \<open>Serialization, as \<open>send_head_once\<close> uses it.\<close>

lemma serialize_request:
  "serialize_to_writer vec_write_all r [] =
     (case validate r of Inl e \<Rightarrow> ([], Inl \<lparr> kind = InvalidInput, message = Error_display e \<rparr>)
      | Inr _ \<Rightarrow> (request_text r, Inr ()))"
  using vec_sink.put_pieces [where w = "[]" and ps = "request_pieces r", unfolded concat_pieces]
  unfolding writer_writes_eq by (auto split: sum.splits)

definition head_answer ::
  "('w \<Rightarrow> bytes) \<Rightarrow> ('w \<Rightarrow> bytes) \<Rightarrow> usize \<Rightarrow> Client \<Rightarrow> RequestParams \<Rightarrow> 'w \<Rightarrow> head_parts \<Rightarrow> Client \<Rightarrow> 'w \<Rightarrow> bool" where
  "head_answer inc out max_head c params w parts c' w1 \<longleftrightarrow>
     validate (request_of (cl_origin c) params) = Inr ()
     \<and> out w1 = out w @ request_bytes (cl_origin c) params
     \<and> read_response_post max_head (rp_method params) MAX_INTERIM_RESPONSES (inc w) (cl_head_buf c') (inc w1) (Inr parts)"

context duplex
begin

lemma interruptible_duplex: "duplex (interruptible E) T incoming outgoing"
proof (rule duplex.intro [OF interruptible_connection], unfold_locales)
  fix w w1 :: 'w and x s u
  obtain c w0 where i: "intr E w = (c, w0)" by (cases "intr E w")
  note still = intr_still [OF i]
  show "wr (interruptible E) w x = (s, w1) \<Longrightarrow> incoming w1 = incoming w"
    using still wr_in [of w0 x s w1] by (auto simp: interruptible_def intr_write_def i split: if_splits)
  show "fl (interruptible E) w = (u, w1) \<Longrightarrow> incoming w1 = incoming w \<and> outgoing w1 = outgoing w"
    using still fl_still [of w0 u w1] by (auto simp: interruptible_def intr_flush_def i split: if_splits)
qed

lemma rd_check_still:
  assumes "rd_check E d w = (r, w1)"
  shows "T w \<le> T w1 \<and> incoming w1 = incoming w \<and> outgoing w1 = outgoing w"
proof -
  obtain b w2 where b: "rd_expired E d w = (b, w2)" by (cases "rd_expired E d w")
  show ?thesis using assms rd_expired_time [OF b] rd_expired_still [OF b]
    by (auto simp: rd_check_def b split: if_splits)
qed

text \<open>
  One attempt: refused before a byte is written, with the connection as it was; or past that
  point, and then the client is dirty, a part of the request has been sent, and all of it if
  there is an answer.
\<close>

lemma send_head_once_returns:
  "\<exists>r c' w1. send_head_once E max_head c params deadline w = Some (r, c', w1) \<and> T w \<le> T w1
     \<and> cl_config c' = cl_config c \<and> cl_origin c' = cl_origin c
     \<and> ((\<exists>e. r = Inl e) \<and> cl_dirty c' = cl_dirty c \<and> incoming w1 = incoming w \<and> outgoing w1 = outgoing w
        \<or> cl_dirty c' \<and> (\<exists>k. outgoing w1 = outgoing w @ take k (request_bytes (cl_origin c) params))
          \<and> (\<forall>parts. r = Inr parts \<longrightarrow> head_answer incoming outgoing max_head c params w parts c' w1))"
proof -
  obtain k w1 where k: "rd_check E deadline w = (k, w1)" by (cases "rd_check E deadline w")
  note st = rd_check_still [OF k]
  show ?thesis
  proof (cases "(\<exists>e. k = Inl e) \<or> rp_method params = Connect \<or> (\<exists>e. validate (request_of (cl_origin c) params) = Inl e)")
    case True
    then show ?thesis using k st
      by (cases k; cases "validate (request_of (cl_origin c) params)")
        (auto simp: send_head_once_def serialize_request)
  next
    case False
    then have v: "validate (request_of (cl_origin c) params) = Inr ()" and m: "rp_method params \<noteq> Connect" and kr: "k = Inr ()"
      by (cases "validate (request_of (cl_origin c) params)"; cases k; auto)+
    let ?rt = "request_text (request_of (cl_origin c) params)"
    let ?c = "c\<lparr> cl_head_buf := [], cl_write_buf := ?rt, cl_dirty := True \<rparr>"
    define inline where "inline = (case rp_body params of None \<Rightarrow> False | Some d \<Rightarrow> inline_body_fits ?c (length d))"
    obtain wb w2 where wb: "wb_with_deadline E (head_silence (cl_config c)) deadline w1 = (wb, w2)"
      by (cases "wb_with_deadline E (head_silence (cl_config c)) deadline w1")
    obtain t0 where "clock E w1 = (t0, w2)" using wb by (cases "clock E w1") (auto simp: wb_with_deadline_def)
    then have st2: "T w1 \<le> T w2" "incoming w2 = incoming w1" "outgoing w2 = outgoing w1"
      using clock_time clock_still by fastforce+
    obtain r wbuf w3 where d: "dispatch_request (interruptible E) inline ?rt (rp_body params) wb w2 = Some (r, wbuf, w3)"
      and sp: "sent_part (request_bytes (cl_origin c) params) r w2 w3"
      using duplex.dispatch_request_returns [OF interruptible_duplex, of inline ?rt "rp_body params" wb w2]
      unfolding request_bytes_def by blast
    note sp = sp [unfolded sent_part_def]
    show ?thesis
    proof (cases r)
      case (Inl e)
      then have "send_head_once E max_head c params deadline w = Some (Inl e, ?c\<lparr> cl_write_buf := wbuf \<rparr>, w3)"
        using k kr m v wb d
        by (simp add: send_head_once_def serialize_request discard_partial_response_def inline_def Let_def)
      then show ?thesis using st st2 sp by auto
    next
      case (Inr u)
      obtain p hb w4 where p: "read_response (interruptible E) max_head (head_silence (cl_config c)) deadline (rp_method params) w3
          = Some (p, hb, w4)" "T w3 \<le> T w4" "outgoing w4 = outgoing w3"
          "read_response_post max_head (rp_method params) MAX_INTERIM_RESPONSES (incoming w3) hb (incoming w4) p"
        using connection.read_response_returns [OF interruptible_connection] by blast
      have "send_head_once E max_head c params deadline w
          = Some (p, ?c\<lparr> cl_write_buf := wbuf, cl_head_buf := hb \<rparr>, w4)"
        using k kr m v wb d Inr p(1)
        by (simp add: send_head_once_def serialize_request discard_partial_response_def inline_def Let_def)
      moreover have "outgoing w4 = outgoing w @ request_bytes (cl_origin c) params" "incoming w3 = incoming w"
        using sp Inr p st st2 by simp_all
      moreover have "T w \<le> T w4" using sp p st st2 by simp
      ultimately show ?thesis using v p(4)
        by (intro exI [of _ p] exI [of _ "?c\<lparr> cl_write_buf := wbuf, cl_head_buf := hb \<rparr>"] exI [of _ w4])
          (auto simp: head_answer_def intro!: exI [of _ "length (request_bytes (cl_origin c) params)"])
    qed
  qed
qed

end

section \<open>Reconnecting and retrying\<close>

context network
begin

abbreviation "tidy c w \<equiv> clean_in_step incoming outgoing E c w"

lemma connect_deadline_still:
  "connect_deadline E cfg w = (d, w1) \<Longrightarrow> T w \<le> T w1 \<and> incoming w1 = incoming w \<and> outgoing w1 = outgoing w"
  "connect_deadline_within E rdl f w = (d, w1) \<Longrightarrow> T w \<le> T w1 \<and> incoming w1 = incoming w \<and> outgoing w1 = outgoing w"
  using clock_still clock_time
  by (auto simp: connect_deadline_def connect_deadline_within_def Deadline_after_def Let_def
      split: option.splits prod.splits) (metis order_trans)+

lemma apply_timeouts_still:
  "apply_timeouts E c w = (r, w1) \<Longrightarrow> T w \<le> T w1 \<and> incoming w1 = incoming w \<and> outgoing w1 = outgoing w"
  using option_still unfolding apply_timeouts_def
  by (auto split: prod.splits sum.splits) (metis order_trans)+

lemma reconnect_result:
  assumes "reconnect_with_deadline E c u deadline w = (r, c', w1)"
  shows "T w \<le> T w1 \<and> cl_config c' = cl_config c \<and> (tidy c w \<longrightarrow> tidy c' w1)
    \<and> (cl_origin c' = cl_origin c \<or> cl_origin c' = from_url u)
    \<and> (cl_dirty c \<and> (\<exists>e. r = Inl e) \<longrightarrow> cl_dirty c')
    \<and> (r = Inr () \<longrightarrow> \<not> cl_dirty c' \<and> cl_origin c' = from_url u \<and> in_step incoming outgoing E w1)"
proof -
  obtain k w2 where k: "rd_check E deadline w = (k, w2)" by (cases "rd_check E deadline w")
  obtain f w3 where f: "connect_deadline E (cl_config c) w2 = (f, w3)" by (cases "connect_deadline E (cl_config c) w2")
  obtain d w4 where d: "connect_deadline_within E deadline f w3 = (d, w4)" by (cases "connect_deadline_within E deadline f w3")
  obtain q w5 where q: "dial E w4 u d = (q, w5)" by (cases "dial E w4 u d")
  let ?c = "c\<lparr> cl_origin := from_url u \<rparr>"
  obtain a w6 where a: "apply_timeouts E ?c w5 = (a, w6)" by (cases "apply_timeouts E ?c w5")
  note st = rd_check_still [OF k] connect_deadline_still(1) [OF f] connect_deadline_still(2) [OF d]
  note st2 = apply_timeouts_still [OF a] dial_time [OF q]
  show ?thesis
  proof (cases k)
    case (Inl e)
    then show ?thesis using assms k st
      by (auto simp: reconnect_with_deadline_def clean_in_step_def intro: in_step_cong)
  next
    case kr: (Inr x)
    show ?thesis
    proof (cases q)
      case (Inl e)
      then have "c' = c" "r = Inl e" "w1 = w5" using assms k kr f d q by (auto simp: reconnect_with_deadline_def)
      moreover have "incoming w5 = incoming w" "outgoing w5 = outgoing w" using dial_failed [OF q [unfolded Inl]] st by auto
      ultimately show ?thesis using st dial_time [OF q]
        by (auto simp: clean_in_step_def intro: in_step_cong)
    next
      case (Inr y)
      have "opened E w5" using q Inr unfolding opened_def by blast
      then have i: "in_step incoming outgoing E w6" using st2 by (intro in_step_opened [of E w5]) auto
      have "r = (case a of Inl e \<Rightarrow> Inl e | Inr _ \<Rightarrow> Inr ()) \<and> w1 = w6
          \<and> c' = (case a of Inl e \<Rightarrow> ?c | Inr _ \<Rightarrow> ?c\<lparr> cl_dirty := False \<rparr>)"
        using assms k kr f d q Inr a by (auto simp: reconnect_with_deadline_def Let_def split: sum.splits)
      moreover have "T w \<le> T w6" using st st2 by linarith
      ultimately show ?thesis using i by (cases a) (auto simp: clean_in_step_def)
    qed
  qed
qed

lemma reconnect_same_host_result:
  assumes "reconnect_same_host_with_deadline E c deadline w = (r, c', w1)"
  shows "T w \<le> T w1 \<and> cl_config c' = cl_config c \<and> (tidy c w \<longrightarrow> tidy c' w1) \<and> cl_origin c' = cl_origin c
    \<and> (cl_dirty c \<and> (\<exists>e. r = Inl e) \<longrightarrow> cl_dirty c')
    \<and> (r = Inr () \<longrightarrow> \<not> cl_dirty c' \<and> in_step incoming outgoing E w1)"
  using reconnect_result [OF assms [unfolded reconnect_same_host_with_deadline_def]] by (auto simp: from_url_root)

lemma ensure_clean_result:
  assumes "ensure_clean_with_deadline E c deadline w = (r, c', w1)" "tidy c w"
  shows "T w \<le> T w1 \<and> cl_config c' = cl_config c \<and> cl_origin c' = cl_origin c
    \<and> (case r of Inl _ \<Rightarrow> cl_dirty c' | Inr _ \<Rightarrow> \<not> cl_dirty c' \<and> in_step incoming outgoing E w1)"
proof (cases "cl_dirty c")
  case True
  then show ?thesis using reconnect_same_host_result [of c deadline w r c' w1] assms
    by (cases r) (auto simp: ensure_clean_with_deadline_def)
next
  case False
  then show ?thesis using assms by (auto simp: ensure_clean_with_deadline_def clean_in_step_def)
qed

text \<open>
  The head of a response, retried or not: an error leaves the client tidy; an answer leaves it
  dirty, with the request sent from a connection in step and the head read from there.
\<close>

lemma send_head_interruptible_returns:
  assumes "in_step incoming outgoing E w"
  shows "\<exists>r c' w1. send_head_interruptible E max_head c params deadline w = Some (r, c', w1) \<and> T w \<le> T w1
     \<and> cl_config c' = cl_config c \<and> cl_origin c' = cl_origin c
     \<and> (case r of
          Inl _ \<Rightarrow> tidy c' w1
        | Inr parts \<Rightarrow> cl_dirty c' \<and> (\<exists>w0. in_step incoming outgoing E w0
            \<and> head_answer incoming outgoing max_head c params w0 parts c' w1))"
proof -
  obtain r c1 w1 where o: "send_head_once E max_head c params deadline w = Some (r, c1, w1)" "T w \<le> T w1"
      "cl_config c1 = cl_config c" "cl_origin c1 = cl_origin c"
    and cs: "(\<exists>e. r = Inl e) \<and> cl_dirty c1 = cl_dirty c \<and> incoming w1 = incoming w \<and> outgoing w1 = outgoing w
        \<or> cl_dirty c1 \<and> (\<forall>parts. r = Inr parts \<longrightarrow> head_answer incoming outgoing max_head c params w parts c1 w1)"
    using send_head_once_returns [of max_head c params deadline w] by blast
  have t1: "tidy c1 w1" if "r = Inl e" for e
    using cs that assms by (auto simp: clean_in_step_def intro: in_step_cong)
  consider parts where "r = Inr parts"
    | e where "r = Inl e" "\<not> (rp_allow_replay params \<and> is_stale_connection e \<and> cl_head_buf c1 = [])"
    | e where "r = Inl e" "rp_allow_replay params \<and> is_stale_connection e \<and> cl_head_buf c1 = []"
    by (cases r) auto
  then show ?thesis
  proof cases
    case (1 parts)
    then have "cl_dirty c1" "head_answer incoming outgoing max_head c params w parts c1 w1" using cs by auto
    then show ?thesis using o 1 assms by (auto simp: send_head_interruptible_def)
  next
    case (2 e)
    then show ?thesis using o t1 by (auto simp: send_head_interruptible_def)
  next
    case (3 e)
    obtain b w2 where b: "intr E w1 = (b, w2)" by (cases "intr E w1")
    note sb = intr_time [OF b] intr_still [OF b]
    have t2: "tidy c1 w2" using t1 [OF 3(1)] sb by (auto simp: clean_in_step_def intro: in_step_cong)
    obtain q c2 w3 where q: "reconnect_same_host_with_deadline E c1 deadline w2 = (q, c2, w3)"
      by (cases "reconnect_same_host_with_deadline E c1 deadline w2")
    note rc = reconnect_same_host_result [OF q]
    show ?thesis
    proof (cases b)
      case True
      then show ?thesis using o 3 b sb t2 by (auto simp: send_head_interruptible_def)
    next
      case False
      show ?thesis
      proof (cases q)
        case (Inl e2)
        then have "send_head_interruptible E max_head c params deadline w = Some (Inl e2, c2, w3)"
          using o(1) 3 b False q by (simp add: send_head_interruptible_def)
        then show ?thesis using o rc sb t2 by auto
      next
        case (Inr y)
        then have i: "in_step incoming outgoing E w3" using rc by simp
        obtain r4 c4 w4 where f: "send_head_once E max_head c2 params deadline w3 = Some (r4, c4, w4)" "T w3 \<le> T w4"
            "cl_config c4 = cl_config c2" "cl_origin c4 = cl_origin c2"
          and cs4: "(\<exists>e. r4 = Inl e) \<and> cl_dirty c4 = cl_dirty c2 \<and> incoming w4 = incoming w3 \<and> outgoing w4 = outgoing w3
            \<or> cl_dirty c4 \<and> (\<forall>parts. r4 = Inr parts \<longrightarrow> head_answer incoming outgoing max_head c2 params w3 parts c4 w4)"
          using send_head_once_returns [of max_head c2 params deadline w3] by blast
        have eq: "send_head_interruptible E max_head c params deadline w = Some (r4, c4, w4)"
          using o(1) 3 b False q Inr f(1) by (simp add: send_head_interruptible_def)
        have oc: "cl_origin c2 = cl_origin c" using rc o by simp
        have "case r4 of Inl _ \<Rightarrow> tidy c4 w4 | Inr parts \<Rightarrow> cl_dirty c4 \<and> (\<exists>w0. in_step incoming outgoing E w0
            \<and> head_answer incoming outgoing max_head c params w0 parts c4 w4)"
        proof (cases r4)
          case (Inl e)
          then show ?thesis using cs4 i by (auto simp: clean_in_step_def intro: in_step_cong)
        next
          case (Inr parts)
          then have "cl_dirty c4" "head_answer incoming outgoing max_head c2 params w3 parts c4 w4" using cs4 by auto
          then show ?thesis using i Inr oc by (auto simp: head_answer_def)
        qed
        moreover have "T w \<le> T w4" using o sb rc f by linarith
        ultimately show ?thesis using eq f o rc by auto
      qed
    qed
  qed
qed

end

section \<open>Whole exchanges\<close>

lemma in_step_uncancelled [simp]: "in_step inc out (uncancelled E) w \<longleftrightarrow> in_step inc out E w"
  by (simp add: in_step_def opened_def uncancelled_def)

lemma tidy_uncancelled [simp]: "clean_in_step inc out (uncancelled E) c w \<longleftrightarrow> clean_in_step inc out E c w"
  by (simp add: clean_in_step_def)

text \<open>
  \<open>answers\<close>: the response is what the stream holds: interim heads, the final head, and the
  body that its framing cuts out.
\<close>

definition answers :: "usize \<Rightarrow> usize \<Rightarrow> Method \<Rightarrow> bytes \<Rightarrow> Response \<Rightarrow> bool" where
  "answers max_head max_body m stream resp \<longleftrightarrow>
     (\<exists>skipped hb framing rest left. stream = concat skipped @ hb @ rest \<and> list_all interim_head skipped
        \<and> length skipped \<le> MAX_INTERIM_RESPONSES \<and> length hb \<le> max_head \<and> final_head m hb (rsp_head resp) framing
        \<and> rsp_version resp = hd_version (rsp_head resp) \<and> rsp_status resp = hd_status (rsp_head resp)
        \<and> framed_body framing rest = Some (br_data (rsp_body resp), left) \<and> br_pos (rsp_body resp) = 0
        \<and> length (br_data (rsp_body resp)) \<le> max_body)"

lemma head_answer_split:
  assumes "head_answer inc out max_head c params w0 (hdata, framing, e) c' w1"
  obtains skipped where
    "inc w0 = concat skipped @ take e (cl_head_buf c') @ (drop e (cl_head_buf c') @ inc w1)"
    "list_all interim_head skipped" "length skipped \<le> MAX_INTERIM_RESPONSES" "length (take e (cl_head_buf c')) \<le> max_head"
    "final_head (rp_method params) (take e (cl_head_buf c')) hdata framing"
    "complete_request (rp_method params) (request_bytes (cl_origin c) params)"
    "out w1 = out w0 @ request_bytes (cl_origin c) params"
proof -
  obtain skipped h slots spans where s: "inc w0 = concat skipped @ cl_head_buf c' @ inc w1" "list_all interim_head skipped"
      "length skipped \<le> MAX_INTERIM_RESPONSES"
    and p: "parse_head (take e (cl_head_buf c')) (replicate MAX_HEADERS Header_empty) = Inr (h, slots, spans, e)"
      "e \<le> max_head" "e \<le> length (cl_head_buf c')"
      "\<not> (is_informational (status h) \<and> status h \<noteq> SWITCHING_PROTOCOLS)"
      "hd_version hdata = version h" "hd_status hdata = status h" "hd_buf hdata = take e (cl_head_buf c')"
      "hd_headers hdata = header_pairs (take (header_count h) slots)"
      "from_response (status h) (rp_method params) (take (header_count h) slots) = Inr framing"
    using assms by (auto simp: head_answer_def read_response_post_def)
  have l: "length (take e (cl_head_buf c')) = e" using p(3) by simp
  have "final_head (rp_method params) (take e (cl_head_buf c')) hdata framing"
    unfolding final_head_def l using p by blast
  moreover have "complete_request (rp_method params) (request_bytes (cl_origin c) params)"
    using assms unfolding head_answer_def complete_request_def by blast
  ultimately show thesis using s p(2) l assms by (intro that [of skipped]) (simp_all add: head_answer_def)
qed

lemma settle:
  assumes ha: "head_answer inc out max_head c params w0 (hdata, framing, e) c' w1" and i: "in_step inc out E w0"
    and f: "framed_body framing (drop e (cl_head_buf c') @ inc w1) = Some (body, inc w2)" "framing \<noteq> UntilClose"
    and o: "out w2 = out w1"
  shows "in_step inc out E w2"
proof (rule head_answer_split [OF ha])
  fix skipped
  assume s: "inc w0 = concat skipped @ take e (cl_head_buf c') @ (drop e (cl_head_buf c') @ inc w1)"
    "list_all interim_head skipped" "length skipped \<le> MAX_INTERIM_RESPONSES"
    "final_head (rp_method params) (take e (cl_head_buf c')) hdata framing"
    "complete_request (rp_method params) (request_bytes (cl_origin c) params)"
    "out w1 = out w0 @ request_bytes (cl_origin c) params"
  obtain raw where raw: "drop e (cl_head_buf c') @ inc w1 = raw @ inc w2" "framed_body framing raw = Some (body, [])"
    using framed_body_local [OF f] by blast
  have "complete_response (rp_method params) (concat skipped @ take e (cl_head_buf c') @ raw)"
    unfolding complete_response_def using s raw f(2) by blast
  moreover have "inc w0 = (concat skipped @ take e (cl_head_buf c') @ raw) @ inc w2" using s(1) raw(1) by simp
  ultimately show ?thesis using in_step_exchange [OF i] s o by metis
qed

context network
begin

lemma uncancelled_network: "network (uncancelled E) T incoming outgoing"
  by unfold_locales
    (auto simp: uncancelled_def NeverCancelled_def sleep_still
      dest: rd_time wr_time fl_time clock_time clock_still src.source_data src.source_err drn.drain_data drn.drain_err
        rd_out wr_in fl_still dial_time dial_failed option_still intro: sleep_time src.source_eof)

lemma bc_with_deadline_still:
  "bc_with_deadline E m s d w = (b, w1) \<Longrightarrow>
   T w \<le> T w1 \<and> incoming w1 = incoming w \<and> outgoing w1 = outgoing w \<and> bc_max_body b = m"
  using clock_time clock_still
  by (auto simp: bc_with_deadline_def sb_with_deadline_def split: prod.splits) (metis order_trans)

lemma read_full_body_returns:
  "\<exists>r c' w1. read_full_body E c framing off deadline w = Some (r, c', w1) \<and> T w \<le> T w1 \<and> outgoing w1 = outgoing w
     \<and> (c' = mark_reusable c \<or> c' = discard_partial_response c)
     \<and> (case r of
          Inl _ \<Rightarrow> cl_dirty c'
        | Inr body \<Rightarrow> length body \<le> max_response_body (cl_config c)
            \<and> (\<exists>left. framed_body framing (drop off (cl_head_buf c) @ incoming w) = Some (body, left @ incoming w1)
                 \<and> (\<not> cl_dirty c' \<longrightarrow> left = [] \<and> framing \<noteq> UntilClose)))"
proof -
  obtain b w1 where b: "bc_with_deadline E (max_response_body (cl_config c)) (stream_silence (cl_config c)) deadline w = (b, w1)"
    by (cases "bc_with_deadline E (max_response_body (cl_config c)) (stream_silence (cl_config c)) deadline w")
  note st = bc_with_deadline_still [OF b]
  obtain r b' w2 where r: "bc_read E b framing (drop off (cl_head_buf c)) w1 = Some (r, b', w2)" "T w1 \<le> T w2"
    "outgoing w2 = outgoing w1"
    "collected framing (bc_max_body b) (drop off (cl_head_buf c) @ incoming w1) (incoming w2) r (bc_reusable b')"
    using bc_read_returns by blast
  show ?thesis using b r st
    by (cases r) (auto simp: read_full_body_def collected_def discard_partial_response_def mark_reusable_def)
qed

lemma send_one_returns:
  assumes "tidy c w"
  shows "\<exists>r c' w1. send_one E max_head c params deadline w = Some (r, c', w1) \<and> T w \<le> T w1
     \<and> cl_config c' = cl_config c \<and> cl_origin c' = cl_origin c \<and> tidy c' w1
     \<and> (\<forall>resp. r = Inr resp \<longrightarrow> (\<exists>w0. in_step incoming outgoing E w0
          \<and> answers max_head (max_response_body (cl_config c)) (rp_method params) (incoming w0) resp))"
proof -
  obtain k c1 w1 where k: "ensure_clean_with_deadline E c deadline w = (k, c1, w1)"
    by (cases "ensure_clean_with_deadline E c deadline w")
  note e1 = ensure_clean_result [OF k assms]
  show ?thesis
  proof (cases k)
    case (Inl e)
    then show ?thesis using k e1 by (auto simp: send_one_def clean_in_step_def)
  next
    case kr: (Inr u)
    then have "in_step incoming outgoing (uncancelled E) w1" using e1 by simp
    from network.send_head_interruptible_returns [OF uncancelled_network this, of max_head c1 params deadline,
        unfolded tidy_uncancelled in_step_uncancelled]
    obtain r c2 w2 where h: "send_head_interruptible (uncancelled E) max_head c1 params deadline w1 = Some (r, c2, w2)"
        "T w1 \<le> T w2" "cl_config c2 = cl_config c1" "cl_origin c2 = cl_origin c1"
      and cs: "case r of Inl _ \<Rightarrow> tidy c2 w2 | Inr parts \<Rightarrow> cl_dirty c2 \<and> (\<exists>w0. in_step incoming outgoing E w0
            \<and> head_answer incoming outgoing max_head c1 params w0 parts c2 w2)"
      by blast
    show ?thesis
    proof (cases r)
      case (Inl e)
      then show ?thesis using k kr h e1 cs by (auto simp: send_one_def)
    next
      case (Inr parts)
      obtain hdata framing off where parts: "parts = (hdata, framing, off)" by (cases parts)
      obtain w0 where w0: "in_step incoming outgoing E w0" and d2: "cl_dirty c2"
        and ha: "head_answer incoming outgoing max_head c1 params w0 (hdata, framing, off) c2 w2"
        using cs Inr parts by auto
      obtain q w3 where q: "rd_check E deadline w2 = (q, w3)" by (cases "rd_check E deadline w2")
      note st3 = rd_check_still [OF q]
      have ha3: "head_answer incoming outgoing max_head c1 params w0 (hdata, framing, off) c2 w3"
        using ha st3 by (simp add: head_answer_def)
      show ?thesis
      proof (cases q)
        case (Inl e)
        then show ?thesis using k kr h e1 Inr parts q st3 d2 by (auto simp: send_one_def clean_in_step_def Let_def)
      next
        case qr: (Inr v)
        obtain b c4 w4 where b: "read_full_body E c2 framing off deadline w3 = Some (b, c4, w4)" "T w3 \<le> T w4"
            "outgoing w4 = outgoing w3" "c4 = mark_reusable c2 \<or> c4 = discard_partial_response c2"
          and bc: "case b of Inl _ \<Rightarrow> cl_dirty c4
            | Inr body \<Rightarrow> length body \<le> max_response_body (cl_config c2)
              \<and> (\<exists>left. framed_body framing (drop off (cl_head_buf c2) @ incoming w3) = Some (body, left @ incoming w4)
                 \<and> (\<not> cl_dirty c4 \<longrightarrow> left = [] \<and> framing \<noteq> UntilClose))"
          using read_full_body_returns [of c2 framing off deadline w3] by blast
        have c4: "cl_config c4 = cl_config c" "cl_origin c4 = cl_origin c"
          using b(4) h e1 by (auto simp: mark_reusable_def discard_partial_response_def)
        have tm: "T w \<le> T w4" using e1 h st3 b by linarith
        show ?thesis
        proof (cases b)
          case (Inl e)
          then have "send_one E max_head c params deadline w = Some (Inl e, c4, w4)"
            using k kr h(1) Inr parts q qr b(1) by (simp add: send_one_def Let_def)
          then show ?thesis using c4 tm bc Inl by (auto simp: clean_in_step_def)
        next
          case br: (Inr body)
          let ?c5 = "if is_keep (connection_reuse hdata (requests_close params)) then c4 else discard_partial_response c4"
          let ?resp = "\<lparr> rsp_version = hd_version hdata, rsp_status = hd_status hdata, rsp_head = hdata, rsp_body = BodyReader_new body \<rparr>"
          have eq: "send_one E max_head c params deadline w = Some (Inr ?resp, ?c5, w4)"
            using k kr h(1) Inr parts q qr b(1) br by (simp add: send_one_def Let_def)
          obtain left where left: "framed_body framing (drop off (cl_head_buf c2) @ incoming w3) = Some (body, left @ incoming w4)"
            "\<not> cl_dirty c4 \<longrightarrow> left = [] \<and> framing \<noteq> UntilClose" "length body \<le> max_response_body (cl_config c)"
            using bc br h e1 by auto
          have "tidy ?c5 w4"
            using left settle [OF ha3 w0, of body w4] b(3)
            by (auto simp: clean_in_step_def discard_partial_response_def split: if_splits)
          moreover have "answers max_head (max_response_body (cl_config c)) (rp_method params) (incoming w0) ?resp"
            by (rule head_answer_split [OF ha3]) (use left in \<open>fastforce simp: answers_def BodyReader_new_def\<close>)
          moreover have "cl_config ?c5 = cl_config c" "cl_origin ?c5 = cl_origin c"
            using c4 by (auto simp: discard_partial_response_def)
          ultimately show ?thesis using eq tm w0 by auto
        qed
      qed
    qed
  qed
qed

end

section \<open>Following redirects\<close>

context network
begin

lemma rd_after_still:
  "rd_after E b w = (d, w1) \<Longrightarrow> T w \<le> T w1 \<and> incoming w1 = incoming w \<and> outgoing w1 = outgoing w"
  using clock_still clock_time by (auto simp: rd_after_def split: option.splits prod.splits) (metis order_trans)

text \<open>What \<open>execute\<close> gives: \<open>o0\<close> and \<open>s0\<close> are the origin and the request it started with.\<close>

definition executed :: "usize \<Rightarrow> Client \<Rightarrow> Origin \<Rightarrow> RedirectState \<Rightarrow> (Error + Response) \<Rightarrow> Client \<Rightarrow> 'w \<Rightarrow> bool" where
  "executed max_head c o0 s0 r c' w1 \<longleftrightarrow> cl_config c' = cl_config c \<and> tidy c' w1
     \<and> (\<not> allow_cross_origin_redirects (cl_config c) \<longrightarrow> cl_origin c' = cl_origin c)
     \<and> (\<forall>resp. r = Inr resp \<longrightarrow> (\<exists>st w0. hops (o0, s0) (cl_origin c', st) \<and> in_step incoming outgoing E w0
          \<and> answers max_head (max_response_body (cl_config c)) (rs_method st) (incoming w0) resp
          \<and> location_to_follow (rsp_status resp) (hd_headers (rsp_head resp)) = None))"

lemma executed_error: "cl_config c' = cl_config c \<Longrightarrow> cl_origin c' = cl_origin c \<Longrightarrow> tidy c' w1 \<Longrightarrow>
    executed max_head c o0 s0 (Inl e) c' w1"
  by (simp add: executed_def)

lemma to_params_method [simp]: "rp_method (to_params st) = rs_method st"
  by (simp add: to_params_def)

lemma execute_loop_returns:
  assumes "tidy c w" "hops (o0, s0) (cl_origin c, st)"
  shows "\<exists>r c' w1. execute_loop E max_head deadline hl st c w = Some (r, c', w1) \<and> T w \<le> T w1
     \<and> executed max_head c o0 s0 r c' w1 \<and> (hl = 0 \<longrightarrow> cl_origin c' = cl_origin c)"
  using assms
proof (induction "unat hl" arbitrary: hl st c w rule: less_induct)
  case less
  obtain r c1 w1 where s: "send_one E max_head c (to_params st) deadline w = Some (r, c1, w1)" "T w \<le> T w1"
      "cl_config c1 = cl_config c" "cl_origin c1 = cl_origin c" "tidy c1 w1"
    and ans: "\<forall>resp. r = Inr resp \<longrightarrow> (\<exists>w0. in_step incoming outgoing E w0
          \<and> answers max_head (max_response_body (cl_config c)) (rs_method st) (incoming w0) resp)"
    using send_one_returns [OF less.prems(1), of max_head "to_params st" deadline] by auto
  have ends: ?case if "execute_loop E max_head deadline hl st c w = Some (Inl e, c1, w1)" for e
    using that s executed_error by blast
  show ?case
  proof (cases "\<exists>resp loc. r = Inr resp \<and> location_to_follow (rsp_status resp) (hd_headers (rsp_head resp)) = Some loc \<and> hl \<noteq> 0")
    case False
    show ?thesis
    proof (cases "\<exists>resp. r = Inr resp \<and> location_to_follow (rsp_status resp) (hd_headers (rsp_head resp)) = None")
      case True
      then obtain resp where r: "r = Inr resp" "location_to_follow (rsp_status resp) (hd_headers (rsp_head resp)) = None" by blast
      then have "execute_loop E max_head deadline hl st c w = Some (Inr resp, c1, w1)"
        using s(1) by (subst execute_loop.simps) simp
      moreover have "executed max_head c o0 s0 (Inr resp) c1 w1"
        using s ans r less.prems(2) by (auto simp: executed_def)
      ultimately show ?thesis using s by auto
    next
      case no: False
      then have "\<exists>e. execute_loop E max_head deadline hl st c w = Some (Inl e, c1, w1)"
        using False s(1) by (subst execute_loop.simps) (auto split: sum.splits option.splits)
      then show ?thesis using ends by blast
    qed
  next
    case True
    then obtain resp loc where r: "r = Inr resp" "location_to_follow (rsp_status resp) (hd_headers (rsp_head resp)) = Some loc"
      and hl: "hl \<noteq> 0" by blast
    obtain st' hop where adv: "advance st (cl_origin c1) (rsp_status resp) loc = (st', hop)"
      by (cases "advance st (cl_origin c1) (rsp_status resp) loc")
    have lt: "unat (hl - 1) < unat hl" using hl by (rule measure_unat)
    have again: ?thesis if eq: "execute_loop E max_head deadline hl st c w = execute_loop E max_head deadline (hl - 1) st' c2 w2"
        and t: "T w1 \<le> T w2" "tidy c2 w2" "hops (o0, s0) (cl_origin c2, st')" "cl_config c2 = cl_config c"
        and orig: "allow_cross_origin_redirects (cl_config c) \<or> cl_origin c2 = cl_origin c" for c2 w2
    proof -
      from less.hyps [OF lt t(2,3)] obtain r' c' w' where
        i: "execute_loop E max_head deadline (hl - 1) st' c2 w2 = Some (r', c', w')" "T w2 \<le> T w'"
          "executed max_head c2 o0 s0 r' c' w'" by blast
      have "executed max_head c o0 s0 r' c' w'" using i(3) t(4) orig by (auto simp: executed_def)
      moreover have "T w \<le> T w'" using s(2) t(1) i(2) by linarith
      ultimately show ?thesis using eq i(1) hl by auto
    qed
    consider e where "hop = Inl e" | "hop = Inr SameOrigin"
      | target where "hop = Inr (Reconnect target)" "\<not> allow_cross_origin_redirects (cl_config c)"
      | target e where "hop = Inr (Reconnect target)" "allow_cross_origin_redirects (cl_config c)" "Url_parse target = Inl e"
      | target u where "hop = Inr (Reconnect target)" "allow_cross_origin_redirects (cl_config c)" "Url_parse target = Inr u"
      by (metis Hop.exhaust sum.exhaust)
    then show ?thesis
    proof cases
      case (1 e)
      then show ?thesis using s r hl adv by (intro ends [of e]) (subst execute_loop.simps, simp)
    next
      case 2
      have "execute_loop E max_head deadline hl st c w = execute_loop E max_head deadline (hl - 1) st' c1 w1"
        using s r hl adv 2 by (subst execute_loop.simps) simp
      then show ?thesis using s hops_same [OF less.prems(2) r(2), of st'] adv 2 by (intro again [of c1 w1]) simp_all
    next
      case (3 target)
      then show ?thesis using s r hl adv
        by (intro ends [of "Connection CrossOriginRedirectRefused"]) (subst execute_loop.simps, simp)
    next
      case (4 target e)
      then show ?thesis using s r hl adv by (intro ends [of e]) (subst execute_loop.simps, simp)
    next
      case (5 target u)
      obtain q c2 w2 where q: "reconnect_with_deadline E c1 u deadline w1 = (q, c2, w2)"
        by (cases "reconnect_with_deadline E c1 u deadline w1")
      note rc = reconnect_result [OF q]
      have h: "hops (o0, s0) (from_url u, st')"
        using hops_reconnect [OF less.prems(2) r(2) _ 5(3)] adv 5(1) s(4) by simp
      show ?thesis
      proof (cases q)
        case (Inl e)
        then have "execute_loop E max_head deadline hl st c w = Some (Inl e, c2, w2)"
          using s r hl adv 5 q by (subst execute_loop.simps) simp
        moreover have "executed max_head c o0 s0 (Inl e) c2 w2" using rc s 5(2) by (simp add: executed_def)
        ultimately show ?thesis using s(2) rc hl by auto
      next
        case (Inr v)
        then have "execute_loop E max_head deadline hl st c w = execute_loop E max_head deadline (hl - 1) st' c2 w2"
          using s r hl adv 5 q by (subst execute_loop.simps) simp
        then show ?thesis using rc s Inr h 5(2) by (intro again [of c2 w2]) simp_all
      qed
    qed
  qed
qed

lemma execute_returns:
  assumes "tidy c w"
  shows "\<exists>r c' w1. execute E max_head c params w = Some (r, c', w1)
     \<and> executed max_head c (cl_origin c) (RedirectState_new params) r c' w1
     \<and> (max_redirects (cl_config c) = 0 \<longrightarrow> cl_origin c' = cl_origin c)"
proof -
  obtain d w1 where d: "rd_after E (request_deadline (cl_config c)) w = (d, w1)"
    by (cases "rd_after E (request_deadline (cl_config c)) w")
  have "tidy c w1" using assms rd_after_still [OF d] by (auto simp: clean_in_step_def intro: in_step_cong)
  from execute_loop_returns [OF this hops_refl, of max_head d "max_redirects (cl_config c)"] show ?thesis
    by (fastforce simp: execute_def d)
qed

section \<open>Streaming\<close>

text \<open>A body that was opened by \<open>execute_streaming\<close>: once it is read to its end, the connection is in step.\<close>

definition stream_open :: "StreamingBody \<Rightarrow> 'w \<Rightarrow> bool" where
  "stream_open body w \<longleftrightarrow> (\<exists>framing stream reusable. body_inv reusable framing stream [] (unread body @ incoming w) body
     \<and> (\<forall>w2 b. framed_body framing stream = Some (b, incoming w2) \<longrightarrow> framing \<noteq> UntilClose \<longrightarrow> outgoing w2 = outgoing w
          \<longrightarrow> in_step incoming outgoing E w2))"

lemma execute_streaming_returns:
  assumes "tidy c w"
  shows "\<exists>r c' w1. execute_streaming E max_head c params w = Some (r, c', w1) \<and> cl_config c' = cl_config c
     \<and> cl_origin c' = cl_origin c
     \<and> (case r of Inl _ \<Rightarrow> tidy c' w1 | Inr (hdata, body) \<Rightarrow> cl_dirty c' \<and> stream_open body w1)"
proof -
  obtain d w1 where d: "rd_after E (request_deadline (cl_config c)) w = (d, w1)"
    by (cases "rd_after E (request_deadline (cl_config c)) w")
  have t: "tidy c w1" using assms rd_after_still [OF d] by (auto simp: clean_in_step_def intro: in_step_cong)
  obtain k c2 w2 where k: "ensure_clean_with_deadline E c d w1 = (k, c2, w2)"
    by (cases "ensure_clean_with_deadline E c d w1")
  note e1 = ensure_clean_result [OF k t]
  show ?thesis
  proof (cases k)
    case (Inl e)
    then show ?thesis using d k e1 by (auto simp: execute_streaming_def clean_in_step_def)
  next
    case kr: (Inr u)
    then have "in_step incoming outgoing (uncancelled E) w2" using e1 by simp
    from network.send_head_interruptible_returns [OF uncancelled_network this, of max_head c2 params d,
        unfolded tidy_uncancelled in_step_uncancelled]
    obtain r c3 w3 where h: "send_head_interruptible (uncancelled E) max_head c2 params d w2 = Some (r, c3, w3)"
        "cl_config c3 = cl_config c2" "cl_origin c3 = cl_origin c2"
      and cs: "case r of Inl _ \<Rightarrow> tidy c3 w3 | Inr parts \<Rightarrow> cl_dirty c3 \<and> (\<exists>w0. in_step incoming outgoing E w0
            \<and> head_answer incoming outgoing max_head c2 params w0 parts c3 w3)"
      by blast
    show ?thesis
    proof (cases r)
      case (Inl e)
      then show ?thesis using d k kr h e1 cs by (auto simp: execute_streaming_def)
    next
      case (Inr parts)
      obtain hdata framing off where parts: "parts = (hdata, framing, off)" by (cases parts)
      obtain w0 where w0: "in_step incoming outgoing E w0"
        and ha: "head_answer incoming outgoing max_head c2 params w0 (hdata, framing, off) c3 w3"
        using cs Inr parts by auto
      let ?keep = "is_keep (connection_reuse hdata (requests_close params))"
      let ?tail = "drop off (cl_head_buf c3)"
      obtain body w4 where b: "st_new E True framing ?tail (stream_silence (cl_config c3)) ?keep w3 = (body, w4)"
        by (cases "st_new E True framing ?tail (stream_silence (cl_config c3)) ?keep w3")
      have st4: "incoming w4 = incoming w3" "outgoing w4 = outgoing w3"
        using b clock_still [of w3] by (cases "clock E w3"; auto simp: st_new_def sb_new_def sb_with_deadline_def Let_def)+
      have ha4: "head_answer incoming outgoing max_head c2 params w0 (hdata, framing, off) c3 w4"
        using ha st4 by (simp add: head_answer_def)
      have "stream_open body w4"
        unfolding stream_open_def
        using body_inv_new(1) [OF b, of "incoming w4"] body_inv_new(2) [OF b] settle [OF ha4 w0]
        by (intro exI [of _ framing] exI [of _ "?tail @ incoming w4"] exI [of _ ?keep]) auto
      moreover have "execute_streaming E max_head c params w = Some (Inr (hdata, body), c3\<lparr> cl_dirty := True \<rparr>, w4)"
        using d k kr h(1) Inr parts b by (simp add: execute_streaming_def Let_def)
      ultimately show ?thesis using h e1 by auto
    qed
  qed
qed

lemma streamed_tidy:
  assumes "stream_open body w" "st_reads E body w out body' w2"
  shows "tidy (st_drop c body') w2"
proof -
  obtain framing stream reusable where inv: "body_inv reusable framing stream [] (unread body @ incoming w) body"
    and next': "\<forall>w2 b. framed_body framing stream = Some (b, incoming w2) \<longrightarrow> framing \<noteq> UntilClose \<longrightarrow> outgoing w2 = outgoing w
          \<longrightarrow> in_step incoming outgoing E w2"
    using assms(1) unfolding stream_open_def by blast
  have i2: "body_inv reusable framing stream out (unread body' @ incoming w2) body'" "outgoing w2 = outgoing w"
    using st_reads_inv [OF assms(2) inv] by auto
  have "in_step incoming outgoing E w2" if "\<not> st_dirty body'"
  proof -
    have "st_state body' = SDone" "unread body' = []" "framing \<noteq> UntilClose" using i2(1) that by (auto simp: body_inv_def)
    then have "framed_body framing stream = Some (out, incoming w2)" using i2(1) by (simp add: body_inv_def)
    then show ?thesis using next' i2(2) \<open>framing \<noteq> UntilClose\<close> by blast
  qed
  then show ?thesis by (simp add: clean_in_step_def st_drop_def)
qed

lemma failed_stream_dirty:
  assumes "stream_open body w" "st_reads E body w out body' w2" "st_read E body' buf w2 = Some (Inl e, buf', body'', w3)"
  shows "st_dirty body''"
proof -
  obtain framing stream reusable where inv: "body_inv reusable framing stream [] (unread body @ incoming w) body"
    using assms(1) unfolding stream_open_def by blast
  have "body_inv reusable framing stream out (unread body' @ incoming w2) body'"
    using st_reads_inv [OF assms(2) inv] by auto
  moreover have "buf \<noteq> []" using assms(3) by (auto simp: st_read_def)
  ultimately show ?thesis using st_read_returns [of reusable framing stream out body' w2 buf] assms(3)
    by (auto simp: read_ok_def)
qed

end

section \<open>Properties\<close>

text \<open>
  The life of a client: connected, then any sequence of requests, buffered or streamed, with any
  outcome. A streamed body is read as far as the caller likes, possibly until a read fails, and
  then dropped.
\<close>

inductive client_run :: "'w env \<Rightarrow> usize \<Rightarrow> Client \<Rightarrow> 'w \<Rightarrow> bool" for E max_head where
  connected: "Client_connect E url config w = (Inr c, w1) \<Longrightarrow> client_run E max_head c w1"
| buffered: "client_run E max_head c w \<Longrightarrow> execute E max_head c params w = Some (r, c', w1) \<Longrightarrow> client_run E max_head c' w1"
| refused: "client_run E max_head c w \<Longrightarrow> execute_streaming E max_head c params w = Some (Inl e, c', w1)
     \<Longrightarrow> client_run E max_head c' w1"
| streamed: "client_run E max_head c w \<Longrightarrow> execute_streaming E max_head c params w = Some (Inr (hdata, body), c', w1)
     \<Longrightarrow> st_reads E body w1 out body' w2 \<Longrightarrow> client_run E max_head (st_drop c' body') w2"
| stream_failed: "client_run E max_head c w \<Longrightarrow> execute_streaming E max_head c params w = Some (Inr (hdata, body), c', w1)
     \<Longrightarrow> st_reads E body w1 out body' w2 \<Longrightarrow> st_read E body' buf w2 = Some (Inl e, buf', body'', w3)
     \<Longrightarrow> client_run E max_head (st_drop c' body'') w3"

context network
begin

lemma connect_in_step:
  assumes "Client_connect E url config w = (Inr c, w1)"
  shows "in_step incoming outgoing E w1 \<and> \<not> cl_dirty c"
proof -
  obtain u where u: "Config_validate config = Inr ()" "Url_parse url = Inr u"
    using assms by (auto simp: Client_connect_def split: sum.splits)
  obtain d w2 where d: "connect_deadline E config w = (d, w2)" by (cases "connect_deadline E config w")
  obtain q w3 where q: "dial E w2 u d = (q, w3)" by (cases "dial E w2 u d")
  let ?c = "\<lparr> cl_config = config, cl_origin = from_url u, cl_write_buf = [], cl_head_buf = [], cl_dirty = False \<rparr>"
  obtain a w4 where a: "apply_timeouts E ?c w3 = (a, w4)" by (cases "apply_timeouts E ?c w3")
  have "\<exists>v. q = Inr v" "c = ?c" "w1 = w4"
    using assms u d q a by (auto simp: Client_connect_def Let_def split: sum.splits)
  moreover then have "opened E w3" using q unfolding opened_def by blast
  ultimately show ?thesis using apply_timeouts_still [OF a] by (auto intro: in_step_opened)
qed

lemma client_run_tidy: "client_run E max_head c w \<Longrightarrow> tidy c w"
proof (induction rule: client_run.induct)
  case (connected url config w c w1)
  then show ?case using connect_in_step by (simp add: clean_in_step_def)
next
  case (buffered c w params r c' w1)
  then show ?case using execute_returns [of c w max_head params] by (auto simp: executed_def)
next
  case (refused c w params e c' w1)
  then show ?case using execute_streaming_returns [of c w max_head params] by auto
next
  case (streamed c w params hdata body c' w1 out body' w2)
  then have "stream_open body w1" using execute_streaming_returns [of c w max_head params] by auto
  then show ?case using streamed_tidy streamed.hyps by blast
next
  case (stream_failed c w params hdata body c' w1 out body' w2 buf e buf' body'' w3)
  then have "stream_open body w1" using execute_streaming_returns [of c w max_head params] by auto
  then show ?case using failed_stream_dirty stream_failed.hyps by (auto simp: clean_in_step_def st_drop_def)
qed

end


definition sample_url :: bytes where
  "sample_url = bs ''http://a/''"

lemma sample_connect:
  "\<exists>c w1. Client_connect scripted sample_url Config_default (sample_world []) = (Inr c, w1) \<and> \<not> cl_dirty c \<and> sw_sent w1 = []"
proof -
  have u: "Url_parse sample_url = Inr \<lparr> url_scheme = Http, url_host = bs ''a'', url_port = None, url_path = bs ''/'',
      url_query = None, url_fragment = None \<rparr>" unfolding sample_url_def by code_simp
  show ?thesis
    by (simp add: Client_connect_def u Config_default_ok apply_timeouts_def connect_deadline_def Deadline_after_def
        scripted_def sample_world_def split: option.splits)
qed




end
