(* ===== verification/Reader.thy ===== *)
theory Reader
  imports Control Frame Client_Session
begin

text \<open>
  \<^verbatim>\<open>xibalba-client/src/reader.rs\<close>: the thread that owns the connection and serves the requests of
  the control queue one at a time, delivering each response as chunks. A worker is its client,
  its queue and the world. While a request is on the wire the client's interrupt is the latch
  over the control queue: the client's operations then run in \<open>reader_env\<close>, whose world is that
  latch, with the reader's world inside.
\<close>

section \<open>Definitions\<close>

definition on_world :: "('w \<Rightarrow> 'r \<times> 'w) \<Rightarrow> 'w ControlInterrupt Latch \<Rightarrow> 'r \<times> 'w ControlInterrupt Latch" where
  "on_world f l =
     (let (r, w) = f (ci_world (latch_inner l)) in (r, l\<lparr> latch_inner := (latch_inner l)\<lparr> ci_world := w \<rparr> \<rparr>))"

definition reader_env :: "'w aenv \<Rightarrow> 'w ControlInterrupt Latch env" where
  "reader_env A =
     \<lparr> rd = (\<lambda>l n. on_world (\<lambda>w. rd (net A) w n) l), wr = (\<lambda>l x. on_world (\<lambda>w. wr (net A) w x) l),
       fl = on_world (fl (net A)), clock = on_world (clock (net A)),
       sleep = (\<lambda>l d. snd (on_world (\<lambda>w. ((), sleep (net A) w d)) l)),
       intr = Latch_is_cancelled (ci_is_cancelled A),
       dial = (\<lambda>l u d. on_world (\<lambda>w. dial (net A) w u d) l),
       set_read_timeout = (\<lambda>l d. on_world (\<lambda>w. set_read_timeout (net A) w d) l),
       set_write_timeout = (\<lambda>l d. on_world (\<lambda>w. set_write_timeout (net A) w d) l),
       instant_max = instant_max (net A), fmt_duration = fmt_duration (net A), buf_addr = buf_addr (net A) \<rparr>"

record ResponseStart =
  start_head :: HeadData
  start_framing :: BodyFraming
  start_tail_offset :: usize

definition request_params :: "AsyncRequest \<Rightarrow> RequestParams" where
  "request_params request =
     \<lparr> rp_method = ar_method request, rp_path = ar_path request, rp_query = ar_query request,
       rp_body = ar_body request, rp_extra_headers = ar_headers request,
       rp_allow_replay = is_replay_eligible (ar_method request) \<rparr>"

text \<open>A worker: \<open>(client, queue)\<close> and the world. \<open>finish\<close> sends the terminator and gives up.\<close>

definition dispatch_terminal ::
  "'w aenv \<Rightarrow> ticket \<Rightarrow> Chunk \<Rightarrow> Client \<Rightarrow> ControlQueue \<Rightarrow> 'w \<Rightarrow> (ResponseStart option \<times> Client \<times> ControlQueue \<times> 'w) option" where
  "dispatch_terminal A tk chunk client queue w = map_option (\<lambda>w. (None, client, queue, w)) (send_terminal A tk chunk w)"

definition dispatch ::
  "'w aenv \<Rightarrow> usize \<Rightarrow> Client \<Rightarrow> ControlQueue \<Rightarrow> AsyncRequest \<Rightarrow> RequestDeadline \<Rightarrow> 'w
   \<Rightarrow> (ResponseStart option \<times> Client \<times> ControlQueue \<times> 'w) option" where
  "dispatch A max_head client queue request deadline w =
     (let tk = ar_ticket request in
      Option.bind (poll_cancel A queue (Some tk) w) (\<lambda>(cancelled, queue, w).
        if cancelled then dispatch_terminal A tk Aborted client queue w
        else case (if cl_dirty client then ensure_clean (net A) client w else (Inr (), client, w)) of
          (Inl e, client, w) \<Rightarrow> dispatch_terminal A tk (ErrorChunk e) client queue w
        | (Inr _, client, w) \<Rightarrow>
            (let w = store_started A tk w;
                 interrupt = Latch_new (ControlInterrupt_new queue tk w) in
             Option.bind (send_head_interruptible (reader_env A) max_head client (request_params request) deadline interrupt)
               (\<lambda>(sent, client, interrupt).
                 let fired = latch_fired interrupt;
                     queue = ci_queue (latch_inner interrupt);
                     w = ci_world (latch_inner interrupt) in
                 case sent of
                   Inr (head_data, framing, tail_offset) \<Rightarrow>
                     Some (Some \<lparr> start_head = head_data, start_framing = framing, start_tail_offset = tail_offset \<rparr>,
                           client, queue, w)
                 | Inl e \<Rightarrow>
                     if fired then dispatch_terminal A tk Aborted client queue w
                     else dispatch_terminal A tk (ErrorChunk e) client queue w))))"

text \<open>While the interrupt holds the queue, a sink still works on the world inside.\<close>

definition latch_send :: "'w aenv \<Rightarrow> ticket \<Rightarrow> Chunk \<Rightarrow> 'w ControlInterrupt Latch \<Rightarrow> ((Undelivered + unit) \<times> 'w ControlInterrupt Latch) option" where
  "latch_send A tk chunk l =
     map_option (\<lambda>(r, w). (r, l\<lparr> latch_inner := (latch_inner l)\<lparr> ci_world := w \<rparr> \<rparr>)) (sink_send A tk chunk (ci_world (latch_inner l)))"

definition latch_terminal :: "'w aenv \<Rightarrow> ticket \<Rightarrow> Chunk \<Rightarrow> 'w ControlInterrupt Latch \<Rightarrow> 'w ControlInterrupt Latch option" where
  "latch_terminal A tk chunk l =
     map_option (\<lambda>w. l\<lparr> latch_inner := (latch_inner l)\<lparr> ci_world := w \<rparr> \<rparr>) (send_terminal A tk chunk (ci_world (latch_inner l)))"

definition drain_error_body ::
  "'w aenv \<Rightarrow> Client \<Rightarrow> ticket \<Rightarrow> BodyFraming \<Rightarrow> bytes \<Rightarrow> RequestDeadline \<Rightarrow> ConnectionReuse \<Rightarrow> 'w ControlInterrupt Latch
   \<Rightarrow> (Client \<times> 'w ControlInterrupt Latch) option" where
  "drain_error_body A client tk framing tail deadline reuse l =
     (let (collector, l) = bc_with_deadline (reader_env A) (max_response_body (cl_config client))
                             (stream_silence (cl_config client)) deadline l in
      Option.bind (bc_read (interruptible (reader_env A)) collector framing tail l) (\<lambda>(collected, collector, l).
        case collected of
          Inr data \<Rightarrow>
            (let client = client\<lparr> cl_dirty := \<not> bc_reusable collector \<or> \<not> is_keep reuse \<rparr>;
                 eof = (\<lambda>l. map_option (\<lambda>l. (client, l)) (latch_terminal A tk Eof l)) in
             if data \<noteq> [] then
               Option.bind (latch_send A tk (BodyChunk data) l) (\<lambda>(r, l).
                 case r of Inl _ \<Rightarrow> Some (client, l) | Inr _ \<Rightarrow> eof l)
             else eof l)
        | Inl error' \<Rightarrow>
            if latch_fired l then map_option (\<lambda>l. (client, l)) (latch_terminal A tk Aborted l)
            else map_option (\<lambda>l. (client, l)) (latch_terminal A tk (ErrorChunk error') l)))"

partial_function (option) success_loop ::
  "'w aenv \<Rightarrow> ticket \<Rightarrow> StreamingBody \<Rightarrow> bytes \<Rightarrow> 'w ControlInterrupt Latch
   \<Rightarrow> (StreamingBody \<times> 'w ControlInterrupt Latch) option" where
  "success_loop A tk body buf l =
     Option.bind (st_read (interruptible (reader_env A)) body buf l) (\<lambda>(r, buf, body, l).
       case r of
         Inr n \<Rightarrow>
           if n = 0 then map_option (\<lambda>l. (body, l)) (latch_terminal A tk Eof l)
           else
             Option.bind (latch_send A tk (BodyChunk (take n buf)) l) (\<lambda>(r, l).
               case r of Inl _ \<Rightarrow> Some (body, l) | Inr _ \<Rightarrow> success_loop A tk body buf l)
       | Inl e \<Rightarrow>
           if Cancelled_marks e then map_option (\<lambda>l. (body, l)) (latch_terminal A tk Aborted l)
           else map_option (\<lambda>l. (body, l)) (latch_terminal A tk (ErrorChunk (error_from_io e)) l))"

definition stream_success ::
  "'w aenv \<Rightarrow> Client \<Rightarrow> ticket \<Rightarrow> BodyFraming \<Rightarrow> bytes \<Rightarrow> ConnectionReuse \<Rightarrow> 'w ControlInterrupt Latch
   \<Rightarrow> (Client \<times> 'w ControlInterrupt Latch) option" where
  "stream_success A client tk framing tail reuse l =
     (let (body, l) = st_new (reader_env A) (cl_dirty client) framing tail (stream_silence (cl_config client)) (is_keep reuse) l in
      map_option (\<lambda>(body, l). (st_drop client body, l)) (success_loop A tk body (replicate HEAD_BUF_SIZE 0) l))"

definition stream_body ::
  "'w aenv \<Rightarrow> Client \<Rightarrow> ControlQueue \<Rightarrow> AsyncRequest \<Rightarrow> ResponseStart \<Rightarrow> RequestDeadline \<Rightarrow> 'w
   \<Rightarrow> (Client \<times> ControlQueue \<times> 'w) option" where
  "stream_body A client queue request start deadline w =
     (let tk = ar_ticket request;
          head_data = start_head start;
          status' = as_u16 (hd_status head_data);
          reuse = connection_reuse head_data (requests_close (request_params request));
          client = client\<lparr> cl_dirty := True \<rparr> in
      Option.bind (sink_send A tk (HeadChunk status' (hd_headers head_data)) w) (\<lambda>(r, w).
        case r of
          Inl _ \<Rightarrow> Some (client, queue, w)
        | Inr _ \<Rightarrow>
            (let interrupt = Latch_new (ControlInterrupt_new queue tk w);
                 tail = drop (start_tail_offset start) (cl_head_buf client) in
             map_option (\<lambda>(client, l). (client, ci_queue (latch_inner l), ci_world (latch_inner l)))
               (if 200 \<le> status' \<and> status' < 300
                then stream_success A client tk (start_framing start) tail reuse interrupt
                else drain_error_body A client tk (start_framing start) tail deadline reuse interrupt))))"

definition serve ::
  "'w aenv \<Rightarrow> usize \<Rightarrow> Client \<Rightarrow> ControlQueue \<Rightarrow> AsyncRequest \<Rightarrow> 'w \<Rightarrow> (Client \<times> ControlQueue \<times> 'w) option" where
  "serve A max_head client queue request w =
     (let (deadline, w) = rd_after (net A) (request_deadline (cl_config client)) w in
      Option.bind (dispatch A max_head client queue request deadline w) (\<lambda>(start, client, queue, w).
        case start of
          None \<Rightarrow> Some (client, queue, w)
        | Some start \<Rightarrow> stream_body A client queue request start deadline w))"

partial_function (option) reader_run ::
  "'w aenv \<Rightarrow> usize \<Rightarrow> Client \<Rightarrow> ControlQueue \<Rightarrow> 'w \<Rightarrow> (Client \<times> ControlQueue \<times> 'w) option" where
  "reader_run A max_head client queue w =
     Option.bind (next_request A queue w) (\<lambda>(request, queue, w).
       case request of
         None \<Rightarrow> Some (client, queue, w)
       | Some request \<Rightarrow>
           Option.bind (serve A max_head client queue request w) (\<lambda>(client, queue, w).
             reader_run A max_head client queue (drop_request A (ar_ticket request) w)))"

section \<open>The reader's environment\<close>

text \<open>
  The reader's world: the rings and the network, where using the connection neither pushes nor
  pops.
\<close>

definition kept :: "('w \<Rightarrow> ticket \<Rightarrow> Chunk list) \<Rightarrow> ('w \<Rightarrow> Control list) \<Rightarrow> ('w \<Rightarrow> nat) \<Rightarrow> 'w \<Rightarrow> 'w \<Rightarrow> bool" where
  "kept del tak spl w w1 \<longleftrightarrow> del w1 = del w \<and> tak w1 = tak w \<and> spl w1 \<le> spl w"

locale async_world = rings A T incoming outgoing delivered taken stock patience
    + network "net A" T incoming outgoing
    + hold: steady "net A" "kept delivered taken stock"
  for A :: "'w aenv" and T incoming outgoing delivered taken stock patience

interpretation scripted_async: async_world ascripted aw_now aw_incoming aw_sent aw_rings aw_taken aw_stock aw_busy
proof unfold_locales
qed (auto simp: kept_def ascripted_def lifted_net_def on_net_def scripted_def sw_rd_def sw_incoming_def Let_def min_def
    split: prod.splits if_splits list.splits sevent.splits)

abbreviation inner :: "'w ControlInterrupt Latch \<Rightarrow> 'w" where
  "inner l \<equiv> ci_world (latch_inner l)"

abbreviation queue_of :: "'w ControlInterrupt Latch \<Rightarrow> ControlQueue" where
  "queue_of l \<equiv> ci_queue (latch_inner l)"

abbreviation ticket_of :: "'w ControlInterrupt Latch \<Rightarrow> ticket" where
  "ticket_of l \<equiv> ci_ticket (latch_inner l)"

lemma on_worldE:
  assumes "on_world f l = (r, l1)"
  obtains w1 where "f (inner l) = (r, w1)" "inner l1 = w1" "queue_of l1 = queue_of l" "ticket_of l1 = ticket_of l"
  using assms by (cases "f (inner l)") (auto simp: on_world_def)

lemma reader_env_sel:
  "rd (reader_env A) = (\<lambda>l n. on_world (\<lambda>w. rd (net A) w n) l)"
  "wr (reader_env A) = (\<lambda>l x. on_world (\<lambda>w. wr (net A) w x) l)"
  "fl (reader_env A) = on_world (fl (net A))"
  "clock (reader_env A) = on_world (clock (net A))"
  "sleep (reader_env A) = (\<lambda>l d. snd (on_world (\<lambda>w. ((), sleep (net A) w d)) l))"
  "intr (reader_env A) = Latch_is_cancelled (ci_is_cancelled A)"
  "dial (reader_env A) = (\<lambda>l u d. on_world (\<lambda>w. dial (net A) w u d) l)"
  "set_read_timeout (reader_env A) = (\<lambda>l d. on_world (\<lambda>w. set_read_timeout (net A) w d) l)"
  "set_write_timeout (reader_env A) = (\<lambda>l d. on_world (\<lambda>w. set_write_timeout (net A) w d) l)"
  by (simp_all add: reader_env_def)

context async_world
begin

definition latch_rel :: "'w ControlInterrupt Latch \<Rightarrow> 'w ControlInterrupt Latch \<Rightarrow> bool" where
  "latch_rel l l1 \<longleftrightarrow> ticket_of l1 = ticket_of l
     \<and> (\<exists>ms. moved (Some (ticket_of l)) (queue_of l) (inner l) ms (queue_of l1) (inner l1))"

lemma latch_rel_refl: "latch_rel l l"
  unfolding latch_rel_def using quiet_moved [OF calm_refl] by blast

lemma latch_rel_trans: "latch_rel l l1 \<Longrightarrow> latch_rel l1 l2 \<Longrightarrow> latch_rel l l2"
  unfolding latch_rel_def using moved_trans by metis

lemma poll_latched:
  assumes "intr (reader_env A) l = (c, l1)"
  shows "still (inner l) (inner l1)" "latch_rel l l1"
proof -
  obtain b q1 w1 ms where p: "poll_cancel A (queue_of l) (Some (ticket_of l)) (inner l) = Some (b, q1, w1)" "still (inner l) w1"
      "moved (Some (ticket_of l)) (queue_of l) (inner l) ms q1 w1"
    using poll_cancel_returns [OF refl, of "Some (ticket_of l)" False "queue_of l" "inner l"]
    by (auto simp: poll_cancel_def)
  have "l1 = \<lparr> latch_inner = (latch_inner l)\<lparr> ci_queue := q1, ci_world := w1 \<rparr>, latch_fired = latch_fired l \<or> b \<rparr>"
    using assms by (auto simp: reader_env_sel Latch_is_cancelled_def ci_is_cancelled_def p(1) Let_def)
  then have "latch_inner l1 = (latch_inner l)\<lparr> ci_queue := q1, ci_world := w1 \<rparr>" by simp
  then show "still (inner l) (inner l1)" "latch_rel l l1" using p by (auto simp: latch_rel_def)
qed

lemma held_rel:
  assumes "on_world f l = (r, l1)" and "\<And>w1. f (inner l) = (r, w1) \<Longrightarrow> kept delivered taken stock (inner l) w1"
  shows "latch_rel l l1"
  using assms(1)
proof (rule on_worldE)
  fix w1
  assume o: "f (inner l) = (r, w1)" "inner l1 = w1" "queue_of l1 = queue_of l" "ticket_of l1 = ticket_of l"
  from assms(2) [OF o(1)] have "moved (Some (ticket_of l)) (queue_of l) (inner l) [] (queue_of l1) (inner l1)"
    unfolding o(2,3) moved_def kept_def by simp
  with o(4) show ?thesis unfolding latch_rel_def by blast
qed

lemma reader_steady: "steady (reader_env A) latch_rel"
  apply unfold_locales
            apply (rule latch_rel_refl)
           apply (erule (1) latch_rel_trans)
          apply (unfold reader_env_sel)
          apply (erule held_rel, erule hold.R_rd)
         apply (erule held_rel, erule hold.R_wr)
        apply (erule held_rel, erule hold.R_fl)
       apply (erule held_rel, erule hold.R_clock)
  subgoal for l d
    by (rule held_rel [where f = "\<lambda>w. ((), sleep (net A) w d)" and r = "()"])
      (simp add: prod_eq_iff, use hold.R_sleep in simp)
     apply (rule poll_latched(2), simp only: reader_env_sel)
    apply (erule held_rel, erule hold.R_dial)
   apply (erule held_rel, erule hold.R_options)
  apply (erule held_rel, erule hold.R_options)
  done

lemma reader_network: "network (reader_env A) (\<lambda>l. T (inner l)) (\<lambda>l. incoming (inner l)) (\<lambda>l. outgoing (inner l))"
proof -
  note polled = poll_latched(1) [unfolded reader_env_sel still_def]
  show ?thesis
    by unfold_locales
      (use sleep_time sleep_still in \<open>auto simp: reader_env_sel on_world_def Let_def
         dest: rd_time wr_time fl_time clock_time clock_still src.source_data src.source_err drn.drain_data drn.drain_err
           rd_out wr_in fl_still dial_time dial_failed option_still polled intro: src.source_eof split: prod.splits\<close>)
qed

end

end
