(* ===== verification/Reader_Session.thy ===== *)
theory Reader_Session
  imports Reader
begin

text \<open>
  What the reader thread promises its callers: every request it takes is served, its ring
  receives the chunks of its own response in the right order and nothing else, no request is
  lost from the queue, and the connection stays in step whatever is cancelled, dropped or fails
  on the way.
\<close>

section \<open>What a request receives\<close>

text \<open>The body as far as it can be read from a stream, whole or not.\<close>

definition body_extent :: "BodyFraming \<Rightarrow> bytes \<Rightarrow> bytes" where
  "body_extent framing stream =
     (case framing of
        NoBody \<Rightarrow> [] | ContentLength len \<Rightarrow> take (unat len) stream
      | Chunked \<Rightarrow> fst (ref_run ChunkedDecoder_new stream) | UntilClose \<Rightarrow> stream)"

text \<open>
  How the chunks after the head may go: body chunks, none empty, that make up a part of the body,
  and at most one terminator; \<^verbatim>\<open>Eof\<close> only when they make up all of it.
\<close>

definition terminator :: "Chunk \<Rightarrow> bool" where
  "terminator c \<longleftrightarrow> c = Eof \<or> c = Aborted \<or> (\<exists>e. c = ErrorChunk e)"

definition body_chunks :: "BodyFraming \<Rightarrow> bytes \<Rightarrow> bytes \<Rightarrow> Chunk list \<Rightarrow> bool" where
  "body_chunks framing stream done cs \<longleftrightarrow>
     (\<exists>bodies fin. cs = map BodyChunk bodies @ fin \<and> [] \<notin> set bodies
        \<and> prefix (done @ concat bodies) (body_extent framing stream)
        \<and> (fin = [] \<or> (\<exists>c. fin = [c] \<and> terminator c))
        \<and> (Eof \<in> set fin \<longrightarrow> (\<exists>left. framed_body framing stream = Some (done @ concat bodies, left))))"

text \<open>
  All that a request receives: nothing; or a terminator alone; or the head that the stream holds
  at that point, after interim heads, and then its body.
\<close>

definition response_chunks :: "usize \<Rightarrow> Method \<Rightarrow> bytes \<Rightarrow> Chunk list \<Rightarrow> bool" where
  "response_chunks max_head m stream cs \<longleftrightarrow>
     (\<exists>skipped hb hdata framing rest. stream = concat skipped @ hb @ rest \<and> list_all interim_head skipped
        \<and> length skipped \<le> MAX_INTERIM_RESPONSES \<and> length hb \<le> max_head \<and> final_head m hb hdata framing
        \<and> (\<exists>cs'. cs = HeadChunk (as_u16 (hd_status hdata)) (hd_headers hdata) # cs' \<and> body_chunks framing rest [] cs'))"

text \<open>A service that ends without a head ends with at most a terminator, which is not \<^verbatim>\<open>Eof\<close>.\<close>

definition refusal :: "Chunk list \<Rightarrow> bool" where
  "refusal cs \<longleftrightarrow> cs = [] \<or> (\<exists>k. cs = [k] \<and> terminator k \<and> k \<noteq> Eof)"

lemma framed_extent: "framed_body framing stream = Some (b, left) \<Longrightarrow> b = body_extent framing stream"
  by (auto simp: framed_body_def body_extent_def split: BodyFraming.splits if_splits prod.splits Outcome.splits)

lemma body_inv_extent:
  assumes "body_inv reusable framing stream out (unread body @ rest) body"
  shows "prefix out (body_extent framing stream)" "length out \<le> length (body_extent framing stream)"
proof -
  show "prefix out (body_extent framing stream)"
  proof (cases "st_state body")
    case (SLength r)
    then show ?thesis using assms by (auto simp: body_inv_def body_extent_def prefix_def)
  next
    case (SChunked d)
    then have f: "framing = Chunked" and t: "tracked ChunkedDecoder_new stream d (unread body @ rest) out"
      using assms by (auto simp: body_inv_def)
    obtain c d1 where "stream = c @ unread body @ rest" "steps ChunkedDecoder_new c = Some (d1, out)"
      using t by (auto simp: tracked_def)
    then show ?thesis using ref_run_steps [of ChunkedDecoder_new c d1 out "unread body @ rest"]
      by (simp add: f body_extent_def)
  next
    case SUntilClose
    then show ?thesis using assms by (auto simp: body_inv_def body_extent_def)
  next
    case SDone
    then have "framed_body framing stream = Some (out, unread body @ rest)" using assms by (simp add: body_inv_def)
    from framed_extent [OF this] show ?thesis by simp
  qed
  then show "length out \<le> length (body_extent framing stream)" by (rule prefix_length_le)
qed

section \<open>Progress of one request\<close>

context async_world
begin

text \<open>
  Between two points of a service of \<open>t\<close>: messages were taken and dealt with, the ring of \<open>t\<close>
  received \<open>out\<close>, and no other ring anything but the terminator of a retired request.
\<close>

definition progress :: "ticket \<Rightarrow> ControlQueue \<Rightarrow> 'w \<Rightarrow> Control list \<Rightarrow> Chunk list \<Rightarrow> ControlQueue \<Rightarrow> 'w \<Rightarrow> bool" where
  "progress t q w ms out q1 w1 \<longleftrightarrow> taken w1 = taken w @ ms \<and> stock w1 + length ms \<le> stock w
     \<and> delivered w1 t = delivered w t @ out
     \<and> (\<exists>retired. absorbs (Some t) ms (cq_pending q) = (cq_pending q1, retired)
          \<and> (\<forall>t'. t' \<noteq> t \<longrightarrow> (\<exists>n \<le> count_list retired t'. delivered w1 t' = delivered w t' @ replicate n Aborted)))"

lemma progress_moved:
  assumes "moved (Some t) q w ms q1 w1"
  shows "progress t q w ms [] q1 w1"
proof -
  obtain retired where r: "absorbs (Some t) ms (cq_pending q) = (cq_pending q1, retired)"
    and d: "\<forall>t'. \<exists>n \<le> count_list retired t'. delivered w1 t' = delivered w t' @ replicate n Aborted"
    using assms unfolding moved_def by blast
  have "count_list retired t = 0" using absorbs_keeps [OF r] by (auto simp: count_list_0_iff)
  then have "delivered w1 t = delivered w t" using d [rule_format, of t] by auto
  then show ?thesis using assms r d unfolding progress_def moved_def by auto
qed

lemma progress_trans:
  assumes "progress t q w ms out q1 w1" "progress t q1 w1 ns out' q2 w2"
  shows "progress t q w (ms @ ns) (out @ out') q2 w2"
proof -
  obtain r1 where r1: "absorbs (Some t) ms (cq_pending q) = (cq_pending q1, r1)"
    and d1: "\<forall>t'. t' \<noteq> t \<longrightarrow> (\<exists>n \<le> count_list r1 t'. delivered w1 t' = delivered w t' @ replicate n Aborted)"
    using assms(1) unfolding progress_def by blast
  obtain r2 where r2: "absorbs (Some t) ns (cq_pending q1) = (cq_pending q2, r2)"
    and d2: "\<forall>t'. t' \<noteq> t \<longrightarrow> (\<exists>n \<le> count_list r2 t'. delivered w2 t' = delivered w1 t' @ replicate n Aborted)"
    using assms(2) unfolding progress_def by blast
  have "\<exists>n \<le> count_list (r1 @ r2) t'. delivered w2 t' = delivered w t' @ replicate n Aborted" if "t' \<noteq> t" for t'
  proof -
    obtain n m where "n \<le> count_list r1 t'" "delivered w1 t' = delivered w t' @ replicate n Aborted"
      "m \<le> count_list r2 t'" "delivered w2 t' = delivered w1 t' @ replicate m Aborted" using d1 d2 \<open>t' \<noteq> t\<close> by blast
    then show ?thesis by (intro exI [of _ "n + m"]) (simp add: replicate_add)
  qed
  then show ?thesis using assms absorbs_append [OF r1 r2] unfolding progress_def by auto
qed

lemma progress_quiet: "quiet w w1 \<Longrightarrow> progress t q w [] [] q w1"
  using progress_moved quiet_moved by blast

lemma progress_sent: "sent t c w r w1 \<Longrightarrow> progress t q w [] (case r of Inr _ \<Rightarrow> [c] | Inl _ \<Rightarrow> []) q w1"
  by (auto simp: progress_def sent_def split: sum.splits)

lemma progress_kept: "kept delivered taken stock w w1 \<Longrightarrow> progress t q w [] [] q w1"
  by (auto simp: progress_def kept_def)

lemma progress_latch:
  assumes "latch_rel l l1"
  obtains ms where "progress (ticket_of l) (queue_of l) (inner l) ms [] (queue_of l1) (inner l1)" "ticket_of l1 = ticket_of l"
  using assms progress_moved unfolding latch_rel_def by blast

section \<open>Sending while the interrupt holds the queue\<close>

lemma latch_send_returns:
  "\<exists>r l1. latch_send A t c l = Some (r, l1) \<and> still (inner l) (inner l1) \<and> ticket_of l1 = ticket_of l
     \<and> progress t (queue_of l) (inner l) [] (case r of Inr _ \<Rightarrow> [c] | Inl _ \<Rightarrow> []) (queue_of l1) (inner l1)"
proof -
  obtain r w1 where s: "sink_send A t c (inner l) = Some (r, w1)" "sent t c (inner l) r w1"
    using sink_send_returns by blast
  then show ?thesis using sent_still [OF s(2)] progress_sent [OF s(2)] by (simp add: latch_send_def)
qed

lemma latch_terminal_returns:
  "\<exists>r l1. latch_terminal A t c l = Some l1 \<and> still (inner l) (inner l1) \<and> ticket_of l1 = ticket_of l
     \<and> progress t (queue_of l) (inner l) [] (case r :: Undelivered + unit of Inr _ \<Rightarrow> [c] | Inl _ \<Rightarrow> []) (queue_of l1) (inner l1)"
proof -
  obtain r w1 where s: "send_terminal A t c (inner l) = Some w1" "sent t c (inner l) r w1"
    using send_terminal_returns by blast
  then show ?thesis using sent_still [OF s(2)] progress_sent [OF s(2)]
    by (intro exI [of _ r]) (simp add: latch_terminal_def)
qed

lemma body_chunks_fin:
  assumes "prefix out (body_extent framing stream)" "terminator c"
    and "c = Eof \<Longrightarrow> \<exists>left. framed_body framing stream = Some (out, left)"
  shows "body_chunks framing stream out (case r of Inr _ \<Rightarrow> [c] | Inl _ \<Rightarrow> [])"
  unfolding body_chunks_def using assms
  by (intro exI [of _ "[]"] exI [of _ "case r of Inr _ \<Rightarrow> [c] | Inl _ \<Rightarrow> []"]) (auto split: sum.splits)

lemma body_chunks_cons:
  assumes "body_chunks framing stream (out @ d) cs" "d \<noteq> []"
  shows "body_chunks framing stream out (BodyChunk d # cs)"
proof -
  obtain bodies fin where "cs = map BodyChunk bodies @ fin" "[] \<notin> set bodies"
      "prefix ((out @ d) @ concat bodies) (body_extent framing stream)" "fin = [] \<or> (\<exists>c. fin = [c] \<and> terminator c)"
      "Eof \<in> set fin \<longrightarrow> (\<exists>left. framed_body framing stream = Some ((out @ d) @ concat bodies, left))"
    using assms(1) unfolding body_chunks_def by blast
  then show ?thesis unfolding body_chunks_def using assms(2)
    by (intro exI [of _ "d # bodies"] exI [of _ fin]) auto
qed

text \<open>What is known of a body whose service has ended.\<close>

definition body_served ::
  "ticket \<Rightarrow> BodyFraming \<Rightarrow> bytes \<Rightarrow> bytes \<Rightarrow> 'w ControlInterrupt Latch \<Rightarrow> bool \<Rightarrow> 'w ControlInterrupt Latch \<Rightarrow> bool" where
  "body_served t framing stream out l dirty l1 \<longleftrightarrow>
     (\<exists>ms cs. T (inner l) \<le> T (inner l1) \<and> outgoing (inner l1) = outgoing (inner l) \<and> ticket_of l1 = ticket_of l
        \<and> progress t (queue_of l) (inner l) ms cs (queue_of l1) (inner l1) \<and> body_chunks framing stream out cs
        \<and> (\<not> dirty \<longrightarrow> framing \<noteq> UntilClose \<and> (\<exists>b. framed_body framing stream = Some (b, incoming (inner l1)))))"

lemma served_after:
  assumes "body_served t framing stream out' l1 dirty l2" "T (inner l) \<le> T (inner l1)" "outgoing (inner l1) = outgoing (inner l)"
    and "ticket_of l1 = ticket_of l" "progress t (queue_of l) (inner l) ms cs (queue_of l1) (inner l1)"
    and "\<And>cs'. body_chunks framing stream out' cs' \<Longrightarrow> body_chunks framing stream out (cs @ cs')"
  shows "body_served t framing stream out l dirty l2"
proof -
  obtain ns cs' where n: "T (inner l1) \<le> T (inner l2)" "outgoing (inner l2) = outgoing (inner l1)" "ticket_of l2 = ticket_of l1"
      "progress t (queue_of l1) (inner l1) ns cs' (queue_of l2) (inner l2)" "body_chunks framing stream out' cs'"
      "\<not> dirty \<longrightarrow> framing \<noteq> UntilClose \<and> (\<exists>b. framed_body framing stream = Some (b, incoming (inner l2)))"
    using assms(1) unfolding body_served_def by blast
  show ?thesis unfolding body_served_def
    by (intro exI [of _ "ms @ ns"] exI [of _ "cs @ cs'"] conjI)
      (use n assms progress_trans [OF assms(5) n(4)] in auto)
qed

text \<open>A terminator ends the service.\<close>

lemma terminal_serves:
  assumes "prefix out (body_extent framing stream)" "terminator c"
    and "c = Eof \<Longrightarrow> \<exists>left. framed_body framing stream = Some (out, left)"
    and "\<not> dirty \<longrightarrow> framing \<noteq> UntilClose \<and> (\<exists>b. framed_body framing stream = Some (b, incoming (inner l)))"
  shows "\<exists>l1. latch_terminal A t c l = Some l1 \<and> body_served t framing stream out l dirty l1"
proof -
  obtain r :: "Undelivered + unit" and l1 where l1: "latch_terminal A t c l = Some l1" "still (inner l) (inner l1)" "ticket_of l1 = ticket_of l"
      "progress t (queue_of l) (inner l) [] (case r of Inr _ \<Rightarrow> [c] | Inl _ \<Rightarrow> []) (queue_of l1) (inner l1)"
    using latch_terminal_returns by blast
  moreover have "body_chunks framing stream out (case r of Inr _ \<Rightarrow> [c] | Inl _ \<Rightarrow> [])"
    using assms(1-3) by (rule body_chunks_fin)
  ultimately show ?thesis using assms(4) unfolding body_served_def still_def by fastforce
qed

section \<open>Bodies\<close>

lemmas reader_wire = network.axioms(1) [OF reader_network]

lemma reader_connection:
  "connection (interruptible (reader_env A)) (\<lambda>l. T (inner l)) (\<lambda>l. incoming (inner l)) (\<lambda>l. outgoing (inner l))"
  using connection.interruptible_connection [OF duplex.axioms(1) [OF reader_wire]] .

lemmas reader_frame = steady.steady_interruptible [OF reader_steady]

lemma success_loop_returns:
  assumes "body_inv reusable framing stream out (unread body @ incoming (inner l)) body" "buf \<noteq> []" "ticket_of l = t"
    and "length (body_extent framing stream) - length out = k"
  shows "\<exists>body' l1. success_loop A t body buf l = Some (body', l1) \<and> body_served t framing stream out l (st_dirty body') l1"
  using assms
proof (induction k arbitrary: out body buf l rule: less_induct)
  case (less k)
  note inv = less.prems(1)
  obtain r buf1 body1 l1 where rd: "st_read (interruptible (reader_env A)) body buf l = Some (r, buf1, body1, l1)"
      "T (inner l) \<le> T (inner l1)" "outgoing (inner l1) = outgoing (inner l)"
      "read_ok reusable framing stream out buf r buf1 body1 (incoming (inner l1))"
    using connection.st_read_returns [OF reader_connection inv less.prems(2)] by blast
  obtain ms where p: "progress t (queue_of l) (inner l) ms [] (queue_of l1) (inner l1)" "ticket_of l1 = ticket_of l"
    using steady.R_st_read [OF reader_frame rd(1)] less.prems(3) by (auto elim: progress_latch)
  have pre: "prefix out (body_extent framing stream)" by (rule body_inv_extent(1) [OF inv])
  have eq: "success_loop A t body buf l = (case r of
         Inr n \<Rightarrow>
           if n = 0 then map_option (\<lambda>l. (body1, l)) (latch_terminal A t Eof l1)
           else
             Option.bind (latch_send A t (BodyChunk (take n buf1)) l1) (\<lambda>(r, l).
               case r of Inl _ \<Rightarrow> Some (body1, l) | Inr _ \<Rightarrow> success_loop A t body1 buf1 l)
       | Inl e \<Rightarrow>
           if Cancelled_marks e then map_option (\<lambda>l. (body1, l)) (latch_terminal A t Aborted l1)
           else map_option (\<lambda>l. (body1, l)) (latch_terminal A t (ErrorChunk (error_from_io e)) l1))"
    by (subst success_loop.simps) (simp add: rd(1))
  have lift: "body_served t framing stream out l dirty l2" if "body_served t framing stream out l1 dirty l2" for dirty l2
    by (rule served_after [OF that rd(2,3) p(2,1)]) simp
  show ?case
  proof (cases r)
    case (Inl e)
    define c where "c = (if Cancelled_marks e then Aborted else ErrorChunk (error_from_io e))"
    have "\<exists>l2. latch_terminal A t c l1 = Some l2 \<and> body_served t framing stream out l1 (st_dirty body1) l2"
      by (rule terminal_serves [OF pre]) (use rd(4) Inl in \<open>auto simp: c_def terminator_def read_ok_def split: if_splits\<close>)
    then show ?thesis using eq Inl lift by (auto simp: c_def split: if_splits)
  next
    case (Inr n)
    then have ok: "length buf1 = length buf" "n \<le> length buf" "n = 0 \<longrightarrow> st_is_done body1"
      and inv1: "body_inv reusable framing stream (out @ take n buf1) (unread body1 @ incoming (inner l1)) body1"
      using rd(4) by (auto simp: read_ok_def)
    have settled: "framing \<noteq> UntilClose \<and> (\<exists>b. framed_body framing stream = Some (b, incoming (inner l1)))" if "\<not> st_dirty body1"
      using inv1 that by (cases "st_state body1") (auto simp: body_inv_def)
    show ?thesis
    proof (cases "n = 0")
      case True
      have "framed_body framing stream = Some (out, unread body1 @ incoming (inner l1))"
        using inv1 ok(3) True by (simp add: body_inv_def st_is_done_def)
      then have "\<exists>l2. latch_terminal A t Eof l1 = Some l2 \<and> body_served t framing stream out l1 (st_dirty body1) l2"
        by (intro terminal_serves [OF pre]) (use settled in \<open>auto simp: terminator_def\<close>)
      then show ?thesis using eq Inr True lift by auto
    next
      case False
      let ?d = "take n buf1"
      have d: "?d \<noteq> []" using False ok(1,2) less.prems(2) by (cases buf1) auto
      obtain r2 l2 where s: "latch_send A t (BodyChunk ?d) l1 = Some (r2, l2)" "still (inner l1) (inner l2)" "ticket_of l2 = ticket_of l1"
          "progress t (queue_of l1) (inner l1) [] (case r2 of Inr _ \<Rightarrow> [BodyChunk ?d] | Inl _ \<Rightarrow> []) (queue_of l2) (inner l2)"
        using latch_send_returns by blast
      show ?thesis
      proof (cases r2)
        case (Inl u)
        have "body_chunks framing stream out []"
          using pre unfolding body_chunks_def by (intro exI [of _ "[]"]) auto
        then have "body_served t framing stream out l1 (st_dirty body1) l2"
          unfolding body_served_def using s settled Inl by (intro exI [of _ "[]"]) (auto simp: still_def)
        then show ?thesis using eq Inr False s(1) Inl lift by auto
      next
        case sentd: (Inr u)
        have inv2: "body_inv reusable framing stream (out @ ?d) (unread body1 @ incoming (inner l2)) body1"
          using inv1 s(2) by (simp add: still_def)
        have "length (body_extent framing stream) - length (out @ ?d) < k"
          using body_inv_extent(2) [OF inv2] d less.prems(4) by (cases ?d) auto
        moreover have "buf1 \<noteq> []" using d by auto
        ultimately have "\<exists>body' l3. success_loop A t body1 buf1 l2 = Some (body', l3)
            \<and> body_served t framing stream (out @ ?d) l2 (st_dirty body') l3"
          using inv2 s(3) p(2) less.prems(3) by (intro less.IH) auto
        then
        obtain body3 l3 where l3: "success_loop A t body1 buf1 l2 = Some (body3, l3)"
            "body_served t framing stream (out @ ?d) l2 (st_dirty body3) l3" by blast
        have "body_served t framing stream out l1 (st_dirty body3) l3"
          by (rule served_after [OF l3(2) _ _ s(3,4)])
            (use s(2) d sentd body_chunks_cons in \<open>auto simp: still_def\<close>)
        then show ?thesis using eq Inr False s(1) sentd l3(1) lift by auto
      qed
    qed
  qed
qed

lemma drain_returns:
  assumes "ticket_of l = t" "cl_dirty c"
  shows "\<exists>c' l1. drain_error_body A c t framing tail d reuse l = Some (c', l1) \<and> (\<exists>b. c' = c\<lparr> cl_dirty := b \<rparr>)
     \<and> body_served t framing (tail @ incoming (inner l)) [] l (cl_dirty c') l1"
proof -
  let ?stream = "tail @ incoming (inner l)"
  obtain bc l1 where bc: "bc_with_deadline (reader_env A) (max_response_body (cl_config c)) (stream_silence (cl_config c)) d l = (bc, l1)"
    by (cases "bc_with_deadline (reader_env A) (max_response_body (cl_config c)) (stream_silence (cl_config c)) d l")
  note st = network.bc_with_deadline_still [OF reader_network bc]
  obtain r bc2 l2 where r: "bc_read (interruptible (reader_env A)) bc framing tail l1 = Some (r, bc2, l2)"
      "T (inner l1) \<le> T (inner l2)" "outgoing (inner l2) = outgoing (inner l1)"
      "collected framing (bc_max_body bc) (tail @ incoming (inner l1)) (incoming (inner l2)) r (bc_reusable bc2)"
    using connection.bc_read_returns [OF reader_connection] by blast
  have "latch_rel l l2"
    by (rule latch_rel_trans [OF steady.R_checked(4) [OF reader_steady bc] steady.R_bc_read [OF reader_frame r(1)]])
  then obtain ms where p: "progress t (queue_of l) (inner l) ms [] (queue_of l2) (inner l2)" "ticket_of l2 = ticket_of l"
    using assms(1) by (auto elim: progress_latch)
  have t2: "T (inner l) \<le> T (inner l2)" "outgoing (inner l2) = outgoing (inner l)" using st r(2,3) by auto
  have lift: "body_served t framing ?stream [] l dirty l3" if "body_served t framing ?stream [] l2 dirty l3" for dirty l3
    by (rule served_after [OF that t2 p(2,1)]) simp
  show ?thesis
  proof (cases r)
    case (Inl e)
    define k where "k = (if latch_fired l2 then Aborted else ErrorChunk e)"
    have "\<exists>l3. latch_terminal A t k l2 = Some l3 \<and> body_served t framing ?stream [] l2 (cl_dirty c) l3"
      by (rule terminal_serves) (use assms(2) in \<open>auto simp: k_def terminator_def split: if_splits\<close>)
    then obtain l3 where "latch_terminal A t k l2 = Some l3" "body_served t framing ?stream [] l2 (cl_dirty c) l3" by blast
    moreover have "\<exists>b. c = c\<lparr> cl_dirty := b \<rparr>" by (rule exI [of _ "cl_dirty c"]) simp
    ultimately show ?thesis using bc r(1) Inl lift
      by (intro exI [of _ c] exI [of _ l3]) (auto simp: drain_error_body_def k_def split: if_splits)
  next
    case (Inr data)
    define dirty where "dirty = (\<not> bc_reusable bc2 \<or> \<not> is_keep reuse)"
    obtain left where f: "framed_body framing ?stream = Some (data, left @ incoming (inner l2))"
        "bc_reusable bc2 \<longleftrightarrow> left = [] \<and> framing \<noteq> UntilClose"
      using r(4) Inr st by (auto simp: collected_def)
    have settled: "\<not> dirty \<longrightarrow> framing \<noteq> UntilClose \<and> (\<exists>b. framed_body framing ?stream = Some (b, incoming (inner l2)))"
      using f by (auto simp: dirty_def)
    have eof: "\<exists>l4. latch_terminal A t Eof l3 = Some l4 \<and> body_served t framing ?stream data l3 dirty l4"
      if "incoming (inner l3) = incoming (inner l2)" for l3
      by (rule terminal_serves) (use that settled f framed_extent [OF f(1)] in \<open>auto simp: terminator_def\<close>)
    have "\<exists>l4. drain_error_body A c t framing tail d reuse l = Some (c\<lparr> cl_dirty := dirty \<rparr>, l4) \<and> body_served t framing ?stream [] l2 dirty l4"
    proof (cases "data = []")
      case True
      then show ?thesis using eof [of l2] bc r(1) Inr by (auto simp: drain_error_body_def dirty_def)
    next
      case False
      obtain q l3 where s: "latch_send A t (BodyChunk data) l2 = Some (q, l3)" "still (inner l2) (inner l3)" "ticket_of l3 = ticket_of l2"
          "progress t (queue_of l2) (inner l2) [] (case q of Inr _ \<Rightarrow> [BodyChunk data] | Inl _ \<Rightarrow> []) (queue_of l3) (inner l3)"
        using latch_send_returns by blast
      show ?thesis
      proof (cases q)
        case gone: (Inl u)
        have "body_chunks framing ?stream [] []" unfolding body_chunks_def by (intro exI [of _ "[]"]) auto
        then have "body_served t framing ?stream [] l2 dirty l3"
          unfolding body_served_def using s settled gone by (intro exI [of _ "[]"]) (auto simp: still_def)
        then show ?thesis using bc r(1) Inr False s(1) gone by (simp add: drain_error_body_def dirty_def)
      next
        case sentd: (Inr u)
        obtain l4 where l4: "latch_terminal A t Eof l3 = Some l4" "body_served t framing ?stream data l3 dirty l4"
          using eof [of l3] s(2) by (auto simp: still_def)
        have "body_served t framing ?stream [] l2 dirty l4"
          by (rule served_after [OF l4(2) _ _ s(3,4)])
            (use s(2) False sentd body_chunks_cons [of framing ?stream "[]" data] in \<open>auto simp: still_def\<close>)
        then show ?thesis using bc r(1) Inr False s(1) sentd l4(1) by (simp add: drain_error_body_def dirty_def)
      qed
    qed
    then obtain l4 where "drain_error_body A c t framing tail d reuse l = Some (c\<lparr> cl_dirty := dirty \<rparr>, l4)"
      "body_served t framing ?stream [] l2 dirty l4" by blast
    then show ?thesis using lift by (intro exI [of _ "c\<lparr> cl_dirty := dirty \<rparr>"] exI [of _ l4]) auto
  qed
qed

lemma stream_success_returns:
  assumes "ticket_of l = t" "cl_dirty c"
  shows "\<exists>c' l1. stream_success A c t framing tail reuse l = Some (c', l1) \<and> (\<exists>b. c' = c\<lparr> cl_dirty := b \<rparr>)
     \<and> body_served t framing (tail @ incoming (inner l)) [] l (cl_dirty c') l1"
proof -
  let ?stream = "tail @ incoming (inner l)"
  obtain body l1 where b: "st_new (reader_env A) True framing tail (stream_silence (cl_config c)) (is_keep reuse) l = (body, l1)"
    by (cases "st_new (reader_env A) True framing tail (stream_silence (cl_config c)) (is_keep reuse) l")
  obtain u where u: "clock (reader_env A) l = (u, l1)"
    using b by (cases "clock (reader_env A) l") (auto simp: st_new_def sb_new_def sb_with_deadline_def Let_def)
  have st: "T (inner l) \<le> T (inner l1)" "incoming (inner l1) = incoming (inner l)" "outgoing (inner l1) = outgoing (inner l)"
    using clocked.clock_time [OF connection.axioms(1) [OF duplex.axioms(1) [OF reader_wire]] u]
      connection.clock_still [OF duplex.axioms(1) [OF reader_wire] u] by auto
  obtain ms where p: "progress t (queue_of l) (inner l) ms [] (queue_of l1) (inner l1)" "ticket_of l1 = ticket_of l"
    using steady.R_clock [OF reader_steady u] assms(1) by (auto elim: progress_latch)
  have "body_inv (is_keep reuse) framing ?stream [] (unread body @ incoming (inner l1)) body"
    using body_inv_new(1) [OF b, of "incoming (inner l1)"] body_inv_new(2) [OF b] st(2) by simp
  from success_loop_returns [OF this _ _ refl, of "replicate HEAD_BUF_SIZE 0" t] HEAD_BUF_pos assms(1) p(2)
  obtain body' l2 where l2: "success_loop A t body (replicate HEAD_BUF_SIZE 0) l1 = Some (body', l2)"
      "body_served t framing ?stream [] l1 (st_dirty body') l2" by auto
  have "body_served t framing ?stream [] l (st_dirty body') l2"
    by (rule served_after [OF l2(2) st(1,3) p(2,1)]) simp
  then show ?thesis using b l2(1) assms(2) by (auto simp: stream_success_def st_drop_def)
qed

section \<open>One request\<close>

lemma in_step_reader:
  "in_step (\<lambda>l. incoming (inner l)) (\<lambda>l. outgoing (inner l)) (reader_env A) l \<longleftrightarrow> in_step incoming outgoing (net A) (inner l)"
proof
  assume "in_step (\<lambda>l. incoming (inner l)) (\<lambda>l. outgoing (inner l)) (reader_env A) l"
  then obtain l0 exs where o: "opened (reader_env A) l0" and r: "outgoing (inner l) = outgoing (inner l0) @ concat (map fst exs)"
      "incoming (inner l0) = concat (map snd exs) @ incoming (inner l)"
      "list_all (\<lambda>(rq, rs). \<exists>m. complete_request m rq \<and> complete_response m rs) exs"
    unfolding in_step_def by blast
  from o obtain l' u d v where "on_world (\<lambda>w. dial (net A) w u d) l' = (Inr v, l0)"
    unfolding opened_def reader_env_sel by blast
  then have "opened (net A) (inner l0)" unfolding opened_def by (metis on_worldE)
  then show "in_step incoming outgoing (net A) (inner l)" unfolding in_step_def using r by blast
next
  assume "in_step incoming outgoing (net A) (inner l)"
  then obtain w0 exs where o: "opened (net A) w0" and r: "outgoing (inner l) = outgoing w0 @ concat (map fst exs)"
      "incoming w0 = concat (map snd exs) @ incoming (inner l)"
      "list_all (\<lambda>(rq, rs). \<exists>m. complete_request m rq \<and> complete_response m rs) exs"
    unfolding in_step_def by blast
  from o obtain w' u d v where dl: "dial (net A) w' u d = (Inr v, w0)" unfolding opened_def by blast
  let ?l = "\<lambda>w. l\<lparr> latch_inner := (latch_inner l)\<lparr> ci_world := w \<rparr> \<rparr>"
  have "dial (reader_env A) (?l w') u d = (Inr v, ?l w0)" by (simp add: reader_env_sel on_world_def dl)
  then have "opened (reader_env A) (?l w0)" unfolding opened_def by blast
  then show "in_step (\<lambda>l. incoming (inner l)) (\<lambda>l. outgoing (inner l)) (reader_env A) l"
    unfolding in_step_def using r by (intro exI [of _ "?l w0"] exI [of _ exs]) auto
qed

lemma new_latch [simp]:
  "inner (Latch_new (ControlInterrupt_new q t w)) = w" "queue_of (Latch_new (ControlInterrupt_new q t w)) = q"
  "ticket_of (Latch_new (ControlInterrupt_new q t w)) = t"
  by (simp_all add: Latch_new_def ControlInterrupt_new_def)

lemma stream_body_returns:
  assumes ha: "head_answer incoming outgoing max_head c0 (request_params req) w0 (hdata, framing, off) c w"
    and i: "in_step incoming outgoing (net A) w0"
  shows "\<exists>c' q1 w1 ms cs. stream_body A c q req \<lparr> start_head = hdata, start_framing = framing, start_tail_offset = off \<rparr> d w = Some (c', q1, w1)
     \<and> cl_config c' = cl_config c \<and> cl_origin c' = cl_origin c \<and> T w \<le> T w1 \<and> outgoing w1 = outgoing w
     \<and> progress (ar_ticket req) q w ms cs q1 w1 \<and> tidy c' w1
     \<and> (cs = [] \<or> response_chunks max_head (ar_method req) (incoming w0) cs)"
proof -
  let ?t = "ar_ticket req" and ?h = "HeadChunk (as_u16 (hd_status hdata)) (hd_headers hdata)"
  let ?c = "c\<lparr> cl_dirty := True \<rparr>" and ?tail = "drop off (cl_head_buf c)"
  let ?reuse = "connection_reuse hdata (requests_close (request_params req))"
  obtain r w2 where s: "sink_send A ?t ?h w = Some (r, w2)" "sent ?t ?h w r w2" using sink_send_returns by blast
  note s2 = sent_still [OF s(2), unfolded still_def] and p2 = progress_sent [OF s(2), of q]
  show ?thesis
  proof (cases r)
    case (Inl u)
    then have "stream_body A c q req \<lparr> start_head = hdata, start_framing = framing, start_tail_offset = off \<rparr> d w = Some (?c, q, w2)"
      using s(1) by (simp add: stream_body_def Let_def)
    then show ?thesis using s2 p2 Inl
      by (intro exI [of _ ?c] exI [of _ q] exI [of _ w2] exI [of _ "[]"]) (auto simp: clean_in_step_def)
  next
    case (Inr u)
    let ?l = "Latch_new (ControlInterrupt_new q ?t w2)"
    let ?ok = "200 \<le> as_u16 (hd_status hdata) \<and> as_u16 (hd_status hdata) < 300"
    have "\<exists>c' l1. (if ?ok then stream_success A ?c ?t framing ?tail ?reuse ?l else drain_error_body A ?c ?t framing ?tail d ?reuse ?l) = Some (c', l1)
        \<and> (\<exists>b. c' = ?c\<lparr> cl_dirty := b \<rparr>) \<and> body_served ?t framing (?tail @ incoming w2) [] ?l (cl_dirty c') l1"
      using stream_success_returns [of ?l ?t ?c framing ?tail ?reuse] drain_returns [of ?l ?t ?c framing ?tail d ?reuse] by simp
    then obtain c' l1 b where b: "(if ?ok then stream_success A ?c ?t framing ?tail ?reuse ?l else drain_error_body A ?c ?t framing ?tail d ?reuse ?l) = Some (c', l1)"
        "c' = ?c\<lparr> cl_dirty := b \<rparr>" and bs: "body_served ?t framing (?tail @ incoming w2) [] ?l (cl_dirty c') l1" by blast
    then obtain ms cs where bs': "T w2 \<le> T (inner l1)" "outgoing (inner l1) = outgoing w2"
        "progress ?t q w2 ms cs (queue_of l1) (inner l1)" "body_chunks framing (?tail @ incoming w2) [] cs"
        "\<not> cl_dirty c' \<longrightarrow> framing \<noteq> UntilClose \<and> (\<exists>b. framed_body framing (?tail @ incoming w2) = Some (b, incoming (inner l1)))"
      unfolding body_served_def by auto
    have eq: "stream_body A c q req \<lparr> start_head = hdata, start_framing = framing, start_tail_offset = off \<rparr> d w
        = Some (c', queue_of l1, inner l1)"
      using s(1) Inr b(1) by (cases ?ok) (auto simp: stream_body_def Let_def)
    have pr: "progress ?t q w ms (?h # cs) (queue_of l1) (inner l1)"
      using progress_trans [OF p2 bs'(3)] Inr by simp
    have tidy: "tidy c' (inner l1)"
      unfolding clean_in_step_def using settle [OF ha i, of _ "inner l1"] bs' s2 by auto
    have "response_chunks max_head (ar_method req) (incoming w0) (?h # cs)"
    proof (rule head_answer_split [OF ha])
      fix skipped
      assume "incoming w0 = concat skipped @ take off (cl_head_buf c) @ (?tail @ incoming w)"
        "list_all interim_head skipped" "length skipped \<le> MAX_INTERIM_RESPONSES" "length (take off (cl_head_buf c)) \<le> max_head"
        "final_head (rp_method (request_params req)) (take off (cl_head_buf c)) hdata framing"
      then show ?thesis unfolding response_chunks_def using bs'(4) s2
        by (intro exI [of _ skipped] exI [of _ "take off (cl_head_buf c)"] exI [of _ hdata] exI [of _ framing] exI [of _ "?tail @ incoming w"])
          (simp add: request_params_def)
    qed
    then show ?thesis using eq pr tidy bs' s2 b(2)
      by (intro exI [of _ c'] exI [of _ "queue_of l1"] exI [of _ "inner l1"] exI [of _ ms] exI [of _ "?h # cs"]) auto
  qed
qed

lemma dispatch_terminal_returns:
  assumes "terminator k" "k \<noteq> Eof"
  shows "\<exists>w1 cs. dispatch_terminal A t k c q w = Some (None, c, q, w1) \<and> still w w1 \<and> progress t q w [] cs q w1 \<and> refusal cs"
proof -
  obtain r w1 where s: "send_terminal A t k w = Some w1" "sent t k w r w1" using send_terminal_returns by blast
  have "refusal (case r of Inr _ \<Rightarrow> [k] | Inl _ \<Rightarrow> [])" using assms by (cases r) (auto simp: refusal_def)
  then show ?thesis using s(1) sent_still [OF s(2)] progress_sent [OF s(2), of q] by (auto simp: dispatch_terminal_def)
qed

definition dispatched ::
  "usize \<Rightarrow> Client \<Rightarrow> ControlQueue \<Rightarrow> AsyncRequest \<Rightarrow> 'w \<Rightarrow> ResponseStart option \<Rightarrow> Client \<Rightarrow> ControlQueue \<Rightarrow> 'w \<Rightarrow> bool" where
  "dispatched max_head c q req w start c' q1 w1 \<longleftrightarrow>
     cl_config c' = cl_config c \<and> cl_origin c' = cl_origin c \<and> T w \<le> T w1
     \<and> (case start of
          None \<Rightarrow> tidy c' w1 \<and> (\<exists>ms cs. progress (ar_ticket req) q w ms cs q1 w1 \<and> refusal cs)
        | Some s \<Rightarrow> (\<exists>ms. progress (ar_ticket req) q w ms [] q1 w1)
            \<and> (\<exists>w0 c0. in_step incoming outgoing (net A) w0 \<and> cl_origin c0 = cl_origin c
                 \<and> head_answer incoming outgoing max_head c0 (request_params req) w0
                     (start_head s, start_framing s, start_tail_offset s) c' w1))"

lemma dispatch_ends:
  assumes "terminator k" "k \<noteq> Eof" "tidy c' w1" "cl_config c' = cl_config c" "cl_origin c' = cl_origin c" "T w \<le> T w1"
    and "progress (ar_ticket req) q w ms [] q1 w1"
  shows "\<exists>w2. dispatch_terminal A (ar_ticket req) k c' q1 w1 = Some (None, c', q1, w2) \<and> dispatched max_head c q req w None c' q1 w2"
proof -
  obtain w2 cs where d: "dispatch_terminal A (ar_ticket req) k c' q1 w1 = Some (None, c', q1, w2)" "still w1 w2"
      "progress (ar_ticket req) q1 w1 [] cs q1 w2" "refusal cs"
    using dispatch_terminal_returns [OF assms(1,2)] by blast
  have "tidy c' w2" using assms(3) d(2) by (auto simp: clean_in_step_def still_def intro: in_step_cong)
  moreover have "progress (ar_ticket req) q w ms cs q1 w2" using progress_trans [OF assms(7) d(3)] by simp
  ultimately show ?thesis using d assms unfolding dispatched_def still_def by fastforce
qed

lemma dispatch_returns:
  assumes "tidy c w"
  shows "\<exists>start c' q1 w1. dispatch A max_head c q req d w = Some (start, c', q1, w1) \<and> dispatched max_head c q req w start c' q1 w1"
proof -
  let ?t = "ar_ticket req" and ?params = "request_params req"
  obtain b q2 w2 ms where p: "poll_cancel A q (Some ?t) w = Some (b, q2, w2)" "still w w2" "moved (Some ?t) q w ms q2 w2"
    using poll_cancel_returns [OF refl, of "Some ?t" False q w] by (auto simp: poll_cancel_def)
  note p2 = progress_moved [OF p(3)]
  have t2: "tidy c w2" using assms p(2) by (auto simp: clean_in_step_def still_def intro: in_step_cong)
  show ?thesis
  proof (cases b)
    case True
    then have "dispatch A max_head c q req d w = dispatch_terminal A ?t Aborted c q2 w2" by (simp add: dispatch_def p(1) Let_def)
    moreover obtain w3 where "dispatch_terminal A ?t Aborted c q2 w2 = Some (None, c, q2, w3)" "dispatched max_head c q req w None c q2 w3"
      using dispatch_ends [of Aborted c w2 c w req q ms q2 max_head] t2 p2 p(2) by (auto simp: terminator_def still_def)
    ultimately show ?thesis by auto
  next
    case False
    obtain k c3 w3 where k: "ensure_clean (net A) c w2 = (k, c3, w3)" by (cases "ensure_clean (net A) c w2")
    then have e: "(if cl_dirty c then ensure_clean (net A) c w2 else (Inr (), c, w2)) = (k, c3, w3)"
      by (auto simp: ensure_clean_def ensure_clean_with_deadline_def)
    note k3 = ensure_clean_result [OF k [unfolded ensure_clean_def] t2]
    have "kept delivered taken stock w2 w3" by (rule hold.R_ensure_clean [OF k [unfolded ensure_clean_def]])
    from progress_trans [OF p2 progress_kept [OF this, of ?t q2]]
    have p3: "progress ?t q w ms [] q2 w3" by simp
    have T3: "T w \<le> T w3" using k3 p(2) by (auto simp: still_def)
    show ?thesis
    proof (cases k)
      case (Inl err)
      then have "dispatch A max_head c q req d w = dispatch_terminal A ?t (ErrorChunk err) c3 q2 w3"
        using False e by (simp add: dispatch_def p(1) Let_def)
      moreover obtain w4 where "dispatch_terminal A ?t (ErrorChunk err) c3 q2 w3 = Some (None, c3, q2, w4)"
          "dispatched max_head c q req w None c3 q2 w4"
        using dispatch_ends [of "ErrorChunk err" c3 w3 c w req q ms q2 max_head] k3 Inl p3 T3
        by (auto simp: terminator_def clean_in_step_def)
      ultimately show ?thesis by auto
    next
      case (Inr u)
      let ?w4 = "store_started A ?t w3"
      let ?l = "Latch_new (ControlInterrupt_new q2 ?t ?w4)"
      have q4: "quiet w3 ?w4" by (rule stores(2))
      have p4: "progress ?t q w ms [] q2 ?w4" using progress_trans [OF p3 progress_quiet [OF q4, of ?t q2]] by simp
      have "in_step incoming outgoing (net A) ?w4"
        using k3 Inr q4 by (auto simp: calm_def intro: in_step_cong)
      then have "in_step (\<lambda>l. incoming (inner l)) (\<lambda>l. outgoing (inner l)) (reader_env A) ?l" by (simp add: in_step_reader)
      from network.send_head_interruptible_returns [OF reader_network this, of max_head c3 ?params d]
      obtain r c5 l5 where h: "send_head_interruptible (reader_env A) max_head c3 ?params d ?l = Some (r, c5, l5)" "T ?w4 \<le> T (inner l5)"
          "cl_config c5 = cl_config c3" "cl_origin c5 = cl_origin c3"
        and cs: "case r of Inl _ \<Rightarrow> clean_in_step (\<lambda>l. incoming (inner l)) (\<lambda>l. outgoing (inner l)) (reader_env A) c5 l5
          | Inr parts \<Rightarrow> cl_dirty c5 \<and> (\<exists>l0. in_step (\<lambda>l. incoming (inner l)) (\<lambda>l. outgoing (inner l)) (reader_env A) l0
            \<and> head_answer (\<lambda>l. incoming (inner l)) (\<lambda>l. outgoing (inner l)) max_head c3 ?params l0 parts c5 l5)"
        by auto
      obtain ns where "progress ?t q2 ?w4 ns [] (queue_of l5) (inner l5)"
        using progress_latch [OF steady.R_send_head_interruptible [OF reader_steady h(1)]] by auto
      from progress_trans [OF p4 this] have p5: "progress ?t q w (ms @ ns) [] (queue_of l5) (inner l5)" by simp
      have T5: "T w \<le> T (inner l5)" using T3 h(2) q4 by (auto simp: calm_def)
      have same: "cl_config c5 = cl_config c" "cl_origin c5 = cl_origin c" using h(3,4) k3 by auto
      show ?thesis
      proof (cases r)
        case err: (Inl err)
        define ck where "ck = (if latch_fired l5 then Aborted else ErrorChunk err)"
        have "dispatch A max_head c q req d w = dispatch_terminal A ?t ck c5 (queue_of l5) (inner l5)"
          using False e Inr h(1) err by (simp add: dispatch_def p(1) Let_def ck_def)
        moreover have "terminator ck" "ck \<noteq> Eof" by (simp_all add: ck_def terminator_def)
        moreover have "tidy c5 (inner l5)" using cs err by (simp add: clean_in_step_def in_step_reader)
        ultimately have "\<exists>w6. dispatch A max_head c q req d w = Some (None, c5, queue_of l5, w6)
            \<and> dispatched max_head c q req w None c5 (queue_of l5) w6"
          using dispatch_ends [OF _ _ _ same T5 p5, of ck max_head] by simp
        then show ?thesis by blast
      next
        case ans: (Inr parts)
        obtain hdata framing off where parts: "parts = (hdata, framing, off)" by (cases parts)
        let ?s = "\<lparr> start_head = hdata, start_framing = framing, start_tail_offset = off \<rparr>"
        have eq: "dispatch A max_head c q req d w = Some (Some ?s, c5, queue_of l5, inner l5)"
          using False e Inr h(1) ans parts by (simp add: dispatch_def p(1) Let_def)
        obtain l0 where "in_step incoming outgoing (net A) (inner l0)"
            "head_answer incoming outgoing max_head c3 ?params (inner l0) (hdata, framing, off) c5 (inner l5)"
          using cs ans parts by (auto simp: in_step_reader head_answer_def)
        then have "dispatched max_head c q req w (Some ?s) c5 (queue_of l5) (inner l5)"
          unfolding dispatched_def using same T5 p5 k3 by fastforce
        then show ?thesis using eq by blast
      qed
    qed
  qed
qed

section \<open>The whole service\<close>

definition reply :: "usize \<Rightarrow> AsyncRequest \<Rightarrow> Chunk list \<Rightarrow> bool" where
  "reply max_head req cs \<longleftrightarrow> refusal cs
     \<or> (\<exists>w0. in_step incoming outgoing (net A) w0 \<and> response_chunks max_head (ar_method req) (incoming w0) cs)"

lemma serve_returns:
  assumes "tidy c w"
  shows "\<exists>c' q1 w1 ms cs. serve A max_head c q req w = Some (c', q1, w1) \<and> T w \<le> T w1 \<and> cl_config c' = cl_config c \<and> cl_origin c' = cl_origin c
     \<and> tidy c' w1 \<and> progress (ar_ticket req) q w ms cs q1 w1
     \<and> (refusal cs \<or> (\<exists>w0. in_step incoming outgoing (net A) w0
          \<and> outgoing w1 = outgoing w0 @ request_bytes (cl_origin c) (request_params req)
          \<and> response_chunks max_head (ar_method req) (incoming w0) cs))"
proof -
  let ?t = "ar_ticket req"
  obtain d w1 where d: "rd_after (net A) (request_deadline (cl_config c)) w = (d, w1)"
    by (cases "rd_after (net A) (request_deadline (cl_config c)) w")
  note st = rd_after_still [OF d]
  have t1: "tidy c w1" using assms st by (auto simp: clean_in_step_def intro: in_step_cong)
  have p1: "progress ?t q w [] [] q w1" by (rule progress_kept [OF hold.R_clocked(2) [OF d]])
  obtain start c2 q2 w2 where s: "dispatch A max_head c q req d w1 = Some (start, c2, q2, w2)" "dispatched max_head c q req w1 start c2 q2 w2"
    using dispatch_returns [OF t1] by blast
  show ?thesis
  proof (cases start)
    case None
    then obtain ms cs where "progress ?t q w1 ms cs q2 w2" "refusal cs" using s(2) by (auto simp: dispatched_def)
    then show ?thesis using s None d st progress_trans [OF p1]
      by (intro exI [of _ c2] exI [of _ q2] exI [of _ w2] exI [of _ ms] exI [of _ cs]) (auto simp: serve_def dispatched_def)
  next
    case (Some start')
    obtain hdata framing off where eq: "start' = \<lparr> start_head = hdata, start_framing = framing, start_tail_offset = off \<rparr>"
      by (cases start') auto
    obtain ms w0 c0 where m: "progress ?t q w1 ms [] q2 w2" and w0: "in_step incoming outgoing (net A) w0" "cl_origin c0 = cl_origin c"
      and ha: "head_answer incoming outgoing max_head c0 (request_params req) w0 (hdata, framing, off) c2 w2"
      using s(2) Some eq by (auto simp: dispatched_def)
    obtain c3 q3 w3 ns cs where b: "stream_body A c2 q2 req start' d w2 = Some (c3, q3, w3)"
        "cl_config c3 = cl_config c2" "cl_origin c3 = cl_origin c2" "T w2 \<le> T w3" "outgoing w3 = outgoing w2"
        "progress ?t q2 w2 ns cs q3 w3" "tidy c3 w3"
        and cs: "cs = [] \<or> response_chunks max_head (ar_method req) (incoming w0) cs"
      using stream_body_returns [OF ha w0(1), of q2 d] unfolding eq by blast
    have pr: "progress ?t q w (ms @ ns) cs q3 w3" using progress_trans [OF p1 progress_trans [OF m b(6)]] by simp
    have "outgoing w3 = outgoing w0 @ request_bytes (cl_origin c) (request_params req)"
      using ha b(5) w0(2) by (simp add: head_answer_def)
    then have "refusal cs \<or> (\<exists>w0. in_step incoming outgoing (net A) w0
          \<and> outgoing w3 = outgoing w0 @ request_bytes (cl_origin c) (request_params req)
          \<and> response_chunks max_head (ar_method req) (incoming w0) cs)"
      using cs w0(1) by (auto simp: refusal_def)
    then show ?thesis using s d st b pr Some
      by (intro exI [of _ c3] exI [of _ q3] exI [of _ w3] exI [of _ "ms @ ns"] exI [of _ cs]) (auto simp: serve_def dispatched_def)
  qed
qed

text \<open>
  The account of a run: \<open>served\<close> are the requests that were served, in that order, \<open>retired\<close> the
  tickets of those that were cancelled while they waited.
\<close>

definition account ::
  "usize \<Rightarrow> AsyncRequest list \<Rightarrow> Control list \<Rightarrow> AsyncRequest list \<Rightarrow> ticket list \<Rightarrow> AsyncRequest list \<Rightarrow> (ticket \<Rightarrow> Chunk list) \<Rightarrow> bool" where
  "account max_head p ms served retired p1 given \<longleftrightarrow>
     subseq (served @ p1) (p @ requests_in ms)
     \<and> mset (map ar_ticket (served @ p1)) + mset retired = mset (map ar_ticket (p @ requests_in ms))
     \<and> (\<forall>tk \<in> set retired. CCancel tk \<in> set ms)
     \<and> (\<forall>t. t \<notin> ar_ticket ` set served \<longrightarrow> (\<exists>n \<le> count_list retired t. given t = replicate n Aborted))
     \<and> (\<forall>req \<in> set served. count_list (map ar_ticket served) (ar_ticket req) = 1 \<longrightarrow> ar_ticket req \<notin> set retired
          \<longrightarrow> reply max_head req (given (ar_ticket req)))"

lemma account_cons:
  assumes nxt: "p @ requests_in ms0 = req # p1"
    and abs: "absorbs (Some (ar_ticket req)) ms1 p1 = (p2, r1)"
    and first: "reply max_head req cs"
    and others: "\<forall>t'. t' \<noteq> ar_ticket req \<longrightarrow> (\<exists>n \<le> count_list r1 t'. given1 t' = replicate n Aborted)"
    and own: "given1 (ar_ticket req) = cs"
    and rest: "account max_head p2 ms2 served r2 p3 given2"
  shows "account max_head p (ms0 @ ms1 @ ms2) (req # served) (r1 @ r2) p3 (\<lambda>t. given1 t @ given2 t)"
proof -
  note k = absorbs_keeps [OF abs]
  have seq: "p @ requests_in (ms0 @ ms1 @ ms2) = req # (p1 @ requests_in ms1) @ requests_in ms2"
    using nxt by (simp add: requests_in_append)
  have s1: "subseq (p2 @ requests_in ms2) ((p1 @ requests_in ms1) @ requests_in ms2)"
    using list_emb_append_mono [OF conjunct1 [OF conjunct2 [OF k]] subseq_order.order_refl] .
  have s2: "subseq (served @ p3) (p2 @ requests_in ms2)" using rest by (simp add: account_def)
  have a: "subseq ((req # served) @ p3) (p @ requests_in (ms0 @ ms1 @ ms2))"
    unfolding seq using subseq_order.order_trans [OF s2 s1] by simp
  have m1: "mset (map ar_ticket p2) + mset r1 = mset (map ar_ticket (p1 @ requests_in ms1))" using k by blast
  have m2: "mset (map ar_ticket (served @ p3)) + mset r2 = mset (map ar_ticket (p2 @ requests_in ms2))"
    using rest by (simp add: account_def)
  have b: "mset (map ar_ticket ((req # served) @ p3)) + mset (r1 @ r2) = mset (map ar_ticket (p @ requests_in (ms0 @ ms1 @ ms2)))"
    unfolding seq using m1 m2 by (simp add: ac_simps)
  have c: "\<forall>tk \<in> set (r1 @ r2). CCancel tk \<in> set (ms0 @ ms1 @ ms2)"
    using k rest by (auto simp: account_def)
  have given2: "\<exists>n \<le> count_list r2 t. given2 t = replicate n Aborted" if "t \<notin> ar_ticket ` set served" for t
    using rest that by (simp add: account_def)
  have d: "\<exists>n \<le> count_list (r1 @ r2) t. given1 t @ given2 t = replicate n Aborted" if nt: "t \<notin> ar_ticket ` set (req # served)" for t
  proof -
    obtain n m where "n \<le> count_list r1 t" "given1 t = replicate n Aborted" "m \<le> count_list r2 t" "given2 t = replicate m Aborted"
      using others [rule_format, of t] given2 [of t] nt by auto
    then show ?thesis by (intro exI [of _ "n + m"]) (simp add: replicate_add)
  qed
  have e: "reply max_head x (given1 (ar_ticket x) @ given2 (ar_ticket x))"
    if x: "x \<in> set (req # served)" "count_list (map ar_ticket (req # served)) (ar_ticket x) = 1" "ar_ticket x \<notin> set (r1 @ r2)" for x
  proof (cases "ar_ticket x = ar_ticket req")
    case True
    then have n: "ar_ticket req \<notin> ar_ticket ` set served" using x(2) by (auto simp: count_list_0_iff)
    then have "x \<notin> set served" using True by (metis imageI)
    then have "x = req" using x(1) by simp
    have "given2 (ar_ticket req) = []"
      using given2 [OF n] x True count_list_0_iff [of r2 "ar_ticket req"] by auto
    note this \<open>x = req\<close>
    then show ?thesis using first own by simp
  next
    case False
    then have "given1 (ar_ticket x) = []" using others x(3) count_list_0_iff [of r1 "ar_ticket x"] by auto
    moreover have "reply max_head x (given2 (ar_ticket x))" using rest x False by (auto simp: account_def)
    ultimately show ?thesis by simp
  qed
  show ?thesis unfolding account_def using a b c d e by blast
qed

lemma account_nil: "p @ requests_in ms = p1 \<Longrightarrow> account max_head p ms [] [] p1 (\<lambda>_. [])"
  by (auto simp: account_def)

lemma requests_in_length: "length (requests_in ms) \<le> length ms"
  by (induction ms rule: requests_in.induct) auto

lemma reader_run_returns:
  assumes "tidy c w" "length (cq_pending q) + stock w = k"
  shows "\<exists>c' q1 w1 ms served retired given. reader_run A max_head c q w = Some (c', q1, w1) \<and> tidy c' w1
     \<and> cl_config c' = cl_config c \<and> cl_origin c' = cl_origin c \<and> taken w1 = taken w @ ms
     \<and> (\<forall>t. delivered w1 t = delivered w t @ given t)
     \<and> account max_head (cq_pending q) ms served retired (cq_pending q1) given"
  using assms
proof (induction k arbitrary: c q w rule: less_induct)
  case (less k)
  obtain r q1 w1 ms0 where n: "next_request A q w = Some (r, q1, w1)" "still w w1" "taken w1 = taken w @ ms0" "delivered w1 = delivered w"
      "stock w1 + length ms0 \<le> stock w"
      "cq_pending q @ requests_in ms0 = (case r of None \<Rightarrow> cq_pending q1 | Some req \<Rightarrow> req # cq_pending q1)"
    using next_request_returns [OF refl, of q w] by blast
  have t1: "tidy c w1" using less.prems(1) n(2) by (auto simp: clean_in_step_def still_def intro: in_step_cong)
  show ?case
  proof (cases r)
    case None
    then have "reader_run A max_head c q w = Some (c, q1, w1)" by (subst reader_run.simps) (simp add: n(1))
    moreover have "account max_head (cq_pending q) ms0 [] [] (cq_pending q1) (\<lambda>_. [])" using n(6) None account_nil by simp
    ultimately show ?thesis using t1 n(3,4)
      by (intro exI [of _ c] exI [of _ q1] exI [of _ w1] exI [of _ ms0] exI [of _ "[]"] exI [of _ "\<lambda>_. []"]) auto
  next
    case (Some req)
    let ?t = "ar_ticket req"
    obtain c2 q2 w2 ms1 cs where s: "serve A max_head c q1 req w1 = Some (c2, q2, w2)" "cl_config c2 = cl_config c" "cl_origin c2 = cl_origin c"
        "tidy c2 w2" and p: "progress ?t q1 w1 ms1 cs q2 w2"
      and rep: "reply max_head req cs"
      using serve_returns [OF t1, of max_head q1 req] unfolding reply_def by blast
    let ?w3 = "drop_request A ?t w2"
    have q3: "quiet w2 ?w3" by (rule stores(3))
    have t3: "tidy c2 ?w3" using s(4) q3 by (auto simp: clean_in_step_def calm_def intro: in_step_cong)
    obtain r1 where r1: "absorbs (Some ?t) ms1 (cq_pending q1) = (cq_pending q2, r1)"
        "\<forall>t'. t' \<noteq> ?t \<longrightarrow> (\<exists>n \<le> count_list r1 t'. delivered w2 t' = delivered w1 t' @ replicate n Aborted)"
      using p unfolding progress_def by blast
    have pm: "taken w2 = taken w1 @ ms1" "stock w2 + length ms1 \<le> stock w1" "delivered w2 ?t = delivered w1 ?t @ cs"
      using p by (simp_all add: progress_def)
    have "length (cq_pending q2) \<le> length (cq_pending q1 @ requests_in ms1)"
      using absorbs_keeps [OF r1(1)] by (intro list_emb_length) blast
    moreover have "length (cq_pending q @ requests_in ms0) = Suc (length (cq_pending q1))" using n(6) Some by simp
    ultimately have "length (cq_pending q2) + stock ?w3 < k"
      using requests_in_length [of ms0] requests_in_length [of ms1] n(5) pm(2) q3 less.prems(2) by (simp add: calm_def)
    from less.IH [OF this t3 refl] obtain c4 q4 w4 ms2 served retired given
      where i: "reader_run A max_head c2 q2 ?w3 = Some (c4, q4, w4)" "tidy c4 w4" "cl_config c4 = cl_config c2" "cl_origin c4 = cl_origin c2"
        "taken w4 = taken ?w3 @ ms2" "\<forall>t. delivered w4 t = delivered ?w3 t @ given t"
        "account max_head (cq_pending q2) ms2 served retired (cq_pending q4) given" by blast
    obtain given1 where g: "\<forall>t. delivered w2 t = delivered w1 t @ given1 t"
        "\<forall>t'. t' \<noteq> ?t \<longrightarrow> (\<exists>n \<le> count_list r1 t'. given1 t' = replicate n Aborted)" "given1 ?t = cs"
    proof
      let ?g = "\<lambda>t. drop (length (delivered w1 t)) (delivered w2 t)"
      show "\<forall>t'. t' \<noteq> ?t \<longrightarrow> (\<exists>n \<le> count_list r1 t'. ?g t' = replicate n Aborted)" using r1(2) by fastforce
      show "?g ?t = cs" using pm(3) by simp
      show "\<forall>t. delivered w2 t = delivered w1 t @ ?g t"
      proof
        fix t show "delivered w2 t = delivered w1 t @ ?g t"
          using r1(2) pm(3) by (cases "t = ?t") (simp, fastforce)
      qed
    qed
    have "cq_pending q @ requests_in ms0 = req # cq_pending q1" using n(6) Some by simp
    from account_cons [OF this r1(1) rep g(2,3) i(7)]
    have "account max_head (cq_pending q) (ms0 @ ms1 @ ms2) (req # served) (r1 @ retired) (cq_pending q4) (\<lambda>t. given1 t @ given t)" .
    moreover have "reader_run A max_head c q w = Some (c4, q4, w4)"
      using i(1) by (subst reader_run.simps) (simp add: n(1) Some s(1))
    moreover have "taken w4 = taken w @ ms0 @ ms1 @ ms2" "\<forall>t. delivered w4 t = delivered w t @ given1 t @ given t"
      using i(5,6) q3 pm(1) n(3,4) g(1) by (simp_all add: calm_def)
    ultimately show ?thesis using i(2-4) s(2,3)
      by (intro exI [of _ c4] exI [of _ q4] exI [of _ w4] exI [of _ "ms0 @ ms1 @ ms2"] exI [of _ "req # served"]
          exI [of _ "r1 @ retired"] exI [of _ "\<lambda>t. given1 t @ given t"]) simp
  qed
qed

end

section \<open>Properties\<close>



text \<open>A client that is connected, with one request on its way and then its cancel.\<close>

definition sample_async :: AsyncRequest where
  "sample_async = \<lparr> ar_method = Get, ar_path = bs ''/x'', ar_query = None, ar_body = None, ar_headers = [], ar_ticket = 5 \<rparr>"

definition sample_callers :: "Control list \<Rightarrow> sworld \<Rightarrow> aworld" where
  "sample_callers ms s = \<lparr> aw_net = s, aw_ctl = ms, aw_taken = [], aw_rings = (\<lambda>_. []), aw_busy = (\<lambda>_. 1), aw_down = False,
     aw_cancel_any = False, aw_gone = (\<lambda>_. False), aw_cancelled = (\<lambda>_. False), aw_started = {} \<rparr>"

lemma sample_client:
  obtains c s1 where "Client_connect lifted_net sample_url Config_default (sample_callers ms (sample_world [])) = (Inr c, sample_callers ms s1)"
    "cl_config c = Config_default"
proof -
  have u: "Url_parse sample_url = Inr \<lparr> url_scheme = Http, url_host = bs ''a'', url_port = None, url_path = bs ''/'',
      url_query = None, url_fragment = None \<rparr>" unfolding sample_url_def by code_simp
  let ?w = "sample_callers ms (sample_world [])"
  have "\<exists>d. connect_deadline lifted_net Config_default ?w = (d, ?w)"
    by (cases "connect_timeout Config_default")
      (simp_all add: connect_deadline_def Deadline_after_def lifted_net_def on_net_def scripted_def sample_callers_def)
  then obtain d where d: "connect_deadline lifted_net Config_default ?w = (d, ?w)" by blast
  have "\<exists>c s1. Client_connect lifted_net sample_url Config_default ?w = (Inr c, sample_callers ms s1) \<and> cl_config c = Config_default"
    by (simp add: Client_connect_def u Config_default_ok d)
      (simp add: apply_timeouts_def lifted_net_def on_net_def scripted_def sample_callers_def)
  then show thesis using that by blast
qed

lemma net_ascripted [simp]: "net ascripted = lifted_net"
  by (simp add: ascripted_def)

lemma sample_serve:
  "serve ascripted 64 c ControlQueue_new sample_async (sample_callers [CCancel 5] s1) = Some (c, ControlQueue_new,
     (sample_callers [] s1)\<lparr> aw_taken := [CCancel 5], aw_busy := (\<lambda>_. 1)(5 := 0), aw_rings := (\<lambda>_. [])(5 := [Aborted]) \<rparr>)"
  if "request_deadline (cl_config c) = None"
proof -
  have "poll_cancel ascripted ControlQueue_new (Some 5) (sample_callers [CCancel 5] s1)
      = Some (True, ControlQueue_new, (sample_callers [] s1)\<lparr> aw_taken := [CCancel 5] \<rparr>)"
    unfolding poll_cancel_def
    by (subst poll_cancel_loop.simps, simp add: is_shutting_down_def ascripted_def sample_callers_def aw_pop_def addressed_def CANCEL_ANY_def)
      (subst poll_cancel_loop.simps, simp add: is_shutting_down_def ascripted_def sample_callers_def aw_pop_def)
  moreover have "send_terminal ascripted 5 Aborted ((sample_callers [] s1)\<lparr> aw_taken := [CCancel 5] \<rparr>) = Some
     ((sample_callers [] s1)\<lparr> aw_taken := [CCancel 5], aw_busy := (\<lambda>_. 1)(5 := 0), aw_rings := (\<lambda>_. [])(5 := [Aborted]) \<rparr>)"
    unfolding send_terminal_def
    by (subst send_inner.simps, simp add: blocked_reason_def ascripted_def sample_callers_def aw_push_def SPIN_LIMIT_def)
      (subst send_inner.simps, simp add: blocked_reason_def ascripted_def sample_callers_def aw_push_def)
  ultimately show ?thesis using that
    by (simp add: serve_def rd_after_def dispatch_def dispatch_terminal_def sample_async_def)
qed




text \<open>
  A caller that has cancelled receives no terminator once its head is there. When the head of
  a response is to be delivered and the request's cancelled flag is set, which \<^verbatim>\<open>StreamHandle::cancel\<close>
  sets before it sends its message, the service ends at once: neither the head nor \<^verbatim>\<open>Aborted\<close> is
  pushed, the connection is marked for reconnection, and the cancel message is left for later.
\<close>

theorem cancelled_head_is_silent:
  assumes "rings A T incoming outgoing delivered taken stock patience"
    and "load_shutting_down A w = (False, w1)" "load_cancelled A (ar_ticket req) w1 = (True, w2)"
  shows "stream_body A c q req start d w = Some (c\<lparr> cl_dirty := True \<rparr>, q, w2) \<and> delivered w2 = delivered w \<and> taken w2 = taken w"
proof -
  have "sink_send A (ar_ticket req) (HeadChunk s hs) w = Some (Inl ConsumerGone, w2)" for s hs
    unfolding sink_send_def by (subst send_inner.simps) (simp add: blocked_reason_def assms(2,3))
  then have "stream_body A c q req start d w = Some (c\<lparr> cl_dirty := True \<rparr>, q, w2)"
    by (simp add: stream_body_def Let_def)
  moreover have "delivered w2 = delivered w" "taken w2 = taken w"
    using rings.loads(1) [OF assms(1,2)] rings.loads(4) [OF assms(1,3)] by (auto simp: calm_def)
  ultimately show ?thesis by simp
qed

theorem cancelled_head_is_silent_witness:
  "\<forall>c. \<exists>w1. stream_body ascripted c ControlQueue_new (queued_request 7) \<lparr> start_head = \<lparr> hd_version = Http11, hd_status = StatusCode 200,
       hd_buf = [], hd_ranges = [], hd_header_count = 0 \<rparr>, start_framing = NoBody, start_tail_offset = 0 \<rparr> None
       (queued_world\<lparr> aw_cancelled := (\<lambda>t. t = 7) \<rparr>) = Some (c\<lparr> cl_dirty := True \<rparr>, ControlQueue_new, w1) \<and> aw_rings w1 7 = []"
proof -
  let ?w = "queued_world\<lparr> aw_cancelled := (\<lambda>t. t = 7) \<rparr>"
  have l: "load_shutting_down ascripted ?w = (False, ?w)" "load_cancelled ascripted (ar_ticket (queued_request 7)) ?w = (True, ?w)"
    by (simp_all add: ascripted_def queued_world_def queued_request_def)
  have "aw_rings ?w 7 = []" by (simp add: queued_world_def)
  with cancelled_head_is_silent [OF scripted_rings.rings_axioms l] show ?thesis by blast
qed

end
