(* ===== verification/Admission.thy ===== *)
theory Admission
  imports Prelude
begin

text \<open>
  \<^verbatim>\<open>xibalba-client/src/admission.rs\<close>: the counter that bounds the requests in flight. The code is
  run by any number of threads at once; each of its atomic operations is one step of the
  relation \<open>adm_step\<close>, whose interleavings are the executions. A thread inside \<^verbatim>\<open>try_admit\<close> is at
  the top of its loop with the value it last read. \<open>live\<close> counts the permits that exist (it is
  not in the code); a permit can be dropped by whatever thread it has been moved to.
\<close>

section \<open>Definitions\<close>

definition DEFAULT_MAX_OUTSTANDING :: usize where
  "DEFAULT_MAX_OUTSTANDING = 64"

record 't Admission =
  adm_outstanding :: usize
  adm_max :: usize
  adm_calls :: "'t \<Rightarrow> usize option"
  adm_live :: nat

definition Admission_new :: "usize \<Rightarrow> 't Admission" where
  "Admission_new limit = \<lparr> adm_outstanding = 0, adm_max = limit, adm_calls = (\<lambda>_. None), adm_live = 0 \<rparr>"

text \<open>\<^verbatim>\<open>fetch_sub(1)\<close> wraps.\<close>

definition wrapping_dec :: "usize \<Rightarrow> usize" where
  "wrapping_dec n = (if n = 0 then 2 ^ 64 - 1 else n - 1)"

text \<open>
  The loop body of \<^verbatim>\<open>try_admit\<close> after a load of \<open>current\<close>: it refuses, or it attempts the exchange.
  The weak exchange may fail although the value has not changed, which \<open>spurious\<close> says.
\<close>

datatype admit_outcome = Refused | Admitted | Retry usize

definition try_admit_round :: "usize \<Rightarrow> usize \<Rightarrow> usize \<Rightarrow> bool \<Rightarrow> usize \<times> admit_outcome" where
  "try_admit_round limit outstanding current spurious =
     (if current \<ge> limit then (outstanding, Refused)
      else if outstanding = current \<and> \<not> spurious then (current + 1, Admitted)
      else (outstanding, Retry outstanding))"

datatype 't adm_event = Load 't | Round 't admit_outcome | DropPermit

inductive adm_step :: "'t Admission \<Rightarrow> 't adm_event \<Rightarrow> 't Admission \<Rightarrow> bool" where
  adm_load: "adm_calls s t = None \<Longrightarrow>
    adm_step s (Load t) (s\<lparr> adm_calls := (adm_calls s)(t \<mapsto> adm_outstanding s) \<rparr>)"
| adm_round: "adm_calls s t = Some current \<Longrightarrow>
    try_admit_round (adm_max s) (adm_outstanding s) current spurious = (n, out) \<Longrightarrow>
    adm_step s (Round t out)
      (s\<lparr> adm_outstanding := n,
          adm_calls := (adm_calls s)(t := (case out of Retry c \<Rightarrow> Some c | _ \<Rightarrow> None)),
          adm_live := adm_live s + (if out = Admitted then 1 else 0) \<rparr>)"
| adm_drop: "0 < adm_live s \<Longrightarrow>
    adm_step s DropPermit (s\<lparr> adm_outstanding := wrapping_dec (adm_outstanding s), adm_live := adm_live s - 1 \<rparr>)"

inductive_cases adm_stepE: "adm_step s e s'"

text \<open>Executions, with the events so far.\<close>

inductive adm_run :: "usize \<Rightarrow> 't adm_event list \<Rightarrow> 't Admission \<Rightarrow> bool" for limit where
  adm_start: "adm_run limit [] (Admission_new limit)"
| adm_next: "adm_run limit es s \<Longrightarrow> adm_step s e s' \<Longrightarrow> adm_run limit (es @ [e]) s'"

section \<open>The counter is exact\<close>

definition adm_inv :: "usize \<Rightarrow> 't Admission \<Rightarrow> bool" where
  "adm_inv limit s \<longleftrightarrow> adm_max s = limit \<and> adm_outstanding s = adm_live s \<and> adm_live s \<le> limit
     \<and> (\<forall>t c. adm_calls s t = Some c \<longrightarrow> c \<le> limit)"

lemma adm_inv_step:
  assumes "adm_step s e s'" "adm_inv limit s"
  shows "adm_inv limit s'"
  using assms(1)
proof cases
  case (adm_round t current spurious n out)
  have "n = adm_live s' \<and> n \<le> limit \<and> (\<forall>c. out = Retry c \<longrightarrow> c \<le> limit)"
    using adm_round assms(2) by (auto simp: adm_inv_def try_admit_round_def split: if_splits)
  then show ?thesis using adm_round assms(2) by (auto simp: adm_inv_def split: if_splits admit_outcome.splits)
qed (use assms(2) in \<open>auto simp: adm_inv_def wrapping_dec_def split: if_splits\<close>)

lemma adm_run_inv: "adm_run limit es s \<Longrightarrow> adm_inv limit s"
  by (induction rule: adm_run.induct) (auto simp: adm_inv_def Admission_new_def dest: adm_inv_step)

text \<open>The permits that exist: one for each admission, less the drops.\<close>

definition admissions :: "'t adm_event list \<Rightarrow> nat" where
  "admissions es = length (filter (\<lambda>e. \<exists>t. e = Round t Admitted) es)"

definition drops :: "'t adm_event list \<Rightarrow> nat" where
  "drops es = length (filter (\<lambda>e. e = DropPermit) es)"

lemma adm_run_live: "adm_run limit es s \<Longrightarrow> admissions es = adm_live s + drops es"
proof (induction rule: adm_run.induct)
  case (adm_next es s e s')
  from adm_next.hyps(2) adm_next.IH show ?case by cases (auto simp: admissions_def drops_def)
qed (simp add: admissions_def drops_def Admission_new_def)

section \<open>Properties\<close>

text \<open>
  C35: in every interleaving of any number of threads the counter is exactly the number of
  permits that exist, the admissions less the drops, and never exceeds the limit, so the
  decrement never wraps; a call is refused only when the value it last read was the limit
  itself, and every call that holds a value below the limit is admitted by its next round if
  nothing intervened and the exchange does not fail spuriously.
\<close>

theorem admission_exact:
  assumes "adm_run limit es s"
  shows "adm_outstanding s = admissions es - drops es \<and> adm_outstanding s \<le> limit
    \<and> (0 < adm_live s \<longrightarrow> wrapping_dec (adm_outstanding s) = adm_live s - 1)
    \<and> (\<forall>t s'. adm_step s (Round t Refused) s' \<longrightarrow> adm_calls s t = Some limit)
    \<and> (\<forall>t. adm_calls s t = Some (adm_outstanding s) \<and> adm_outstanding s < limit \<longrightarrow>
         (\<exists>s'. adm_step s (Round t Admitted) s' \<and> adm_outstanding s' = adm_outstanding s + 1))"
proof -
  have inv: "adm_inv limit s" and l: "admissions es = adm_live s + drops es"
    using assms by (rule adm_run_inv, rule adm_run_live)
  have "adm_calls s t = Some limit" if "adm_step s (Round t Refused) s'" for t s'
    using that inv by cases (fastforce simp: adm_inv_def try_admit_round_def split: if_splits)
  moreover have "\<exists>s'. adm_step s (Round t Admitted) s' \<and> adm_outstanding s' = adm_outstanding s + 1"
    if "adm_calls s t = Some (adm_outstanding s)" "adm_outstanding s < limit" for t
  proof -
    have "try_admit_round (adm_max s) (adm_outstanding s) (adm_outstanding s) False = (adm_outstanding s + 1, Admitted)"
      using that inv by (simp add: try_admit_round_def adm_inv_def)
    from adm_round [OF that(1) this] show ?thesis by (intro exI conjI) (assumption, simp)
  qed
  ultimately show ?thesis using inv l by (auto simp: adm_inv_def wrapping_dec_def)
qed

theorem admission_exact_witness:
  "\<exists>es s. adm_run 1 es s \<and> es \<noteq> [] \<and> adm_calls s (7 :: nat) = None \<and> adm_outstanding s = 1 \<and> adm_outstanding s \<le> 1"
proof -
  let ?s0 = "Admission_new 1 :: nat Admission"
  let ?s1 = "?s0\<lparr> adm_calls := (adm_calls ?s0)(7 \<mapsto> adm_outstanding ?s0) \<rparr>"
  have 1: "adm_step ?s0 (Load 7) ?s1" by (rule adm_load) (simp add: Admission_new_def)
  have c: "adm_calls ?s1 7 = Some 0" "try_admit_round (adm_max ?s1) (adm_outstanding ?s1) 0 False = (1, Admitted)"
    by (simp_all add: Admission_new_def try_admit_round_def)
  have r: "adm_run 1 [Load 7, Round 7 Admitted] (?s1\<lparr> adm_outstanding := 1,
      adm_calls := (adm_calls ?s1)(7 := None), adm_live := 1 \<rparr>)"
    using adm_next [OF adm_next [OF adm_start 1] adm_round [OF c]] by (simp add: Admission_new_def)
  from admission_exact [OF r] show ?thesis using r by (intro exI conjI) (assumption, simp_all)
qed

end
