(* ===== verification/Async_Client.thy ===== *)
theory Async_Client
  imports Control Admission Client
begin

text \<open>
  \<^verbatim>\<open>xibalba-client/src/async_client.rs\<close> and the consumer's half of \<^verbatim>\<open>delivery.rs\<close>: what a caller does.
  The control ring and the chunk rings, the flags that the reader thread shares and the thread
  itself are operations of the environment. The client is driven by one owner, as its documentation
  says, so that a call of \<^verbatim>\<open>try_admit\<close> is not interleaved with another; permits can still be
  dropped by the reader at any time between calls.
\<close>

section \<open>Definitions\<close>

definition CHUNK_RING_CAP :: usize where "CHUNK_RING_CAP = 32"
definition CONTROL_RING_CAP :: usize where "CONTROL_RING_CAP = DEFAULT_MAX_OUTSTANDING * 2"

record 'w callers =
  cw_net :: "'w env"
  control_push :: "'w \<Rightarrow> Control \<Rightarrow> bool \<times> 'w"
  control_push_block :: "'w \<Rightarrow> Control \<Rightarrow> bool \<times> 'w"
  chunk_pop :: "ticket \<Rightarrow> 'w \<Rightarrow> Chunk option \<times> 'w"
  chunk_pop_block :: "ticket \<Rightarrow> 'w \<Rightarrow> Chunk option \<times> 'w"
  store_cancelled :: "ticket \<Rightarrow> 'w \<Rightarrow> bool \<Rightarrow> 'w"
  store_any :: "'w \<Rightarrow> bool \<Rightarrow> 'w"
  store_shutting_down :: "'w \<Rightarrow> bool \<Rightarrow> 'w"
  store_alive :: "ticket \<Rightarrow> 'w \<Rightarrow> bool \<Rightarrow> 'w"
  load_started :: "ticket \<Rightarrow> 'w \<Rightarrow> bool \<times> 'w"
  spawn_reader :: "Client \<Rightarrow> 'w \<Rightarrow> (io_error + unit) \<times> 'w"
  join_reader :: "'w \<Rightarrow> 'w"

text \<open>
  The handle, the chunk stream and the liveness guard of a request are the request's ticket, by
  which its ring and flags are named.
\<close>

record StreamHandle =
  sh_ticket :: ticket

record AsyncClient =
  ac_control :: bool
  ac_join :: bool
  ac_next_ticket :: u64
  ac_outstanding :: usize
  ac_max :: usize

definition ac_connect :: "'w callers \<Rightarrow> bytes \<Rightarrow> Config \<Rightarrow> 'w \<Rightarrow> (Error + AsyncClient) \<times> 'w" where
  "ac_connect P url config w =
     (case Client_connect (cw_net P) url config w of
        (Inl e, w) \<Rightarrow> (Inl e, w)
      | (Inr client, w) \<Rightarrow>
          (case spawn_reader P client w of
             (Inl e, w) \<Rightarrow> (Inl (Connection (OtherConnection (''failed to spawn reader thread: '' @ io_display e))), w)
           | (Inr _, w) \<Rightarrow>
               (Inr \<lparr> ac_control = True, ac_join = True, ac_next_ticket = 0, ac_outstanding = 0,
                      ac_max = DEFAULT_MAX_OUTSTANDING \<rparr>, w)))"

definition control :: "AsyncClient \<Rightarrow> Error + unit" where
  "control self = (if ac_control self then Inr () else Inl (Connection ReaderGone))"

text \<open>\<^verbatim>\<open>Admission::try_admit\<close> without interference, and the drop of a permit.\<close>

definition ac_try_admit :: "AsyncClient \<Rightarrow> AsyncClient option" where
  "ac_try_admit self =
     (case try_admit_round (ac_max self) (ac_outstanding self) (ac_outstanding self) False of
        (n, Admitted) \<Rightarrow> Some (self\<lparr> ac_outstanding := n \<rparr>)
      | _ \<Rightarrow> None)"

definition drop_permit :: "AsyncClient \<Rightarrow> AsyncClient" where
  "drop_permit self = self\<lparr> ac_outstanding := wrapping_dec (ac_outstanding self) \<rparr>"

definition submit ::
  "'w callers \<Rightarrow> AsyncClient \<Rightarrow> Method \<Rightarrow> bytes \<Rightarrow> bytes option \<Rightarrow> bytes option \<Rightarrow> header_list \<Rightarrow> 'w
   \<Rightarrow> (Error + StreamHandle) \<times> AsyncClient \<times> 'w" where
  "submit P self method path query body hs w =
     (case validate_extra_headers hs of
        Inl e \<Rightarrow> (Inl (Serialize e), self, w)
      | Inr _ \<Rightarrow>
          (case ac_try_admit self of
             None \<Rightarrow> (Inl (Connection TooManyRequests), self, w)
           | Some self \<Rightarrow>
               (let tk = ac_next_ticket self;
                    self = self\<lparr> ac_next_ticket := tk + 1 \<rparr>;
                    request = \<lparr> ar_method = method, ar_path = path, ar_query = query, ar_body = body,
                                ar_headers = hs, ar_ticket = tk \<rparr> in
                case control self of
                  Inl e \<Rightarrow> (Inl e, drop_permit self, w)
                | Inr _ \<Rightarrow>
                    (case control_push P w (CRequest request) of
                       (False, w) \<Rightarrow> (Inl (Connection TooManyRequests), drop_permit self, w)
                     | (True, w) \<Rightarrow> (Inr \<lparr> sh_ticket = tk \<rparr>, self, w)))))"

definition ac_cancel :: "'w callers \<Rightarrow> AsyncClient \<Rightarrow> 'w \<Rightarrow> (Error + unit) \<times> 'w" where
  "ac_cancel P self w =
     (let w = store_any P w True in
      case control self of
        Inl e \<Rightarrow> (Inl e, w)
      | Inr _ \<Rightarrow> (Inr (), snd (control_push P w (CCancel CANCEL_ANY))))"

definition ac_drop :: "'w callers \<Rightarrow> AsyncClient \<Rightarrow> 'w \<Rightarrow> AsyncClient \<times> 'w" where
  "ac_drop P self w =
     (let w = store_shutting_down P w True;
          w = (if ac_control self then snd (control_push_block P w (CCancel CANCEL_ANY)) else w);
          self = self\<lparr> ac_control := False \<rparr> in
      if ac_join self then (self\<lparr> ac_join := False \<rparr>, join_reader P w) else (self, w))"

definition handle_cancel :: "'w callers \<Rightarrow> StreamHandle \<Rightarrow> 'w \<Rightarrow> (Error + unit) \<times> 'w" where
  "handle_cancel P self w =
     (let w = store_cancelled P (sh_ticket self) w True in
      (Inr (), snd (control_push P w (CCancel (sh_ticket self)))))"

definition has_started :: "'w callers \<Rightarrow> StreamHandle \<Rightarrow> 'w \<Rightarrow> bool \<times> 'w" where
  "has_started P self w = load_started P (sh_ticket self) w"

definition try_next :: "'w callers \<Rightarrow> StreamHandle \<Rightarrow> 'w \<Rightarrow> Chunk option \<times> 'w" where
  "try_next P self w = chunk_pop P (sh_ticket self) w"

definition next_block :: "'w callers \<Rightarrow> StreamHandle \<Rightarrow> 'w \<Rightarrow> Chunk option \<times> 'w" where
  "next_block P self w = chunk_pop_block P (sh_ticket self) w"

text \<open>\<^verbatim>\<open>into_stream\<close> moves the consumer and its guard; dropping either of them clears the flag.\<close>

definition drop_consumer :: "'w callers \<Rightarrow> StreamHandle \<Rightarrow> 'w \<Rightarrow> 'w" where
  "drop_consumer P self w = store_alive P (sh_ticket self) w False"

section \<open>A caller at work\<close>

text \<open>The calls of the owner, with the drops of permits by the reader in between.\<close>

datatype call =
    Submit Method bytes "bytes option" "bytes option" header_list
  | Cancel
  | HandleCancel ticket
  | PermitDropped

fun make_call :: "'w callers \<Rightarrow> call \<Rightarrow> AsyncClient \<times> 'w \<Rightarrow> AsyncClient \<times> 'w" where
  "make_call P (Submit m p q b hs) (self, w) = snd (submit P self m p q b hs w)"
| "make_call P Cancel (self, w) = (self, snd (ac_cancel P self w))"
| "make_call P (HandleCancel t) (self, w) = (self, snd (handle_cancel P \<lparr> sh_ticket = t \<rparr> w))"
| "make_call P PermitDropped (self, w) = (if ac_outstanding self = 0 then self else drop_permit self, w)"

definition make_calls :: "'w callers \<Rightarrow> call list \<Rightarrow> AsyncClient \<times> 'w \<Rightarrow> AsyncClient \<times> 'w" where
  "make_calls P cs s = foldl (\<lambda>s c. make_call P c s) s cs"

text \<open>\<open>pushed w\<close> are the messages that the ring has accepted; the flags push nothing.\<close>

locale control_ring =
  fixes P :: "'w callers" and pushed :: "'w \<Rightarrow> Control list"
  assumes push_accepted: "control_push P w m = (True, w1) \<Longrightarrow> pushed w1 = pushed w @ [m]"
    and push_refused: "control_push P w m = (False, w1) \<Longrightarrow> pushed w1 = pushed w"
    and flags_push_nothing: "pushed (store_any P w b) = pushed w" "pushed (store_cancelled P t w b) = pushed w"
begin

text \<open>Tickets below the next one, each used once; the count within its limit.\<close>

definition ticket_inv :: "AsyncClient \<Rightarrow> 'w \<Rightarrow> bool" where
  "ticket_inv self w \<longleftrightarrow> ac_outstanding self \<le> ac_max self
     \<and> distinct (map ar_ticket (requests_in (pushed w)))
     \<and> list_all (\<lambda>r. unat (ar_ticket r) < unat (ac_next_ticket self)) (requests_in (pushed w))"

lemma push_cancel: "requests_in (pushed (snd (control_push P w (CCancel t)))) = requests_in (pushed w)"
proof -
  obtain b w1 where b: "control_push P w (CCancel t) = (b, w1)" by (cases "control_push P w (CCancel t)")
  show ?thesis using b push_accepted push_refused by (cases b) (auto simp: requests_in_append)
qed

lemma requests_snoc: "requests_in (ms @ [CRequest r]) = requests_in ms @ [r]"
  by (simp add: requests_in_append)

lemma unat_suc: "unat (k :: u64) + 1 < 2 ^ 64 \<Longrightarrow> unat (k + 1) = unat k + 1"
  by (simp add: unat_word_ariths)

lemma submit_result:
  assumes "submit P self m p q b hs w = (r, self', w1)" "ticket_inv self w" "unat (ac_next_ticket self) + 1 < 2 ^ 64"
  shows "ticket_inv self' w1 \<and> ac_max self' = ac_max self
    \<and> (ac_next_ticket self' = ac_next_ticket self \<or> ac_next_ticket self' = ac_next_ticket self + 1)
    \<and> (case r of
         Inr h \<Rightarrow> sh_ticket h = ac_next_ticket self \<and> ac_outstanding self' = ac_outstanding self + 1
           \<and> pushed w1 = pushed w @ [CRequest \<lparr> ar_method = m, ar_path = p, ar_query = q, ar_body = b, ar_headers = hs, ar_ticket = sh_ticket h \<rparr>]
       | Inl e \<Rightarrow> pushed w1 = pushed w \<and> ac_outstanding self' = ac_outstanding self)"
proof -
  define full where "full = (ac_outstanding self \<ge> ac_max self)"
  have adm: "ac_try_admit self = (if full then None else Some (self\<lparr> ac_outstanding := ac_outstanding self + 1 \<rparr>))"
    by (simp add: ac_try_admit_def try_admit_round_def full_def)
  have nxt: "unat (ac_next_ticket self + 1) = unat (ac_next_ticket self) + 1" by (rule unat_suc [OF assms(3)])
  let ?self = "self\<lparr> ac_outstanding := ac_outstanding self + 1, ac_next_ticket := ac_next_ticket self + 1 \<rparr>"
  have released: "drop_permit ?self = self\<lparr> ac_next_ticket := ac_next_ticket self + 1 \<rparr>"
    by (simp add: drop_permit_def wrapping_dec_def)
  have keep: "ticket_inv (self\<lparr> ac_next_ticket := ac_next_ticket self + 1 \<rparr>) w"
    using assms(2) nxt by (auto simp: ticket_inv_def list_all_iff)
  let ?r = "\<lparr> ar_method = m, ar_path = p, ar_query = q, ar_body = b, ar_headers = hs, ar_ticket = ac_next_ticket self \<rparr>"
  obtain ok w2 where ok: "control_push P w (CRequest ?r) = (ok, w2)" by (cases "control_push P w (CRequest ?r)")
  have eq: "submit P self m p q b hs w = (case validate_extra_headers hs of
      Inl e \<Rightarrow> (Inl (Serialize e), self, w)
    | Inr _ \<Rightarrow> if full then (Inl (Connection TooManyRequests), self, w)
        else if \<not> ac_control self then (Inl (Connection ReaderGone), self\<lparr> ac_next_ticket := ac_next_ticket self + 1 \<rparr>, w)
        else if ok then (Inr \<lparr> sh_ticket = ac_next_ticket self \<rparr>, ?self, w2)
        else (Inl (Connection TooManyRequests), self\<lparr> ac_next_ticket := ac_next_ticket self + 1 \<rparr>, w2))"
    using ok released by (cases ok) (simp_all add: submit_def adm Let_def control_def split: sum.split)
  consider e where "r = Inl e" "self' = self" "w1 = w"
    | e where "r = Inl e" "self' = self\<lparr> ac_next_ticket := ac_next_ticket self + 1 \<rparr>" "pushed w1 = pushed w"
    | "r = Inr \<lparr> sh_ticket = ac_next_ticket self \<rparr>" "self' = ?self" "\<not> full" "pushed w1 = pushed w @ [CRequest ?r]"
  proof (cases "validate_extra_headers hs")
    case (Inl e)
    then have "r = Inl (Serialize e)" "self' = self" "w1 = w" using assms(1) eq by auto
    then show ?thesis by (rule that(1))
  next
    case (Inr u)
    show ?thesis
    proof (cases "full \<or> \<not> ac_control self")
      case True
      then show ?thesis using assms(1) eq Inr that(1,2) by (cases full) auto
    next
      case False
      show ?thesis
      proof (cases ok)
        case True
        then have "pushed w2 = pushed w @ [CRequest ?r]" using ok push_accepted by simp
        then show ?thesis using assms(1) eq Inr False True that(3) by simp
      next
        case no: False
        then have "pushed w2 = pushed w" using ok push_refused by simp
        then have "r = Inl (Connection TooManyRequests)" "self' = self\<lparr> ac_next_ticket := ac_next_ticket self + 1 \<rparr>" "pushed w1 = pushed w"
          using assms(1) eq Inr False no by auto
        then show ?thesis by (rule that(2))
      qed
    qed
  qed
  then show ?thesis
  proof cases
    case 1
    then show ?thesis using assms(2) by simp
  next
    case 2
    then show ?thesis using keep by (simp add: ticket_inv_def)
  next
    case 3
    have "ac_next_ticket self \<notin> ar_ticket ` set (requests_in (pushed w))"
      using assms(2) by (auto simp: ticket_inv_def list_all_iff)
    moreover have "ac_outstanding self + 1 \<le> ac_max self" using 3(3) by (simp add: full_def)
    ultimately have "ticket_inv self' w1"
      using 3 assms(2) nxt by (auto simp: ticket_inv_def list_all_iff requests_snoc)
    then show ?thesis using 3 by simp
  qed
qed

lemma make_call_inv:
  assumes "ticket_inv self w" "unat (ac_next_ticket self) + 1 < 2 ^ 64" "make_call P c (self, w) = (self', w1)"
  shows "ticket_inv self' w1 \<and> ac_max self' = ac_max self \<and> unat (ac_next_ticket self') \<le> unat (ac_next_ticket self) + 1"
proof (cases c)
  case (Submit m p q b hs)
  obtain r where "submit P self m p q b hs w = (r, self', w1)"
    using assms(3) Submit by (cases "submit P self m p q b hs w") auto
  from submit_result [OF this assms(1,2)] unat_suc [OF assms(2)] show ?thesis by auto
next
  case Cancel
  then have s: "self' = self" and w: "w1 = snd (ac_cancel P self w)" using assms(3) by auto
  have "requests_in (pushed w1) = requests_in (pushed w)"
    unfolding w using push_cancel flags_push_nothing(1)
    by (cases "control self") (auto simp: ac_cancel_def Let_def)
  then show ?thesis using assms(1) s by (simp add: ticket_inv_def)
next
  case (HandleCancel t)
  then show ?thesis using assms(1,3) push_cancel flags_push_nothing(2)
    by (auto simp: handle_cancel_def ticket_inv_def Let_def)
next
  case PermitDropped
  then show ?thesis using assms(1,3) by (auto simp: ticket_inv_def drop_permit_def wrapping_dec_def)
qed

lemma make_calls_inv:
  assumes "ticket_inv self w" "unat (ac_next_ticket self) + length cs < 2 ^ 64" "make_calls P cs (self, w) = (self', w1)"
  shows "ticket_inv self' w1 \<and> ac_max self' = ac_max self \<and> unat (ac_next_ticket self') \<le> unat (ac_next_ticket self) + length cs"
  using assms
proof (induction cs arbitrary: self w)
  case (Cons c cs)
  obtain s2 w2 where c: "make_call P c (self, w) = (s2, w2)" by (cases "make_call P c (self, w)")
  have "unat (ac_next_ticket self) + 1 < 2 ^ 64" using Cons.prems(2) by simp
  note i = make_call_inv [OF Cons.prems(1) this c]
  have "make_calls P cs (s2, w2) = (self', w1)" using Cons.prems(3) c by (simp add: make_calls_def)
  moreover have "unat (ac_next_ticket s2) + length cs < 2 ^ 64" using i Cons.prems(2) by simp
  ultimately show ?case using Cons.IH [of s2 w2] i by fastforce
qed (simp add: make_calls_def)

end

section \<open>A scripted ring\<close>

text \<open>A ring of a given capacity that nobody drains.\<close>

record cworld =
  cw_ring :: "Control list"
  cw_cap :: nat

definition ring_push :: "cworld \<Rightarrow> Control \<Rightarrow> bool \<times> cworld" where
  "ring_push w m = (if length (cw_ring w) < cw_cap w then (True, w\<lparr> cw_ring := cw_ring w @ [m] \<rparr>) else (False, w))"

definition scripted_callers :: "cworld env \<Rightarrow> cworld callers" where
  "scripted_callers E =
     \<lparr> cw_net = E, control_push = ring_push, control_push_block = ring_push, chunk_pop = (\<lambda>t w. (None, w)),
       chunk_pop_block = (\<lambda>t w. (None, w)), store_cancelled = (\<lambda>t w b. w), store_any = (\<lambda>w b. w),
       store_shutting_down = (\<lambda>w b. w), store_alive = (\<lambda>t w b. w), load_started = (\<lambda>t w. (False, w)),
       spawn_reader = (\<lambda>c w. (Inr (), w)), join_reader = (\<lambda>w. w) \<rparr>"

interpretation scripted_ring: control_ring "scripted_callers E" cw_ring
  by unfold_locales (auto simp: scripted_callers_def ring_push_def split: if_splits)

section \<open>Properties\<close>

text \<open>
  C36: what the callers hand to the reader names every request. From a fresh client, after any
  calls (fewer than \<open>2\<^sup>64\<close>), with permits dropped at any time in between: the requests on the
  control ring carry distinct tickets, none of which is the ticket that stands for any request,
  and no more are outstanding than the limit allows. The next submission is refused without a
  trace, with its permit given back, or it pushes exactly the caller's request and its handle
  names that request.
\<close>

theorem submit_names_requests:
  assumes "control_ring P pushed" "pushed w0 = []" "length cs + 1 < 2 ^ 64"
    and "make_calls P cs (\<lparr> ac_control = True, ac_join = True, ac_next_ticket = 0, ac_outstanding = 0, ac_max = limit \<rparr>, w0) = (self, w)"
    and "submit P self m p q b hs w = (r, self', w1)"
  shows "distinct (map ar_ticket (requests_in (pushed w1))) \<and> CANCEL_ANY \<notin> ar_ticket ` set (requests_in (pushed w1))
    \<and> ac_outstanding self' \<le> limit
    \<and> (case r of
         Inl _ \<Rightarrow> pushed w1 = pushed w \<and> ac_outstanding self' = ac_outstanding self
       | Inr h \<Rightarrow> ac_outstanding self' = ac_outstanding self + 1
           \<and> pushed w1 = pushed w @ [CRequest \<lparr> ar_method = m, ar_path = p, ar_query = q, ar_body = b, ar_headers = hs, ar_ticket = sh_ticket h \<rparr>])"
proof -
  note cr = assms(1)
  let ?new = "\<lparr> ac_control = True, ac_join = True, ac_next_ticket = 0, ac_outstanding = 0, ac_max = limit \<rparr>"
  have "control_ring.ticket_inv pushed ?new w0" using assms(2) by (simp add: control_ring.ticket_inv_def [OF cr])
  from control_ring.make_calls_inv [OF cr this _ assms(4)] assms(3)
  have i: "control_ring.ticket_inv pushed self w" "ac_max self = limit" "unat (ac_next_ticket self) \<le> length cs" by auto
  then have "unat (ac_next_ticket self) + 1 < 2 ^ 64" using assms(3) by simp
  note s = control_ring.submit_result [OF cr assms(5) i(1) this]
  then have inv: "control_ring.ticket_inv pushed self' w1" "ac_max self' = limit" using i(2) by auto
  have any: "ar_ticket x \<noteq> CANCEL_ANY" if "x \<in> set (requests_in (pushed w1))" for x
  proof
    assume "ar_ticket x = CANCEL_ANY"
    moreover have "unat (ar_ticket x) < unat (ac_next_ticket self')"
      using that inv(1) by (simp add: control_ring.ticket_inv_def [OF cr] list_all_iff)
    moreover have "unat (ac_next_ticket self') < 2 ^ LENGTH(64)" by (rule unsigned_less)
    ultimately show False by (simp add: CANCEL_ANY_def unsigned_minus_1_eq_mask mask_eq_exp_minus_1)
  qed
  have "distinct (map ar_ticket (requests_in (pushed w1)))" "ac_outstanding self' \<le> limit"
    using inv by (auto simp: control_ring.ticket_inv_def [OF cr])
  moreover have "CANCEL_ANY \<notin> ar_ticket ` set (requests_in (pushed w1))" using any by (metis imageE)
  moreover have "case r of
         Inl _ \<Rightarrow> pushed w1 = pushed w \<and> ac_outstanding self' = ac_outstanding self
       | Inr h \<Rightarrow> ac_outstanding self' = ac_outstanding self + 1
           \<and> pushed w1 = pushed w @ [CRequest \<lparr> ar_method = m, ar_path = p, ar_query = q, ar_body = b, ar_headers = hs, ar_ticket = sh_ticket h \<rparr>]"
    using s by (cases r) auto
  ultimately show ?thesis by blast
qed

theorem submit_names_requests_witness:
  "\<forall>E. \<exists>self w self' w1. make_calls (scripted_callers E) [Submit Get [] None None [], Cancel]
      (\<lparr> ac_control = True, ac_join = True, ac_next_ticket = 0, ac_outstanding = 0, ac_max = 2 \<rparr>, \<lparr> cw_ring = [], cw_cap = 3 \<rparr>) = (self, w)
    \<and> submit (scripted_callers E) self Post [] None None [] w = (Inr \<lparr> sh_ticket = 1 \<rparr>, self', w1)
    \<and> map ar_ticket (requests_in (cw_ring w1)) = [0, 1] \<and> ac_outstanding self' \<le> 2"
proof
  fix E :: "cworld env"
  let ?P = "scripted_callers E" and ?cs = "[Submit Get [] None None [], Cancel]"
  let ?r = "\<lambda>m t. CRequest \<lparr> ar_method = m, ar_path = [], ar_query = None, ar_body = None, ar_headers = [], ar_ticket = t \<rparr>"
  let ?s = "\<lambda>n k. \<lparr> ac_control = True, ac_join = True, ac_next_ticket = n, ac_outstanding = k, ac_max = 2 \<rparr>"
  let ?w = "\<lparr> cw_ring = [?r Get 0, CCancel CANCEL_ANY], cw_cap = 3 \<rparr>"
  have a: "make_calls ?P ?cs (?s 0 0, \<lparr> cw_ring = [], cw_cap = 3 \<rparr>) = (?s 1 1, ?w)"
    by (simp add: make_calls_def submit_def ac_cancel_def scripted_callers_def ring_push_def ac_try_admit_def try_admit_round_def
        control_def validate_extra_headers_def Let_def)
  have b: "submit ?P (?s 1 1) Post [] None None [] ?w = (Inr \<lparr> sh_ticket = 1 \<rparr>, ?s 2 2, ?w\<lparr> cw_ring := [?r Get 0, CCancel CANCEL_ANY, ?r Post 1] \<rparr>)"
    by (simp add: submit_def scripted_callers_def ring_push_def ac_try_admit_def try_admit_round_def control_def
        validate_extra_headers_def Let_def)
  from submit_names_requests [OF scripted_ring.control_ring_axioms _ _ a b] a b
  show "\<exists>self w self' w1. make_calls ?P ?cs (?s 0 0, \<lparr> cw_ring = [], cw_cap = 3 \<rparr>) = (self, w)
    \<and> submit ?P self Post [] None None [] w = (Inr \<lparr> sh_ticket = 1 \<rparr>, self', w1)
    \<and> map ar_ticket (requests_in (cw_ring w1)) = [0, 1] \<and> ac_outstanding self' \<le> 2"
    by auto
qed

end
