(* ===== verification/Dial.thy ===== *)
theory Dial
  imports Client
begin

text \<open>
  \<^verbatim>\<open>xibalba-client/src/dial.rs\<close> and the connector of \<^verbatim>\<open>plain.rs\<close>: opening the TCP half of a
  connection within a deadline. Name resolution, the connect call and the socket option are the
  operating system's, reached through \<open>std::net\<close>: parameters of the model.
\<close>

section \<open>Definitions\<close>

record ('w, 'a) tcp =
  tcp_env :: "'w env"
  to_socket_addrs :: "bytes \<Rightarrow> u16 \<Rightarrow> 'w \<Rightarrow> (io_error + 'a list) \<times> 'w"
  tcp_connect :: "'a \<Rightarrow> duration \<Rightarrow> 'w \<Rightarrow> (io_error + unit) \<times> 'w"
  set_nodelay :: "'w \<Rightarrow> (io_error + unit) \<times> 'w"

record TcpDialer =
  td_connect_timeout :: duration

definition DEFAULT_CONNECT_TIMEOUT :: duration where
  "DEFAULT_CONNECT_TIMEOUT = 10 * 1000000000"

definition TcpDialer_new :: "duration \<Rightarrow> TcpDialer" where
  "TcpDialer_new budget = \<lparr> td_connect_timeout = budget \<rparr>"

definition TcpDialer_default :: TcpDialer where
  "TcpDialer_default = TcpDialer_new DEFAULT_CONNECT_TIMEOUT"

text \<open>The loop of \<^verbatim>\<open>dial_addresses\<close>; \<open>final\<close> is the error of the last attempt so far.\<close>

fun dial_loop ::
  "('w, 'a) tcp \<Rightarrow> TcpDialer \<Rightarrow> Deadline \<Rightarrow> io_error option \<Rightarrow> 'a list \<Rightarrow> 'w \<Rightarrow> (Error + unit) \<times> 'w" where
  "dial_loop N self deadline final [] w =
     (case final of
        None \<Rightarrow> (Inl (Connection (OtherConnection ''host resolved to no addresses'')), w)
      | Some e \<Rightarrow> (Inl (error_from_io e), w))"
| "dial_loop N self deadline final (address # rest) w =
     (case Deadline_clamp (tcp_env N) deadline (td_connect_timeout self) w of
        (Inl e, w) \<Rightarrow> (Inl e, w)
      | (Inr allowed, w) \<Rightarrow>
          (case tcp_connect N address allowed w of
             (Inr _, w) \<Rightarrow>
               (case set_nodelay N w of
                  (Inl e, w) \<Rightarrow> (Inl (error_from_io e), w)
                | (Inr _, w) \<Rightarrow> (Inr (), w))
           | (Inl e, w) \<Rightarrow> dial_loop N self deadline (Some e) rest w))"

definition dial_addresses :: "('w, 'a) tcp \<Rightarrow> TcpDialer \<Rightarrow> 'a list \<Rightarrow> Deadline \<Rightarrow> 'w \<Rightarrow> (Error + unit) \<times> 'w" where
  "dial_addresses N self addresses deadline w = dial_loop N self deadline None addresses w"

definition tcp_dial :: "('w, 'a) tcp \<Rightarrow> TcpDialer \<Rightarrow> Url \<Rightarrow> Deadline \<Rightarrow> 'w \<Rightarrow> (Error + unit) \<times> 'w" where
  "tcp_dial N self url deadline w =
     (if \<not> utf8_valid (connection_host url) then (Inl (Connection (OtherConnection ''invalid UTF-8 in host'')), w)
      else case Deadline_check (tcp_env N) deadline w of
        (Inl e, w) \<Rightarrow> (Inl e, w)
      | (Inr _, w) \<Rightarrow>
          (case to_socket_addrs N (connection_host url) (effective_port url) w of
             (Inl e, w) \<Rightarrow> (Inl (Connection (OtherConnection (''DNS failed: '' @ io_display e))), w)
           | (Inr addresses, w) \<Rightarrow>
               (case Deadline_check (tcp_env N) deadline w of
                  (Inl e, w) \<Rightarrow> (Inl e, w)
                | (Inr _, w) \<Rightarrow> dial_addresses N self addresses deadline w)))"

definition dial_plaintext :: "('w, 'a) tcp \<Rightarrow> TcpDialer \<Rightarrow> Url \<Rightarrow> Deadline \<Rightarrow> 'w \<Rightarrow> (Error + unit) \<times> 'w" where
  "dial_plaintext N self url deadline w =
     (if url_scheme url = Https then (Inl (Connection PlaintextConnectorForHttps), w)
      else tcp_dial N self url deadline w)"

text \<open>\<^verbatim>\<open>PlainConnector::connect\<close>.\<close>

definition plain_connect :: "('w, 'a) tcp \<Rightarrow> Url \<Rightarrow> Deadline \<Rightarrow> 'w \<Rightarrow> (Error + unit) \<times> 'w" where
  "plain_connect N url deadline w = dial_plaintext N TcpDialer_default url deadline w"

section \<open>The network below\<close>

text \<open>
  What is relied on: a connect attempt returns within the time it is allowed and \<open>lag\<close>, and the
  calls that do not wait take at most \<open>lag\<close> each. \<open>tried w\<close> are the attempts so far, with what each
  was allowed. Nothing is assumed of the resolver but that it makes no attempt.
\<close>

locale tcp_world = clocked "tcp_env N" T for N :: "('w, 'a) tcp" and T :: "'w \<Rightarrow> instant" +
  fixes tried :: "'w \<Rightarrow> ('a \<times> duration) list" and lag :: duration
  assumes clock_lag: "clock (tcp_env N) w = (t, w1) \<Longrightarrow> T w1 \<le> T w + lag \<and> tried w1 = tried w"
    and connect_lag: "tcp_connect N a d w = (r, w1) \<Longrightarrow> T w \<le> T w1 \<and> T w1 \<le> T w + d + lag \<and> tried w1 = tried w @ [(a, d)]"
    and nodelay_lag: "set_nodelay N w = (r, w1) \<Longrightarrow> T w \<le> T w1 \<and> T w1 \<le> T w + lag \<and> tried w1 = tried w"
    and resolve_time: "to_socket_addrs N h p w = (rs, w1) \<Longrightarrow> T w \<le> T w1 \<and> tried w1 = tried w"
begin

lemma time_left_lag:
  assumes "time_left (tcp_env N) d w = (l, w1)"
  shows "T w \<le> T w1 \<and> T w1 \<le> T w + lag \<and> tried w1 = tried w
    \<and> (\<forall>t r. d = Some t \<longrightarrow> l = Remaining r \<longrightarrow> 0 < r \<and> T w + r \<le> t)"
proof (cases d)
  case None
  then show ?thesis using assms by (simp add: time_left_def)
next
  case (Some t)
  obtain t0 w0 where c: "clock (tcp_env N) w = (t0, w0)" by (cases "clock (tcp_env N) w")
  show ?thesis using assms Some clock_lag [OF c] clock_time [OF c] by (auto simp: time_left_def c split: if_splits)
qed

lemma clamp_lag:
  assumes "Deadline_clamp (tcp_env N) d step w = (r, w1)"
  shows "T w \<le> T w1 \<and> T w1 \<le> T w + lag \<and> tried w1 = tried w
    \<and> (case r of Inr a \<Rightarrow> a \<le> step \<and> (\<forall>t. d = Some t \<longrightarrow> T w + a \<le> t) | Inl e \<Rightarrow> e = Connection ConnectDeadlineExceeded)"
proof -
  obtain l w2 where l: "time_left (tcp_env N) d w = (l, w2)" by (cases "time_left (tcp_env N) d w")
  have u: "l = Unbounded \<Longrightarrow> d = None" using l by (auto simp: time_left_def Let_def split: option.splits prod.splits if_splits)
  have "(r, w1) = (case l of Unbounded \<Rightarrow> (Inr step, w2) | Remaining x \<Rightarrow> (Inr (min step x), w2)
      | Expired \<Rightarrow> (Inl (Connection ConnectDeadlineExceeded), w2))"
    using assms by (simp add: Deadline_clamp_def l)
  then show ?thesis using time_left_lag [OF l] u by (cases l) (auto simp: min_def)
qed

text \<open>
  A list of addresses: the attempts are those of a prefix of the list, in its order, each
  allowed at most the dialer's timeout, and together they do not outlast the deadline.
\<close>

lemma dial_loop_result:
  "dial_loop N self d final as w = (r, w1) \<Longrightarrow>
   \<exists>k ds. k \<le> length as \<and> length ds = k \<and> tried w1 = tried w @ zip (take k as) ds \<and> list_all (\<lambda>x. x \<le> td_connect_timeout self) ds
     \<and> T w \<le> T w1 \<and> (\<forall>t. d = Some t \<longrightarrow> T w1 \<le> max (T w) (t + 2 * lag) + lag)
     \<and> (case r of
          Inr _ \<Rightarrow> 0 < k
        | Inl e \<Rightarrow> e = Connection ConnectDeadlineExceeded \<or> (\<exists>io. e = error_from_io io)
            \<or> as = [] \<and> final = None \<and> e = Connection (OtherConnection ''host resolved to no addresses''))"
proof (induction as arbitrary: final w)
  case Nil
  then show ?case by (auto split: option.splits)
next
  case (Cons a as)
  obtain c w2 where c: "Deadline_clamp (tcp_env N) d (td_connect_timeout self) w = (c, w2)"
    by (cases "Deadline_clamp (tcp_env N) d (td_connect_timeout self) w")
  note cl = clamp_lag [OF c]
  show ?case
  proof (cases c)
    case (Inl e)
    then show ?thesis using Cons.prems c cl
      by (intro exI [of _ 0] exI [of _ "[]"]) auto
  next
    case (Inr allowed)
    obtain q w3 where q: "tcp_connect N a allowed w2 = (q, w3)" by (cases "tcp_connect N a allowed w2")
    note cn = connect_lag [OF q]
    have lim: "\<forall>t. d = Some t \<longrightarrow> T w3 \<le> t + 2 * lag" using cl cn Inr by fastforce
    have mono: "T w \<le> T w3" using cl cn by simp
    show ?thesis
    proof (cases q)
      case acc: (Inr u)
      obtain n w4 where n: "set_nodelay N w3 = (n, w4)" by (cases "set_nodelay N w3")
      have r: "w1 = w4" "case r of Inr _ \<Rightarrow> True | Inl e \<Rightarrow> \<exists>io. e = error_from_io io"
        using Cons.prems c Inr q acc n by (cases n; auto)+
      show ?thesis using r cl cn lim mono Inr nodelay_lag [OF n]
        by (intro exI [of _ 1] exI [of _ "[allowed]"]) (auto split: sum.splits)
    next
      case (Inl e)
      then have "dial_loop N self d (Some e) as w3 = (r, w1)" using Cons.prems c Inr q by simp
      from Cons.IH [OF this] obtain k ds where k: "k \<le> length as" "length ds = k" "tried w1 = tried w3 @ zip (take k as) ds"
          "list_all (\<lambda>x. x \<le> td_connect_timeout self) ds" "T w3 \<le> T w1" "\<forall>t. d = Some t \<longrightarrow> T w1 \<le> max (T w3) (t + 2 * lag) + lag"
          "case r of Inr _ \<Rightarrow> 0 < k | Inl e' \<Rightarrow> e' = Connection ConnectDeadlineExceeded \<or> (\<exists>io. e' = error_from_io io)
            \<or> as = [] \<and> Some e = None \<and> e' = Connection (OtherConnection ''host resolved to no addresses'')"
        by blast
      have "\<forall>t. d = Some t \<longrightarrow> T w1 \<le> max (T w) (t + 2 * lag) + lag" using k(6) lim by fastforce
      then show ?thesis using k cl cn mono Inr
        by (intro exI [of _ "Suc k"] exI [of _ "allowed # ds"]) (auto split: sum.splits)
    qed
  qed
qed

end

section \<open>A scripted network\<close>

record tworld =
  tw_now :: instant
  tw_tried :: "(nat \<times> duration) list"
  tw_names :: "bytes \<Rightarrow> nat list"
  tw_accepts :: "nat \<Rightarrow> bool"

definition scripted_clock :: "tworld env" where
  "scripted_clock =
     \<lparr> rd = (\<lambda>w n. (Inr [], w)), wr = (\<lambda>w x. (Inr (length x), w)), fl = (\<lambda>w. (Inr (), w)), clock = (\<lambda>w. (tw_now w, w)),
       sleep = (\<lambda>w d. w\<lparr> tw_now := tw_now w + d \<rparr>), intr = (\<lambda>w. (False, w)), dial = (\<lambda>w u d. (Inr (), w)),
       set_read_timeout = (\<lambda>w d. (Inr (), w)), set_write_timeout = (\<lambda>w d. (Inr (), w)), instant_max = 2 ^ 64,
       fmt_duration = (\<lambda>d. usize_str d), buf_addr = 0 \<rparr>"

text \<open>An address that does not accept times out.\<close>

definition scripted_tcp :: "(tworld, nat) tcp" where
  "scripted_tcp =
     \<lparr> tcp_env = scripted_clock, to_socket_addrs = (\<lambda>h p w. (Inr (tw_names w h), w)),
       tcp_connect = (\<lambda>a d w. let w1 = w\<lparr> tw_tried := tw_tried w @ [(a, d)] \<rparr> in
         if tw_accepts w a then (Inr (), w1) else (Inl (io_err TimedOut ''timed out''), w1\<lparr> tw_now := tw_now w + d \<rparr>)),
       set_nodelay = (\<lambda>w. (Inr (), w)) \<rparr>"

interpretation scripted_tcp: tcp_world scripted_tcp tw_now tw_tried 0
  by unfold_locales (auto simp: scripted_tcp_def scripted_clock_def Let_def split: if_splits)

section \<open>Properties\<close>

text \<open>
  C37: dialling is bounded by its deadline, not by the number of addresses. The attempts are on a
  prefix of the addresses in the resolver's order, none is allowed more than the dialer's timeout,
  and whatever they answer the call returns by the deadline up to three times the time that a
  call which does not wait takes (if it has not passed before). A stream is the last attempt's;
  an error is the deadline, the error of the last attempt or of the option, or that there was
  no address at all. A plaintext dial of an https URL makes no attempt, nor does any other call.
\<close>

theorem dial_bounded:
  assumes "tcp_world N T tried lag" "dial_addresses N self as (Some t) w = (r, w1)"
  shows "T w1 \<le> max (T w) (t + 2 * lag) + lag
    \<and> (\<exists>k ds. k \<le> length as \<and> length ds = k \<and> tried w1 = tried w @ zip (take k as) ds \<and> list_all (\<lambda>d. d \<le> td_connect_timeout self) ds
         \<and> (r = Inr () \<longrightarrow> 0 < k))
    \<and> (\<forall>e. r = Inl e \<longrightarrow> e = Connection ConnectDeadlineExceeded \<or> (\<exists>io. e = error_from_io io)
         \<or> as = [] \<and> e = Connection (OtherConnection ''host resolved to no addresses''))
    \<and> (url_scheme url = Https \<longrightarrow> plain_connect N url d w = (Inl (Connection PlaintextConnectorForHttps), w))"
proof -
  from tcp_world.dial_loop_result [OF assms(1) assms(2) [unfolded dial_addresses_def]]
  obtain k ds where "k \<le> length as" "length ds = k" "tried w1 = tried w @ zip (take k as) ds"
      "list_all (\<lambda>d. d \<le> td_connect_timeout self) ds" "T w1 \<le> max (T w) (t + 2 * lag) + lag"
      "case r of Inr _ \<Rightarrow> 0 < k
        | Inl e \<Rightarrow> e = Connection ConnectDeadlineExceeded \<or> (\<exists>io. e = error_from_io io)
            \<or> as = [] \<and> None = (None :: io_error option) \<and> e = Connection (OtherConnection ''host resolved to no addresses'')"
    by blast
  then show ?thesis
    by (intro conjI exI [of _ k] exI [of _ ds]) (auto simp: plain_connect_def dial_plaintext_def split: sum.splits)
qed

theorem dial_bounded_witness:
  "\<exists>w1. dial_addresses scripted_tcp (TcpDialer_new 30) [1, 2, 3, 4] (Some 100)
      \<lparr> tw_now = 50, tw_tried = [], tw_names = (\<lambda>_. []), tw_accepts = (\<lambda>_. False) \<rparr>
    = (Inl (Connection ConnectDeadlineExceeded), w1) \<and> tw_tried w1 = [(1, 30), (2, 20)] \<and> tw_now w1 \<le> 100"
proof -
  let ?w = "\<lparr> tw_now = 50, tw_tried = [], tw_names = (\<lambda>_. []), tw_accepts = (\<lambda>_. False) \<rparr>"
  have d: "dial_addresses scripted_tcp (TcpDialer_new 30) [1, 2, 3, 4] (Some 100) ?w
      = (Inl (Connection ConnectDeadlineExceeded), ?w\<lparr> tw_now := 100, tw_tried := [(1, 30), (2, 20)] \<rparr>)"
    by (simp add: dial_addresses_def TcpDialer_new_def scripted_tcp_def scripted_clock_def Deadline_clamp_def time_left_def Let_def)
  from dial_bounded [OF scripted_tcp.tcp_world_axioms d] d show ?thesis by auto
qed

end
