(* ===== verification/Driver_Parser.thy ===== *)
theory Driver_Parser
  imports Streaming
begin

text \<open>
  \<^verbatim>\<open>xibalba-iouring/src/driver.rs\<close>, first part: the words that tag the entries of the ring,
  and the push parser that turns the bytes of one connection, in whatever pieces the kernel
  delivers them, into responses. \<open>None\<close> is a panic of the thread. The main result is that the
  parser answers exactly what a reference on the whole stream answers: nothing it does depends
  on where the stream was cut, except that a head that is still unfinished after 64 KiB is
  refused.
\<close>

unbundle bit_operations_syntax

section \<open>Definitions\<close>

definition BLOCK_SIZE :: usize where "BLOCK_SIZE = 8192"
definition MAX_RESPONSE_HEAD :: usize where "MAX_RESPONSE_HEAD = 64 * 1024"
definition SHUTDOWN_UD :: u64 where "SHUTDOWN_UD = - 1"
definition TIMEOUT_UD :: u64 where "TIMEOUT_UD = - 1 - 1"
definition TIMEOUT_REMOVE_UD :: u64 where "TIMEOUT_REMOVE_UD = - 1 - 2"
definition RECV_UD_FLAG :: u64 where "RECV_UD_FLAG = push_bit 63 1"

subsection \<open>The tag of a ring entry\<close>

datatype UserData = UserData (ud_raw: u64)

definition ud_recv :: "u64 \<Rightarrow> u32 \<Rightarrow> UserData" where
  "ud_recv fd conn_id = UserData (RECV_UD_FLAG OR push_bit 32 (fd AND 0x7fffffff) OR ucast conn_id)"

definition ud_is_recv :: "UserData \<Rightarrow> bool" where
  "ud_is_recv self = (ud_raw self AND RECV_UD_FLAG \<noteq> 0)"

definition ud_fd :: "UserData \<Rightarrow> u64" where
  "ud_fd self = drop_bit 32 (ud_raw self) AND 0x7fffffff"

definition ud_conn_id :: "UserData \<Rightarrow> u32" where
  "ud_conn_id self = ucast (ud_raw self AND 0xffffffff)"

subsection \<open>Heads and responses\<close>

type_synonym request_id = u64

record ConnHandle =
  ch_conn_id :: u32
  ch_fd :: u64

record PoolHead =
  ph_head_buf :: bytes
  ph_ranges :: "HeaderRange list"
  ph_header_count :: usize

text \<open>\<^verbatim>\<open>buf.get(a..b)\<close>: nothing when the end is past the buffer.\<close>

definition get_slice :: "bytes \<Rightarrow> usize \<Rightarrow> usize \<Rightarrow> bytes option" where
  "get_slice buf a b = (if a \<le> b \<and> b \<le> length buf then Some (slice buf a b) else None)"

definition ph_headers :: "PoolHead \<Rightarrow> headers" where
  "ph_headers self =
     List.map_filter (\<lambda>r.
         let ns = unat (name_start r); vs = unat (value_start r) in
         Option.bind (get_slice (ph_head_buf self) ns (ns + unat (name_len r))) (\<lambda>n.
         Option.bind (get_slice (ph_head_buf self) vs (vs + unat (value_len r))) (\<lambda>v. Some (n, v))))
       (take (ph_header_count self) (ph_ranges self))"

record PoolResponse =
  pr_request_id :: request_id
  pr_version :: Version
  pr_status :: StatusCode
  pr_head :: PoolHead
  pr_body :: bytes

definition pr_headers :: "PoolResponse \<Rightarrow> headers" where
  "pr_headers self = ph_headers (pr_head self)"

datatype ConnResult =
    CResponse PoolResponse
  | CError request_id ConnHandle "32 word"
  | CProtocolError request_id ConnHandle Error
  | CTimeout

subsection \<open>The response in progress\<close>

datatype InternalFraming = ILength u64 | IChunked ChunkedDecoder | IUntilClose | IDone

record PartialResponse =
  pt_version :: Version
  pt_status :: StatusCode
  pt_head :: PoolHead
  pt_body_buf :: bytes
  pt_body_done :: bool
  pt_framing :: InternalFraming

text \<open>
  The loop of \<^verbatim>\<open>pump\<close> over a chunked body: the error or the position reached, whether the body
  was marked done, the decoder and the body.
\<close>

partial_function (option) pump_loop ::
  "bytes \<Rightarrow> usize \<Rightarrow> bytes \<Rightarrow> ChunkedDecoder \<Rightarrow> bytes \<Rightarrow> ((Error + usize) \<times> bool \<times> ChunkedDecoder \<times> bytes) option" where
  "pump_loop data pos outb decoder body =
     (if pos < length data \<and> \<not> is_done decoder then
        Option.bind (decode decoder (drop pos data) outb) (\<lambda>(decoder, outb, result, consumed).
          let pos = pos + consumed in
          case result of
            Data n \<Rightarrow>
              (let body = body @ take n outb in
               if is_done decoder then Some (Inr pos, True, decoder, body)
               else pump_loop data pos outb decoder body)
          | DecodeDone \<Rightarrow> Some (Inr pos, True, decoder, body)
          | NeedMore \<Rightarrow> Some (Inr pos, False, decoder, body)
          | DecodeError e \<Rightarrow> Some (Inl (Parse e), False, decoder, body))
      else Some (Inr pos, False, decoder, body))"

definition pump :: "PartialResponse \<Rightarrow> bytes \<Rightarrow> ((Error + usize) \<times> PartialResponse) option" where
  "pump self data =
     (case pt_framing self of
        IDone \<Rightarrow> Some (Inr 0, self\<lparr> pt_body_done := True \<rparr>)
      | ILength remaining \<Rightarrow>
          (let to_take = min (length data) (unat remaining);
               remaining = remaining - of_nat to_take;
               self = self\<lparr> pt_body_buf := pt_body_buf self @ take to_take data,
                            pt_framing := ILength remaining \<rparr> in
           Some (Inr to_take, if remaining = 0 then self\<lparr> pt_body_done := True \<rparr> else self))
      | IChunked decoder \<Rightarrow>
          map_option (\<lambda>(r, marked, decoder, body).
              (r, self\<lparr> pt_body_buf := body, pt_framing := IChunked decoder,
                        pt_body_done := pt_body_done self \<or> marked \<or> \<not> isl r \<and> is_done decoder \<rparr>))
            (pump_loop data 0 (replicate BLOCK_SIZE 0) decoder (pt_body_buf self))
      | IUntilClose \<Rightarrow> Some (Inr (length data), self\<lparr> pt_body_buf := pt_body_buf self @ data \<rparr>))"

subsection \<open>The parser\<close>

record ResponseParser =
  rp_head_accum :: bytes
  rp_body_buf :: bytes
  rp_partial :: "PartialResponse option"

definition ResponseParser_new :: ResponseParser where
  "ResponseParser_new = \<lparr> rp_head_accum = [], rp_body_buf = [], rp_partial = None \<rparr>"

definition rp_clear :: "ResponseParser \<Rightarrow> ResponseParser" where
  "rp_clear self = self\<lparr> rp_head_accum := [], rp_body_buf := [], rp_partial := None \<rparr>"

text \<open>
  The head: parsed, framed as the answer to a \<^verbatim>\<open>GET\<close>, and its headers located. The buffer lies at
  the address \<open>base\<close>.
\<close>

definition parse_pool_head ::
  "usize \<Rightarrow> bytes \<Rightarrow> Error + Version \<times> StatusCode \<times> PoolHead \<times> BodyFraming \<times> usize" where
  "parse_pool_head base head_bytes =
     res_bind (parse_head head_bytes (replicate MAX_HEADERS Header_empty)) (\<lambda>(head, hdr_buf, spans, consumed).
     res_bind (map_err Parse (head_headers head hdr_buf)) (\<lambda>hs.
     res_bind (map_err Parse (from_response (status head) Get hs)) (\<lambda>framing.
     res_bind (build_ranges (take (header_count head) (header_slices base head_bytes spans))
                 \<lparr> addr = base, contents = head_bytes \<rparr>) (\<lambda>ranges.
       Inr (version head, status head,
            \<lparr> ph_head_buf = head_bytes, ph_ranges = ranges, ph_header_count = header_count head \<rparr>,
            framing, consumed)))))"

definition internal_framing :: "BodyFraming \<Rightarrow> InternalFraming \<times> bool" where
  "internal_framing framing =
     (case framing of
        NoBody \<Rightarrow> (IDone, True)
      | ContentLength n \<Rightarrow> (ILength n, n = 0)
      | Chunked \<Rightarrow> (IChunked ChunkedDecoder_new, False)
      | UntilClose \<Rightarrow> (IUntilClose, False))"

text \<open>\<^verbatim>\<open>Vec::reserve\<close> on an empty vector panics above \<^verbatim>\<open>isize::MAX\<close> bytes.\<close>

definition reserve_panics :: "BodyFraming \<Rightarrow> bool" where
  "reserve_panics framing = (case framing of ContentLength n \<Rightarrow> n > 0x7fffffffffffffff | _ \<Rightarrow> False)"

definition pool_response :: "request_id \<Rightarrow> PartialResponse \<Rightarrow> PoolResponse" where
  "pool_response request_id p =
     \<lparr> pr_request_id = request_id, pr_version = pt_version p, pr_status = pt_status p,
       pr_head = pt_head p, pr_body = pt_body_buf p \<rparr>"

definition parse_head_and_maybe_finish ::
  "usize \<Rightarrow> ResponseParser \<Rightarrow> request_id \<Rightarrow> ((Error + (PoolResponse \<times> usize) option) \<times> ResponseParser) option" where
  "parse_head_and_maybe_finish base self request_id =
     (case find_blank (rp_head_accum self) of
        None \<Rightarrow>
          if length (rp_head_accum self) > MAX_RESPONSE_HEAD then Some (Inl (Connection HeadTooLarge), self)
          else Some (Inr None, self)
      | Some head_end \<Rightarrow>
          (let head_bytes_len = head_end + 4 in
           case parse_pool_head base (take head_bytes_len (rp_head_accum self)) of
             Inl e \<Rightarrow> Some (Inl e, self)
           | Inr (ver, st, head_data, framing, consumed) \<Rightarrow>
               let self = self\<lparr> rp_head_accum := drop head_bytes_len (rp_head_accum self) \<rparr>;
                   consumed_after_drain = consumed - head_bytes_len;
                   (internal, body_done) = internal_framing framing;
                   self = self\<lparr> rp_body_buf := [] \<rparr> in
               if reserve_panics framing then None
               else
                 let partial = \<lparr> pt_version = ver, pt_status = st, pt_head = head_data, pt_body_buf = [],
                                 pt_body_done = body_done, pt_framing = internal \<rparr>;
                     after_head = drop consumed_after_drain (rp_head_accum self) in
                 Option.bind (if after_head \<noteq> [] \<and> \<not> body_done then pump partial after_head
                              else Some (Inr 0, partial)) (\<lambda>(r, partial).
                   case r of
                     Inl e \<Rightarrow> Some (Inl e, self)
                   | Inr body_consumed \<Rightarrow>
                       if pt_body_done partial then
                         let total_consumed = consumed_after_drain + body_consumed in
                         Some (Inr (Some (pool_response request_id partial, body_consumed)),
                               self\<lparr> rp_head_accum := drop total_consumed (rp_head_accum self), rp_partial := None \<rparr>)
                       else
                         Some (Inr None,
                               self\<lparr> rp_head_accum := drop consumed_after_drain (rp_head_accum self),
                                     rp_partial := Some partial \<rparr>))))"

definition feed ::
  "usize \<Rightarrow> ResponseParser \<Rightarrow> bytes \<Rightarrow> request_id \<Rightarrow> ((Error + PoolResponse option) \<times> ResponseParser) option" where
  "feed base self data request_id =
     (case rp_partial self of
        Some partial \<Rightarrow>
          Option.bind (if data = [] then Some (Inr 0, partial) else pump partial data) (\<lambda>(r, partial).
            case r of
              Inl e \<Rightarrow> Some (Inl e, self\<lparr> rp_partial := Some partial \<rparr>)
            | Inr consumed \<Rightarrow>
                if pt_body_done partial then
                  Some (Inr (Some (pool_response request_id partial)),
                        self\<lparr> rp_partial := None, rp_head_accum := drop consumed data \<rparr>)
                else Some (Inr None, self\<lparr> rp_partial := Some partial \<rparr>))
      | None \<Rightarrow>
          map_option (\<lambda>(r, self). (case r of Inl e \<Rightarrow> Inl e | Inr resp \<Rightarrow> Inr (map_option fst resp), self))
            (parse_head_and_maybe_finish base (self\<lparr> rp_head_accum := rp_head_accum self @ data \<rparr>) request_id))"

section \<open>Tags\<close>

lemma ud_bit: "bit (ud_raw (ud_recv fd c)) n \<longleftrightarrow>
   n = 63 \<or> 32 \<le> n \<and> n < 63 \<and> bit fd (n - 32) \<or> n < 32 \<and> bit c n"
proof -
  have m: "bit (0x7fffffff :: u64) k \<longleftrightarrow> k < 31" for k
  proof -
    have "(0x7fffffff :: u64) = mask 31" by (simp add: mask_eq_exp_minus_1)
    then show ?thesis by (simp only: bit_mask_iff) auto
  qed
  have f: "bit RECV_UD_FLAG k \<longleftrightarrow> k = 63" for k
    by (auto simp only: RECV_UD_FLAG_def bit_push_bit_iff) (auto simp: bit_1_iff)
  have p: "bit (push_bit 32 (fd AND 0x7fffffff)) n \<longleftrightarrow> 32 \<le> n \<and> n < 63 \<and> bit fd (n - 32)"
    by (simp only: bit_push_bit_iff bit_and_iff m) (auto simp: bit_imp_le_length)
  have u: "bit (ucast c :: u64) n \<longleftrightarrow> n < 32 \<and> bit c n"
    by (auto simp: bit_simps dest: bit_imp_le_length)
  show ?thesis
    unfolding ud_recv_def UserData.sel bit_or_iff f p u by blast
qed

lemma ud_round_trip:
  "ud_is_recv (ud_recv fd c) \<and> ud_conn_id (ud_recv fd c) = c \<and> ud_fd (ud_recv fd c) = take_bit 31 fd"
proof (intro conjI)
  have "bit (ud_raw (ud_recv fd c) AND RECV_UD_FLAG) 63"
    by (simp add: bit_and_iff ud_bit RECV_UD_FLAG_def bit_push_bit_iff)
  then show "ud_is_recv (ud_recv fd c)" unfolding ud_is_recv_def by (metis bit_0_eq bot_apply bot_bool_def)
  have m: "(0xffffffff :: u64) = mask 32" "(0x7fffffff :: u64) = mask 31" by (simp_all add: mask_eq_exp_minus_1)
  show "ud_conn_id (ud_recv fd c) = c"
    unfolding ud_conn_id_def m
    by (rule bit_word_eqI) (simp add: bit_simps ud_bit)
  show "ud_fd (ud_recv fd c) = take_bit 31 fd"
    unfolding ud_fd_def m
    by (rule bit_word_eqI) (auto simp: bit_simps ud_bit)
qed

lemma ud_fd_small: "unat fd < 2 ^ 31 \<Longrightarrow> take_bit 31 (fd :: u64) = fd"
  by (simp add: word_unat_eq_iff unsigned_take_bit_eq take_bit_nat_eq_self)

lemma ud_not_reserved:
  assumes "unat fd < 2 ^ 31 - 1"
  shows "ud_raw (ud_recv fd c) \<notin> {SHUTDOWN_UD, TIMEOUT_UD, TIMEOUT_REMOVE_UD}"
proof -
  have r: "ud_fd (UserData u) = 0x7fffffff" if "u \<in> {SHUTDOWN_UD, TIMEOUT_UD, TIMEOUT_REMOVE_UD}" for u
    using that by (auto simp: ud_fd_def SHUTDOWN_UD_def TIMEOUT_UD_def TIMEOUT_REMOVE_UD_def mask_eq_exp_minus_1)
  have "ud_fd (ud_recv fd c) = fd" using ud_round_trip [of fd c] ud_fd_small [of fd] assms by simp
  moreover have "fd \<noteq> 0x7fffffff" using assms by auto
  ultimately show ?thesis using r [of "ud_raw (ud_recv fd c)"] by (metis UserData.collapse)
qed

text \<open>
  C12: the tag of a receive gives back what was put into it. For every connection id and every
  descriptor below \<open>2 ^ 31 - 1\<close> the tag is recognised as a receive, its connection id and its
  descriptor read back, it is none of the three reserved tags, and two tags are equal only if
  both parts are.
\<close>

theorem recv_tag_roundtrip:
  assumes "unat fd < 2 ^ 31 - 1" "unat fd' < 2 ^ 31 - 1"
  shows "ud_is_recv (ud_recv fd c) \<and> ud_conn_id (ud_recv fd c) = c \<and> ud_fd (ud_recv fd c) = fd
    \<and> ud_raw (ud_recv fd c) \<notin> {SHUTDOWN_UD, TIMEOUT_UD, TIMEOUT_REMOVE_UD}
    \<and> (ud_recv fd c = ud_recv fd' c' \<longleftrightarrow> fd = fd' \<and> c = c')"
proof -
  have "ud_fd (ud_recv x y) = x" if "unat x < 2 ^ 31 - 1" for x y
    using ud_round_trip [of x y] ud_fd_small [of x] that by simp
  then show ?thesis using assms ud_round_trip ud_not_reserved by metis
qed

theorem recv_tag_roundtrip_witness:
  "ud_fd (ud_recv 7 3) = 7 \<and> ud_conn_id (ud_recv 7 3) = 3 \<and> ud_recv 7 3 \<noteq> ud_recv 8 3"
  using recv_tag_roundtrip [of 7 8 3 3] by simp

section \<open>The head of a stream\<close>

lemma header_slices_base:
  assumes "\<forall>(n, v)\<in>set spans. fst n < length buf \<and> fst v < length buf"
  shows "build_ranges_loop (header_slices base buf spans) \<lparr> addr = base, contents = buf \<rparr> i rs
    = build_ranges_loop (header_slices 0 buf spans) \<lparr> addr = 0, contents = buf \<rparr> i rs"
  using assms
  by (induction spans arbitrary: i rs)
     (auto simp: header_slices_def span_slice_def offset_in_or_find_def Let_def intro!: res_bind_cong)

lemma parsed_span_bounds:
  assumes "parse_head buf slots = Inr (h, slots', spans, n)"
  shows "\<forall>(n, v)\<in>set spans. fst n \<le> snd n \<and> snd n < length buf \<and> fst v \<le> snd v \<and> snd v < length buf"
proof -
  obtain ver st r ls where bl: "buf = head_text ver st r ls @ drop n buf"
    and nl: "n = length (head_text ver st r ls)"
    and ok: "list_all (\<lambda>(m, v). fst m < snd m \<and> snd m < fst v \<and> fst v \<le> snd v \<and> snd v + 4 \<le> n) spans"
    by (rule parse_head_sound [OF assms])
  have "n \<le> length buf" using nl arg_cong [OF bl, of length] by simp
  then show ?thesis using ok by (auto simp: list_all_iff)
qed

text \<open>Where the buffer lies changes nothing.\<close>

lemma parse_pool_head_base: "parse_pool_head base buf = parse_pool_head 0 buf"
proof (cases "parse_head buf (replicate MAX_HEADERS Header_empty)")
  case (Inr p)
  obtain h slots spans n where p: "p = (h, slots, spans, n)" by (cases p)
  have t: "take k (header_slices b buf spans) = header_slices b buf (take k spans)" for k b
    by (simp add: header_slices_def take_map)
  have i: "\<forall>(n, v)\<in>set (take k spans). fst n < length buf \<and> fst v < length buf" for k
    using parsed_span_bounds [OF Inr [unfolded p]] by (fastforce dest: in_set_takeD)
  have l: "length (header_slices b buf sp) = length sp" for b sp
    by (simp add: header_slices_def)
  show ?thesis
    unfolding parse_pool_head_def Inr p by (simp add: t l build_ranges_def header_slices_base [OF i, where base = base])
qed (simp add: parse_pool_head_def)

lemma find_blank_append: "find_blank x = Some i \<Longrightarrow> find_blank (x @ y) = Some i"
proof -
  assume f: "find_blank x = Some i"
  have i: "i + 4 \<le> length x" using f take4_prefix(1) by (auto simp: find_blank_Some)
  have "take 4 (drop j (x @ y)) = take 4 (drop j x)" if "j \<le> i" for j using that i by simp
  then show ?thesis using f unfolding find_blank_Some by (metis less_imp_le_nat order_refl)
qed

lemma find_blank_inside: "find_blank x = Some i \<Longrightarrow> i + 4 \<le> length x"
  using take4_prefix(1) by (auto simp: find_blank_Some)

lemma parse_pool_head_consumed:
  assumes "find_blank s = Some i" "parse_pool_head base (take (i + 4) s) = Inr (v, st, h, framing, n)"
  shows "n = i + 4"
  using assms parse_head_consumes_all(1) [of s "i + 4"]
  by (auto simp: parse_pool_head_def res_simps)

section \<open>The reference\<close>

text \<open>What a framing makes of the bytes after the head.\<close>

datatype 'a verdict = Waiting | Answered 'a bytes | Refused Error | Panicked

definition body_verdict :: "BodyFraming \<Rightarrow> bytes \<Rightarrow> bytes verdict" where
  "body_verdict framing x =
     (case framing of
        NoBody \<Rightarrow> Answered [] x
      | ContentLength n \<Rightarrow> if unat n \<le> length x then Answered (take (unat n) x) (drop (unat n) x) else Waiting
      | Chunked \<Rightarrow>
          (case ref_run ChunkedDecoder_new x of
             (b, Complete rest) \<Rightarrow> Answered b rest
           | (_, Errored e) \<Rightarrow> Refused (Parse e)
           | (_, Exhausted) \<Rightarrow> Waiting)
      | UntilClose \<Rightarrow> Waiting)"

type_synonym answer = "Version \<times> StatusCode \<times> PoolHead \<times> bytes"

definition stream_verdict :: "bytes \<Rightarrow> answer verdict" where
  "stream_verdict s =
     (case find_blank s of
        None \<Rightarrow> Waiting
      | Some i \<Rightarrow>
          (case parse_pool_head 0 (take (i + 4) s) of
             Inl e \<Rightarrow> Refused e
           | Inr (v, st, h, framing, _) \<Rightarrow>
               if reserve_panics framing then Panicked
               else (case body_verdict framing (drop (i + 4) s) of
                       Answered b rest \<Rightarrow> Answered (v, st, h, b) rest
                     | Refused e \<Rightarrow> Refused e
                     | Waiting \<Rightarrow> Waiting
                     | Panicked \<Rightarrow> Panicked)))"

definition answer_response :: "request_id \<Rightarrow> answer \<Rightarrow> PoolResponse" where
  "answer_response rid = (\<lambda>(v, st, h, b).
     \<lparr> pr_request_id = rid, pr_version = v, pr_status = st, pr_head = h, pr_body = b \<rparr>)"

text \<open>A verdict is final: more bytes only lengthen what is left over.\<close>

lemma ref_run_append:
  "ref_run d x = (b, oc) \<Longrightarrow>
   (case oc of Complete r \<Rightarrow> ref_run d (x @ y) = (b, Complete (r @ y))
    | Errored e \<Rightarrow> ref_run d (x @ y) = (b, Errored e) | Exhausted \<Rightarrow> True)"
proof (induction x arbitrary: d b)
  case Nil
  then show ?case using ref_run_done [of d y] by (auto split: if_splits)
next
  case (Cons a x)
  then show ?case by (cases "chunk_step d a") (fastforce split: Outcome.splits prod.splits)+
qed

lemma body_verdict_append:
  "body_verdict framing x = Answered b rest \<Longrightarrow> body_verdict framing (x @ y) = Answered b (rest @ y)"
  "body_verdict framing x = Refused e \<Longrightarrow> body_verdict framing (x @ y) = Refused e"
  "body_verdict framing x \<noteq> Panicked"
  using ref_run_append [of ChunkedDecoder_new x _ _ y]
  by (cases framing; fastforce simp: body_verdict_def split: if_splits prod.splits Outcome.splits)+

lemma stream_verdict_append:
  "stream_verdict s = Answered a rest \<Longrightarrow> stream_verdict (s @ y) = Answered a (rest @ y)"
  "stream_verdict s = Refused e \<Longrightarrow> stream_verdict (s @ y) = Refused e"
  "stream_verdict s = Panicked \<Longrightarrow> stream_verdict (s @ y) = Panicked"
proof -
  have "stream_verdict (s @ y) = (case stream_verdict s of
      Answered a rest \<Rightarrow> Answered a (rest @ y) | Waiting \<Rightarrow> stream_verdict (s @ y) | v \<Rightarrow> v)"
  proof (cases "find_blank s")
    case (Some i)
    then have n: "find_blank (s @ y) = Some i" "i + 4 \<le> length s"
      by (simp_all add: find_blank_append find_blank_inside)
    then have t: "take (i + 4) (s @ y) = take (i + 4) s" "drop (i + 4) (s @ y) = drop (i + 4) s @ y" by simp_all
    show ?thesis
      unfolding stream_verdict_def Some n(1) option.case t
      using body_verdict_append [of _ "drop (i + 4) s"]
      by (auto split: sum.splits prod.splits verdict.splits)
  qed (simp add: stream_verdict_def)
  then show "stream_verdict s = Answered a rest \<Longrightarrow> stream_verdict (s @ y) = Answered a (rest @ y)"
    "stream_verdict s = Refused e \<Longrightarrow> stream_verdict (s @ y) = Refused e"
    "stream_verdict s = Panicked \<Longrightarrow> stream_verdict (s @ y) = Panicked" by simp_all
qed

section \<open>The parser against the reference\<close>

text \<open>The state of a body of which \<open>x\<close> has arrived and that is not complete.\<close>

definition body_so_far :: "BodyFraming \<Rightarrow> bytes \<Rightarrow> InternalFraming \<Rightarrow> bytes \<Rightarrow> bool" where
  "body_so_far framing x fr body =
     (case framing of
        NoBody \<Rightarrow> False
      | ContentLength n \<Rightarrow> length x < unat n \<and> fr = ILength (n - of_nat (length x)) \<and> body = x
      | Chunked \<Rightarrow> (\<exists>d. fr = IChunked d \<and> tracked ChunkedDecoder_new x d [] body \<and> cstate d \<noteq> Done)
      | UntilClose \<Rightarrow> fr = IUntilClose \<and> body = x)"

lemma tracked_more:
  assumes "tracked ChunkedDecoder_new x d [] body"
  shows "tracked ChunkedDecoder_new (x @ data) d data body"
  using assms by (auto simp: tracked_def rejects_def)

lemma tracked_new: "tracked ChunkedDecoder_new x ChunkedDecoder_new x []"
  using chunk_inv_new alive_new by (auto simp: tracked_def intro!: exI [of _ "[]"])

text \<open>What \<^verbatim>\<open>pump\<close> makes of the next bytes, by the verdict on all of them.\<close>

definition pump_post :: "BodyFraming \<Rightarrow> bytes \<Rightarrow> bytes \<Rightarrow> (Error + usize) \<times> bool \<times> InternalFraming \<times> bytes \<Rightarrow> bool" where
  "pump_post framing stream data = (\<lambda>(r, finished, fr, body).
     case body_verdict framing stream of
       Waiting \<Rightarrow> r = Inr (length data) \<and> \<not> finished \<and> body_so_far framing stream fr body
     | Answered b rest \<Rightarrow> (\<exists>n. r = Inr n \<and> n \<le> length data \<and> rest = drop n data) \<and> finished \<and> body = b
     | Refused e \<Rightarrow> r = Inl e
     | Panicked \<Rightarrow> False)"

lemma waiting_post:
  assumes "tracked ChunkedDecoder_new stream d [] body" "cstate d \<noteq> Done"
  shows "pump_post Chunked stream data (Inr (length data), False, IChunked d, body)"
proof -
  obtain b where "ref_run ChunkedDecoder_new stream = (b, Exhausted)"
    using tracked_exhausted [OF assms] by (metis surjective_pairing)
  then have "body_verdict Chunked stream = Waiting" by (simp add: body_verdict_def)
  then show ?thesis using assms by (simp add: pump_post_def body_so_far_def)
qed

lemma complete_post:
  assumes "ref_run ChunkedDecoder_new stream = (b, Complete (drop n data))" "n \<le> length data"
  shows "pump_post Chunked stream data (Inr n, True, fr, b)"
  using assms by (auto simp: pump_post_def body_verdict_def)

lemma pump_loop_returns:
  assumes "tracked ChunkedDecoder_new stream d (drop pos data) body" "pos \<le> length data"
    and "cstate d \<noteq> Done" "outb \<noteq> []"
  shows "\<exists>r marked d' b. pump_loop data pos outb d body = Some (r, marked, d', b)
    \<and> pump_post Chunked stream data (r, marked \<or> \<not> isl r \<and> is_done d', IChunked d', b)"
  using assms
proof (induction "length data - pos" arbitrary: pos outb d body rule: less_induct)
  case less
  show ?case
  proof (cases "pos < length data")
    case False
    then have "tracked ChunkedDecoder_new stream d [] body" using less.prems by simp
    then have "pump_post Chunked stream data (Inr (length data), False, IChunked d, body)"
      by (rule waiting_post [OF _ less.prems(3)])
    moreover have "pos = length data" using False less.prems(2) by simp
    ultimately show ?thesis using less.prems(3) by (subst pump_loop.simps) (auto simp: is_done_def)
  next
    case True
    have t: "tracked ChunkedDecoder_new stream d (drop pos data @ []) body" using less.prems(1) by simp
    have room: "0 < length outb" using less.prems(4) by simp
    obtain d' buf res n where dec: "decode d (drop pos data) outb = Some (d', buf, res, n)"
      and n: "n \<le> length (drop pos data)" "length buf = length outb"
      and dat: "\<And>m. res = Data m \<Longrightarrow> 0 < n \<and> 0 < m \<and> m \<le> length buf
        \<and> tracked ChunkedDecoder_new stream d' (drop n (drop pos data) @ []) (body @ take m buf)"
      and more: "res = NeedMore \<Longrightarrow> n = length (drop pos data) \<and> tracked ChunkedDecoder_new stream d' [] body \<and> cstate d' \<noteq> Done"
      and fin: "res = DecodeDone \<Longrightarrow> ref_run ChunkedDecoder_new stream = (body, Complete (drop n (drop pos data) @ []))"
      and err: "\<And>e. res = DecodeError e \<Longrightarrow> ref_run ChunkedDecoder_new stream = (body, Errored e)"
      by (rule tracked_decode [OF t room]) (rule that, assumption+)
    have go: "pos < length data \<and> \<not> is_done d" using True less.prems(3) by (simp add: is_done_def)
    show ?thesis
    proof (cases res)
      case (Data m)
      have tr: "tracked ChunkedDecoder_new stream d' (drop (pos + n) data) (body @ take m buf)"
        using dat [OF Data] by (simp add: add.commute)
      show ?thesis
      proof (cases "is_done d'")
        case True
        then have "ref_run ChunkedDecoder_new stream = (body @ take m buf, Complete (drop (pos + n) data))"
          using tracked_done [OF tr] by (simp add: is_done_def)
        then have "pump_post Chunked stream data (Inr (pos + n), True, IChunked d', body @ take m buf)"
          using n(1) less.prems(2) by (intro complete_post) simp_all
        moreover have "pump_loop data pos outb d body = Some (Inr (pos + n), True, d', body @ take m buf)"
          using go dec Data True by (subst pump_loop.simps) simp
        ultimately show ?thesis by (intro exI conjI) (assumption, simp)
      next
        case False
        have e: "pump_loop data pos outb d body = pump_loop data (pos + n) buf d' (body @ take m buf)"
          using go dec Data False by (subst pump_loop.simps) simp
        show ?thesis unfolding e
          using dat [OF Data] n True less.prems(2) False n(2) less.prems(4)
          by (intro less.hyps [OF _ tr]) (auto simp: is_done_def)
      qed
    next
      case NeedMore
      have "pump_post Chunked stream data (Inr (length data), False, IChunked d', body)"
        using more [OF NeedMore] by (intro waiting_post) simp_all
      moreover have "pump_loop data pos outb d body = Some (Inr (length data), False, d', body)"
        using go dec NeedMore True more [OF NeedMore] by (subst pump_loop.simps) simp
      ultimately show ?thesis using more [OF NeedMore] by (intro exI conjI) (assumption, simp add: is_done_def)
    next
      case DecodeDone
      have "pump_post Chunked stream data (Inr (pos + n), True, IChunked d', body)"
        using fin [OF DecodeDone] n(1) less.prems(2) by (intro complete_post) (simp_all add: add.commute)
      moreover have "pump_loop data pos outb d body = Some (Inr (pos + n), True, d', body)"
        using go dec DecodeDone by (subst pump_loop.simps) simp
      ultimately show ?thesis by (intro exI conjI) (assumption, simp)
    next
      case (DecodeError e)
      have "pump_loop data pos outb d body = Some (Inl (Parse e), False, d', body)"
        using go dec DecodeError by (subst pump_loop.simps) simp
      with err [OF DecodeError] show ?thesis by (auto simp: pump_post_def body_verdict_def)
    qed
  qed
qed

lemma pump_length:
  fixes n :: u64 and data x :: bytes
  assumes "length x < unat n"
  defines "k \<equiv> min (length data) (unat (n - of_nat (length x)))"
  shows "pump_post (ContentLength n) (x @ data) data
    (Inr k, n - of_nat (length x) - of_nat k = 0, ILength (n - of_nat (length x) - of_nat k), x @ take k data)"
proof -
  have r: "unat (n - of_nat (length x)) = unat n - length x" using assms(1) by (intro unat_sub_of_nat) simp
  have k: "k = min (length data) (unat n - length x)" by (simp add: k_def r)
  have "unat (n - of_nat (length x) - of_nat k) = unat n - length x - k"
    using unat_sub_of_nat [of k "n - of_nat (length x)"] r k by simp
  then have z: "n - of_nat (length x) - of_nat k = 0 \<longleftrightarrow> unat n \<le> length (x @ data)"
    using k assms(1) by (auto simp: word_unat_eq_iff)
  show ?thesis
  proof (cases "unat n \<le> length (x @ data)")
    case True
    then show ?thesis using k z assms(1) by (auto simp: pump_post_def body_verdict_def intro!: exI [of _ k])
  next
    case False
    then show ?thesis using k z by (auto simp: pump_post_def body_verdict_def body_so_far_def algebra_simps)
  qed
qed

lemma pump_returns:
  assumes "body_so_far framing x (pt_framing p) (pt_body_buf p)" "\<not> pt_body_done p"
  shows "\<exists>r p'. pump p data = Some (r, p')
    \<and> pt_version p' = pt_version p \<and> pt_status p' = pt_status p \<and> pt_head p' = pt_head p
    \<and> pump_post framing (x @ data) data (r, pt_body_done p', pt_framing p', pt_body_buf p')"
proof (cases framing)
  case NoBody
  then show ?thesis using assms by (simp add: body_so_far_def)
next
  case (ContentLength n)
  then have "length x < unat n" "pt_framing p = ILength (n - of_nat (length x))" "pt_body_buf p = x"
    using assms by (simp_all add: body_so_far_def)
  with pump_length [of x n data] assms(2) ContentLength show ?thesis
    by (auto simp: pump_def Let_def)
next
  case Chunked
  then obtain d where d: "pt_framing p = IChunked d" "tracked ChunkedDecoder_new x d [] (pt_body_buf p)" "cstate d \<noteq> Done"
    using assms by (auto simp: body_so_far_def)
  have "tracked ChunkedDecoder_new (x @ data) d (drop 0 data) (pt_body_buf p)" using tracked_more [OF d(2)] by simp
  from pump_loop_returns [OF this _ d(3), of "replicate BLOCK_SIZE 0"]
  obtain r marked d' b where "pump_loop data 0 (replicate BLOCK_SIZE 0) d (pt_body_buf p) = Some (r, marked, d', b)"
    "pump_post Chunked (x @ data) data (r, marked \<or> \<not> isl r \<and> is_done d', IChunked d', b)"
    by (auto simp: BLOCK_SIZE_def)
  then show ?thesis using assms(2) d(1) Chunked by (simp add: pump_def)
next
  case UntilClose
  then show ?thesis using assms by (auto simp: pump_def body_so_far_def pump_post_def body_verdict_def)
qed

text \<open>
  The parser has taken in \<open>s\<close> since the end of the last response: either it still collects the
  head, or it is in the body.
\<close>

definition absorbed :: "ResponseParser \<Rightarrow> bytes \<Rightarrow> bool" where
  "absorbed self s =
     (case rp_partial self of
        None \<Rightarrow> rp_head_accum self = s
      | Some p \<Rightarrow>
          (\<exists>i framing n. find_blank s = Some i \<and> \<not> pt_body_done p
             \<and> parse_pool_head 0 (take (i + 4) s) = Inr (pt_version p, pt_status p, pt_head p, framing, n)
             \<and> \<not> reserve_panics framing
             \<and> body_so_far framing (drop (i + 4) s) (pt_framing p) (pt_body_buf p)))"

lemma absorbed_new: "absorbed ResponseParser_new []"
  by (simp add: absorbed_def ResponseParser_new_def)

lemma absorbed_clear: "absorbed (rp_clear self) []"
  by (simp add: absorbed_def rp_clear_def)

text \<open>What \<^verbatim>\<open>feed\<close> answers when the stream so far is \<open>s\<close>.\<close>

definition feed_post ::
  "request_id \<Rightarrow> bytes \<Rightarrow> ((Error + PoolResponse option) \<times> ResponseParser) option \<Rightarrow> bool" where
  "feed_post rid s res =
     (case stream_verdict s of
        Panicked \<Rightarrow> res = None
      | Refused e \<Rightarrow> (\<exists>p. res = Some (Inl e, p))
      | Answered a rest \<Rightarrow> (\<exists>p. res = Some (Inr (Some (answer_response rid a)), p) \<and> absorbed p rest)
      | Waiting \<Rightarrow>
          (\<exists>p. if find_blank s = None \<and> MAX_RESPONSE_HEAD < length s
               then res = Some (Inl (Connection HeadTooLarge), p)
               else res = Some (Inr None, p) \<and> absorbed p s))"

lemma body_start:
  assumes "internal_framing framing = (fr, fin)"
  shows "if fin then body_verdict framing x = Answered [] x else body_so_far framing [] fr []"
proof (cases framing)
  case (ContentLength n)
  then show ?thesis using assms unat_gt_0 [of n] by (auto simp: internal_framing_def body_verdict_def body_so_far_def)
next
  case Chunked
  then show ?thesis using assms tracked_new
    by (auto simp: internal_framing_def body_so_far_def ChunkedDecoder_new_def)
qed (use assms in \<open>auto simp: internal_framing_def body_verdict_def body_so_far_def\<close>)

lemma body_so_far_waiting: "body_so_far framing x fr b \<Longrightarrow> body_verdict framing x = Waiting"
  using tracked_exhausted
  by (cases framing) (fastforce simp: body_so_far_def body_verdict_def split: prod.splits)+

lemma feed_head:
  assumes "rp_partial self = None"
  shows "feed_post rid (rp_head_accum self @ data) (feed base self data rid)"
proof (cases "find_blank (rp_head_accum self @ data)")
  case None
  then show ?thesis using assms
    by (auto simp: feed_post_def feed_def parse_head_and_maybe_finish_def stream_verdict_def absorbed_def)
next
  case (Some i)
  let ?s = "rp_head_accum self @ data"
  show ?thesis
  proof (cases "parse_pool_head 0 (take (i + 4) ?s)")
    case (Inl e)
    then show ?thesis using assms Some
      by (simp add: feed_post_def feed_def parse_head_and_maybe_finish_def stream_verdict_def parse_pool_head_base [of base] Let_def)
  next
    case (Inr t)
    obtain v st h framing n where t: "t = (v, st, h, framing, n)" by (cases t)
    have n: "n = i + 4" using parse_pool_head_consumed [OF Some Inr [unfolded t]] .
    obtain fr fin where fr: "internal_framing framing = (fr, fin)" by (cases "internal_framing framing")
    note eq = feed_def parse_head_and_maybe_finish_def stream_verdict_def parse_pool_head_base [of base] Let_def
    show ?thesis
    proof (cases "reserve_panics framing")
      case True
      then show ?thesis using assms Some Inr by (simp add: feed_post_def eq t fr)
    next
      case False
      let ?x = "drop (i + 4) ?s"
      let ?p = "\<lparr> pt_version = v, pt_status = st, pt_head = h, pt_body_buf = [], pt_body_done = fin, pt_framing = fr \<rparr>"
      show ?thesis
      proof (cases fin)
        case True
        then have "body_verdict framing ?x = Answered [] ?x" using body_start [OF fr, of ?x] by simp
        then show ?thesis using assms Some Inr False True
          by (simp add: feed_post_def eq t fr n pool_response_def answer_response_def absorbed_def)
      next
        case nf: False
        then have start: "body_so_far framing [] (pt_framing ?p) (pt_body_buf ?p)" "\<not> pt_body_done ?p"
          using body_start [OF fr] by auto
        show ?thesis
        proof (cases "?x = []")
          case True
          then show ?thesis using assms Some Inr False nf start body_so_far_waiting [OF start(1)]
            by (auto simp: feed_post_def eq t fr n absorbed_def)
        next
          case ne: False
          obtain r p' where pm: "pump ?p ?x = Some (r, p')" "pt_version p' = v" "pt_status p' = st" "pt_head p' = h"
            and post: "pump_post framing ?x ?x (r, pt_body_done p', pt_framing p', pt_body_buf p')"
            using pump_returns [OF start, of ?x] by auto
          show ?thesis using assms Some Inr False nf ne pm post
            by (auto simp: feed_post_def eq t fr n absorbed_def pump_post_def pool_response_def answer_response_def
                 split: verdict.splits)
        qed
      qed
    qed
  qed
qed

lemma feed_body:
  assumes "rp_partial self = Some p" "absorbed self s"
  shows "feed_post rid (s @ data) (feed base self data rid)"
proof -
  obtain i framing n where f: "find_blank s = Some i" "\<not> pt_body_done p"
    "parse_pool_head 0 (take (i + 4) s) = Inr (pt_version p, pt_status p, pt_head p, framing, n)" "\<not> reserve_panics framing"
    and so: "body_so_far framing (drop (i + 4) s) (pt_framing p) (pt_body_buf p)"
    using assms by (auto simp: absorbed_def)
  have fb: "find_blank (s @ data) = Some i" "i + 4 \<le> length s"
    using f(1) by (simp_all add: find_blank_append find_blank_inside)
  have t: "take (i + 4) (s @ data) = take (i + 4) s" "drop (i + 4) (s @ data) = drop (i + 4) s @ data"
    using fb(2) by simp_all
  have sv: "stream_verdict (s @ data) = (case body_verdict framing (drop (i + 4) s @ data) of
      Answered b rest \<Rightarrow> Answered (pt_version p, pt_status p, pt_head p, b) rest
    | Refused e \<Rightarrow> Refused e | Waiting \<Rightarrow> Waiting | Panicked \<Rightarrow> Panicked)"
    unfolding stream_verdict_def fb(1) option.case t f(3) using f(4) by simp
  show ?thesis
  proof (cases "data = []")
    case True
    then have "stream_verdict (s @ data) = Waiting" using sv body_so_far_waiting [OF so] by simp
    moreover have "feed base self data rid = Some (Inr None, self\<lparr> rp_partial := Some p \<rparr>)"
      using True assms(1) f(2) by (simp add: feed_def)
    moreover have "self\<lparr> rp_partial := Some p \<rparr> = self" using assms(1) by simp
    ultimately show ?thesis using True assms(2) fb by (simp add: feed_post_def)
  next
    case False
    obtain r p' where pm: "pump p data = Some (r, p')" "pt_version p' = pt_version p" "pt_status p' = pt_status p"
      "pt_head p' = pt_head p"
      and post: "pump_post framing (drop (i + 4) s @ data) data (r, pt_body_done p', pt_framing p', pt_body_buf p')"
      using pump_returns [OF so f(2), of data] by auto
    show ?thesis using False assms(1) pm post f fb t
      by (auto simp: feed_post_def sv feed_def absorbed_def pump_post_def pool_response_def answer_response_def
           split: verdict.splits)
  qed
qed

lemma feed_returns: "absorbed self s \<Longrightarrow> feed_post rid (s @ data) (feed base self data rid)"
  using feed_head [of self rid data base] feed_body [of self _ s rid data base]
  by (cases "rp_partial self") (auto simp: absorbed_def)

text \<open>The pieces of a stream, each with the address its buffer had, fed until there is an answer.\<close>

fun feed_segments ::
  "ResponseParser \<Rightarrow> (usize \<times> bytes) list \<Rightarrow> request_id
   \<Rightarrow> ((Error + PoolResponse option) \<times> ResponseParser \<times> (usize \<times> bytes) list) option" where
  "feed_segments self [] rid = Some (Inr None, self, [])"
| "feed_segments self ((base, data) # segs) rid =
     Option.bind (feed base self data rid) (\<lambda>(r, self).
       if r = Inr None then feed_segments self segs rid else Some (r, self, segs))"

abbreviation joined :: "(usize \<times> bytes) list \<Rightarrow> bytes" where
  "joined segs \<equiv> concat (map snd segs)"

definition segments_post ::
  "request_id \<Rightarrow> bytes \<Rightarrow> (usize \<times> bytes) list
   \<Rightarrow> ((Error + PoolResponse option) \<times> ResponseParser \<times> (usize \<times> bytes) list) option \<Rightarrow> bool" where
  "segments_post rid s segs res =
     (case res of
        None \<Rightarrow> stream_verdict (s @ joined segs) = Panicked
      | Some (Inr None, p, left) \<Rightarrow> left = [] \<and> absorbed p (s @ joined segs)
      | Some (Inr (Some r), p, left) \<Rightarrow>
          (\<exists>a rest. stream_verdict (s @ joined segs) = Answered a (rest @ joined left)
             \<and> r = answer_response rid a \<and> absorbed p rest)
      | Some (Inl e, p, left) \<Rightarrow>
          stream_verdict (s @ joined segs) = Refused e
          \<or> e = Connection HeadTooLarge
            \<and> (\<exists>fed. s @ joined segs = fed @ joined left \<and> find_blank fed = None \<and> MAX_RESPONSE_HEAD < length fed))"

lemma segments_post_Cons:
  "segments_post rid (s @ data) segs res \<Longrightarrow> segments_post rid s ((b, data) # segs) res"
  unfolding segments_post_def list.map concat.simps snd_conv append_assoc .

lemma feed_segments_returns: "absorbed self s \<Longrightarrow> segments_post rid s segs (feed_segments self segs rid)"
proof (induction self segs rid arbitrary: s rule: feed_segments.induct)
  case (1 self rid)
  then show ?case by (simp add: segments_post_def)
next
  case (2 self base data segs rid)
  note fp = feed_returns [OF "2.prems", of rid data base]
  show ?case
  proof (cases "feed base self data rid")
    case None
    then have "stream_verdict (s @ data) = Panicked"
      using fp by (auto simp: feed_post_def split: verdict.splits if_splits)
    then show ?thesis using None stream_verdict_append(3) [of "s @ data" "joined segs"] by (simp add: segments_post_def)
  next
    case (Some rp)
    obtain r p where rp: "rp = (r, p)" by (cases rp)
    show ?thesis
    proof (cases "r = Inr None")
      case True
      then have "absorbed p (s @ data)" using fp Some rp by (auto simp: feed_post_def split: verdict.splits if_splits)
      from "2.IH" [OF Some, of r p "s @ data"] this True rp show ?thesis
        using Some by (auto intro: segments_post_Cons)
    next
      case False
      then have e: "feed_segments self ((base, data) # segs) rid = Some (r, p, segs)" using Some rp by simp
      show ?thesis
      proof (cases "stream_verdict (s @ data)")
        case Waiting
        then have "r = Inl (Connection HeadTooLarge) \<and> find_blank (s @ data) = None \<and> MAX_RESPONSE_HEAD < length (s @ data)"
          using fp Some rp False by (auto simp: feed_post_def split: if_splits)
        then show ?thesis unfolding e by (auto simp: segments_post_def intro!: exI [of _ "s @ data"])
      next
        case (Answered a rest)
        then show ?thesis using fp Some rp stream_verdict_append(1) [OF Answered, of "joined segs"]
          unfolding e by (auto simp: segments_post_def feed_post_def)
      next
        case (Refused x)
        then show ?thesis using fp Some rp stream_verdict_append(2) [OF Refused, of "joined segs"]
          unfolding e by (auto simp: segments_post_def feed_post_def)
      next
        case Panicked
        then show ?thesis using fp Some by (simp add: feed_post_def)
      qed
    qed
  qed
qed


section \<open>The headers of an answer\<close>

definition range_inside :: "usize \<Rightarrow> HeaderRange \<Rightarrow> bool" where
  "range_inside n r = (unat (name_start r) + unat (name_len r) \<le> n \<and> unat (value_start r) + unat (value_len r) \<le> n)"

lemma build_ranges_loop_inside:
  assumes "build_ranges_loop (header_slices base buf spans) \<lparr> addr = base, contents = buf \<rparr> i ranges = Inr rs"
    and "\<forall>(n, v)\<in>set spans. fst n \<le> snd n \<and> snd n < length buf \<and> fst v \<le> snd v \<and> snd v < length buf"
    and "\<forall>r\<in>set ranges. range_inside (length buf) r"
  shows "\<forall>r\<in>set rs. range_inside (length buf) r"
  using assms
proof (induction spans arbitrary: i ranges)
  case Nil
  then show ?case by (simp add: header_slices_def)
next
  case (Cons nv spans)
  obtain n v where nv: "nv = (n, v)" by (cases nv)
  have b: "fst n \<le> snd n" "snd n < length buf" "fst v \<le> snd v" "snd v < length buf" using Cons.prems(2) nv by auto
  let ?r = "\<lparr> name_start = of_nat (fst n), name_len = of_nat (snd n - fst n),
    value_start = of_nat (fst v), value_len = of_nat (snd v - fst v) \<rparr>"
  have lt: "fst n < 2 ^ 32" "snd n - fst n < 2 ^ 32" "fst v < 2 ^ 32" "snd v - fst v < 2 ^ 32"
    and rec: "build_ranges_loop (header_slices base buf spans) \<lparr> addr = base, contents = buf \<rparr> (i + 1) (ranges[i := ?r]) = Inr rs"
    using Cons.prems(1) b
    by (auto simp: nv header_slices_def span_slice_def offset_in_or_find_def span_bytes_def slice_def res_simps Let_def from_parts_Inr)
  have "range_inside (length buf) ?r" using lt b by (simp add: range_inside_def unat_of_nat_u32 del: of_nat_diff)
  then have "\<forall>r\<in>set (ranges[i := ?r]). range_inside (length buf) r"
    using Cons.prems(3) set_update_subset_insert [of ranges i ?r] by blast
  with Cons.IH [OF rec] Cons.prems(2) show ?case by simp
qed

lemma ph_headers_ranges:
  assumes "\<forall>r\<in>set (take (ph_header_count h) (ph_ranges h)). range_inside (length (ph_head_buf h)) r"
  shows "ph_headers h = map (\<lambda>r. (range_name (ph_head_buf h) r, range_value (ph_head_buf h) r))
    (take (ph_header_count h) (ph_ranges h))"
proof -
  have f: "List.map_filter f xs = map g xs" if "\<forall>x\<in>set xs. f x = Some (g x)"
    for f :: "HeaderRange \<Rightarrow> (bytes \<times> bytes) option" and g xs
    using that by (induction xs) (auto simp: List.map_filter_simps)
  show ?thesis unfolding ph_headers_def
    using assms by (intro f) (auto simp: Let_def get_slice_def range_inside_def range_name_def range_value_def slice_def)
qed

text \<open>
  The headers a caller of the pool reads off a response are the headers the head parser
  found, in their order, none left out, though they are kept as 32-bit offsets and read back
  with bounds checks that skip a header that does not fit.
\<close>

theorem pool_head_headers:
  assumes "parse_pool_head base b = Inr (v, st, h, framing, n)"
  shows "\<exists>hh slots spans. parse_head b (replicate MAX_HEADERS Header_empty) = Inr (hh, slots, spans, n)
    \<and> v = version hh \<and> st = status hh \<and> ph_headers h = header_pairs (take (header_count hh) slots)
    \<and> from_response st Get (take (header_count hh) slots) = Inr framing"
proof -
  obtain hh slots spans where p: "parse_head b (replicate MAX_HEADERS Header_empty) = Inr (hh, slots, spans, n)"
    using assms by (auto simp: parse_pool_head_def res_simps)
  have l: "take (header_count hh) (header_slices base b spans) = header_slices base b spans"
    using parsed_slices(3) [OF p, of base] by simp
  obtain rs where rs: "build_ranges (header_slices base b spans) \<lparr> addr = base, contents = b \<rparr> = Inr rs"
    and h: "h = \<lparr> ph_head_buf = b, ph_ranges = rs, ph_header_count = header_count hh \<rparr>"
    and f: "v = version hh" "st = status hh" "from_response st Get (take (header_count hh) slots) = Inr framing"
    using assms p unfolding parse_pool_head_def by (auto simp: res_simps l head_headers_def split: if_splits)
  have rl: "build_ranges_loop (header_slices base b spans) \<lparr> addr = base, contents = b \<rparr> 0
      (replicate MAX_HEADERS HeaderRange_default) = Inr rs"
    using rs by (simp add: build_ranges_def split: if_splits)
  have "\<forall>r\<in>set rs. range_inside (length b) r"
    by (rule build_ranges_loop_inside [OF rl parsed_span_bounds [OF p]])
       (auto simp: range_inside_def HeaderRange_default_def)
  then have "ph_headers h = map (\<lambda>r. (range_name b r, range_value b r)) (take (header_count hh) rs)"
    using ph_headers_ranges [of h] by (auto simp: h dest: in_set_takeD)
  with parsed_ranges_sound [OF p rs] p f show ?thesis by (auto simp: header_pairs_def)
qed

lemma sample_pool_head:
  "\<exists>v st h framing n. parse_pool_head 0 sample_head = Inr (v, st, h, framing, n)"
proof -
  have "case parse_pool_head 0 sample_head of Inr _ \<Rightarrow> True | Inl _ \<Rightarrow> False" by code_simp
  then show ?thesis by (auto split: sum.splits)
qed

theorem pool_head_headers_witness:
  "\<exists>v st h framing n. parse_pool_head 0 sample_head = Inr (v, st, h, framing, n) \<and> ph_headers h = [(bs ''A'', bs ''b'')]"
proof -
  obtain v st h framing n where p: "parse_pool_head 0 sample_head = Inr (v, st, h, framing, n)"
    using sample_pool_head by blast
  have "case parse_head sample_head (replicate MAX_HEADERS Header_empty) of
      Inr (hh, slots, _) \<Rightarrow> header_pairs (take (header_count hh) slots) = [(bs ''A'', bs ''b'')] | Inl _ \<Rightarrow> False"
    by code_simp
  with pool_head_headers [OF p] have "ph_headers h = [(bs ''A'', bs ''b'')]" by auto
  with p show ?thesis by blast
qed

end
