(* ===== verification/Driver_Complete.thy ===== *)
theory Driver_Complete
  imports Driver_Parser
begin

text \<open>
  \<^verbatim>\<open>xibalba-iouring/src/driver.rs\<close>, second part: what the completion thread keeps for one
  connection. A completed send puts its request id into the queue of the connection, received
  bytes are fed to its parser for the id in front, and finished responses go to the caller.
  The results: under every interleaving the responses answer the requests in order, received
  bytes are used at once, and two cases in which the queue and the stream part company.
\<close>

section \<open>Definitions\<close>

subsection \<open>One connection\<close>

record ConnData =
  cd_conn_id :: u32
  cd_fd :: u64
  cd_pending_ids :: "request_id list"
  cd_parser :: ResponseParser
  cd_recv_buf :: bytes

definition ConnData_new :: "u32 \<Rightarrow> ConnData" where
  "ConnData_new conn_id =
     \<lparr> cd_conn_id = conn_id, cd_fd = - 1, cd_pending_ids = [], cd_parser = ResponseParser_new, cd_recv_buf = [] \<rparr>"

definition push_recv_data :: "ConnData \<Rightarrow> bytes \<Rightarrow> ConnData" where
  "push_recv_data self data = self\<lparr> cd_recv_buf := cd_recv_buf self @ data \<rparr>"

definition pop_pending_id :: "ConnData \<Rightarrow> request_id option \<times> ConnData" where
  "pop_pending_id self =
     (case cd_pending_ids self of
        [] \<Rightarrow> (None, self)
      | i # ids \<Rightarrow> (Some i, self\<lparr> cd_pending_ids := ids \<rparr>))"

text \<open>
  The loop of \<^verbatim>\<open>drain_recv_buf\<close>, with the results it pushes. The first call feeds the data, the
  later ones go on with what the parser kept.
\<close>

function drain_loop :: "usize \<Rightarrow> bytes \<Rightarrow> ConnData \<Rightarrow> (ConnResult list \<times> ConnData) option" where
  "drain_loop base data conn =
     (case cd_pending_ids conn of
        [] \<Rightarrow> Some ([], conn)
      | request_id # ids \<Rightarrow>
          (case feed base (cd_parser conn) data request_id of
             None \<Rightarrow> None
           | Some (Inr (Some resp), parser) \<Rightarrow>
               map_option (\<lambda>(sent, conn). (CResponse resp # sent, conn))
                 (drain_loop base [] (conn\<lparr> cd_parser := parser, cd_pending_ids := ids \<rparr>))
           | Some (Inr None, parser) \<Rightarrow> Some ([], conn\<lparr> cd_parser := parser \<rparr>)
           | Some (Inl error, parser) \<Rightarrow>
               Some ([CProtocolError request_id \<lparr> ch_conn_id = cd_conn_id conn, ch_fd = cd_fd conn \<rparr> error],
                     conn\<lparr> cd_pending_ids := ids, cd_parser := rp_clear parser, cd_recv_buf := [] \<rparr>)))"
  by pat_completeness auto

termination drain_loop
  by (relation "measure (\<lambda>(base, data, conn). length (cd_pending_ids conn))") auto

definition drain_recv_buf :: "usize \<Rightarrow> ConnData \<Rightarrow> bytes \<Rightarrow> (ConnResult list \<times> ConnData) option" where
  "drain_recv_buf base conn data = drain_loop base data conn"

text \<open>A successful send of this connection: its id waits for a response.\<close>

definition enqueue_id :: "usize \<Rightarrow> request_id \<Rightarrow> ConnData \<Rightarrow> (ConnResult list \<times> ConnData) option" where
  "enqueue_id base request_id conn =
     (let conn = conn\<lparr> cd_pending_ids := cd_pending_ids conn @ [request_id] \<rparr> in
      if cd_recv_buf conn \<noteq> [] then
        let buf = cd_recv_buf conn in drain_recv_buf base (conn\<lparr> cd_recv_buf := [] \<rparr>) buf
      else Some ([], conn))"

text \<open>Bytes for this connection.\<close>

definition receive_data :: "usize \<Rightarrow> u64 \<Rightarrow> bytes \<Rightarrow> ConnData \<Rightarrow> (ConnResult list \<times> ConnData) option" where
  "receive_data base fd data conn =
     (let conn = conn\<lparr> cd_fd := fd \<rparr> in
      if cd_pending_ids conn = [] then Some ([], push_recv_data conn data)
      else drain_recv_buf base conn data)"

text \<open>The end of the stream.\<close>

definition finish_until_close :: "ConnHandle \<Rightarrow> ConnData \<Rightarrow> ConnResult list \<times> ConnData" where
  "finish_until_close conn_handle conn =
     (case rp_partial (cd_parser conn) of
        Some p \<Rightarrow>
          if pt_framing p = IUntilClose then
            let (rid, conn) = pop_pending_id conn in
            ([CResponse (pool_response (case rid of Some i \<Rightarrow> i | None \<Rightarrow> 0) p)],
             conn\<lparr> cd_parser := rp_clear (cd_parser conn), cd_recv_buf := [] \<rparr>)
          else
            let (rid, conn) = pop_pending_id conn in
            ([CError (case rid of Some i \<Rightarrow> i | None \<Rightarrow> 0) conn_handle 0],
             conn\<lparr> cd_parser := rp_clear (cd_parser conn), cd_recv_buf := [] \<rparr>)
      | None \<Rightarrow>
          let (rid, conn) = pop_pending_id conn in
          ([CError (case rid of Some i \<Rightarrow> i | None \<Rightarrow> 0) conn_handle 0],
           conn\<lparr> cd_parser := rp_clear (cd_parser conn), cd_recv_buf := [] \<rparr>))"

text \<open>A failed receive.\<close>

definition receive_failed :: "ConnHandle \<Rightarrow> 32 word \<Rightarrow> ConnData \<Rightarrow> ConnResult list \<times> ConnData" where
  "receive_failed conn_handle result conn =
     (let (rid, conn) = pop_pending_id conn in
      ([CError (case rid of Some i \<Rightarrow> i | None \<Rightarrow> 0) conn_handle (- result)],
       conn\<lparr> cd_parser := rp_clear (cd_parser conn), cd_recv_buf := [] \<rparr>))"

text \<open>The request a result is for.\<close>

definition result_id :: "ConnResult \<Rightarrow> request_id" where
  "result_id r =
     (case r of
        CResponse resp \<Rightarrow> pr_request_id resp
      | CError request_id _ _ \<Rightarrow> request_id
      | CProtocolError request_id _ _ \<Rightarrow> request_id
      | CTimeout \<Rightarrow> 0)"

declare drain_loop.simps [simp del]

section \<open>Responses in order\<close>

text \<open>
  Reference: the ids in front of the queue are served with the answers at the front of the
  stream, the first with the first.
\<close>

inductive serves :: "request_id list \<Rightarrow> bytes \<Rightarrow> ConnResult list \<Rightarrow> request_id list \<Rightarrow> bytes \<Rightarrow> bool" where
  rest: "serves ids s [] ids s"
| answer: "stream_verdict s = Answered a s1 \<Longrightarrow> serves ids s1 sent ids' s' \<Longrightarrow>
    serves (i # ids) s (CResponse (answer_response i a) # sent) ids' s'"

lemma serves_append:
  "serves ids s sent ids' s' \<Longrightarrow> serves (ids @ js) (s @ y) sent (ids' @ js) (s' @ y)"
proof (induction rule: serves.induct)
  case (answer s a s1 ids sent ids' s' i)
  then show ?case using serves.answer [OF stream_verdict_append(1) [OF answer(1)]] by simp
qed (rule serves.rest)

lemma serves_trans:
  "serves ids s sent ids1 s1 \<Longrightarrow> serves ids1 s1 sent2 ids2 s2 \<Longrightarrow> serves ids s (sent @ sent2) ids2 s2"
  by (induction rule: serves.induct) (auto intro: serves.answer)

fun is_response :: "ConnResult \<Rightarrow> bool" where
  "is_response (CResponse r) = True"
| "is_response r = False"

lemma serves_ids: "serves ids s sent ids' s' \<Longrightarrow> ids = map result_id sent @ ids' \<and> list_all is_response sent"
  by (induction rule: serves.induct) (auto simp: result_id_def answer_response_def)

text \<open>Why a connection is given up: the stream at this point.\<close>

definition bad_stream :: "bytes \<Rightarrow> Error \<Rightarrow> bool" where
  "bad_stream s e =
     (stream_verdict s = Refused e
      \<or> e = Connection HeadTooLarge \<and> find_blank s = None \<and> MAX_RESPONSE_HEAD < length s)"

definition drained ::
  "request_id list \<Rightarrow> bytes \<Rightarrow> ConnData \<Rightarrow> (ConnResult list \<times> ConnData) option \<Rightarrow> bool" where
  "drained ids s c res =
     (case res of
        None \<Rightarrow> (\<exists>sent i ids' s'. serves ids s sent (i # ids') s' \<and> stream_verdict s' = Panicked)
      | Some (sent, c') \<Rightarrow>
          cd_conn_id c' = cd_conn_id c \<and> cd_fd c' = cd_fd c
          \<and> ((\<exists>s'. serves ids s sent (cd_pending_ids c') s' \<and> absorbed (cd_parser c') s'
                \<and> cd_recv_buf c' = cd_recv_buf c \<and> (cd_pending_ids c' \<noteq> [] \<longrightarrow> stream_verdict s' = Waiting))
             \<or> (\<exists>ok i s' e. sent = ok @ [CProtocolError i \<lparr> ch_conn_id = cd_conn_id c, ch_fd = cd_fd c \<rparr> e]
                \<and> serves ids s ok (i # cd_pending_ids c') s' \<and> bad_stream s' e
                \<and> absorbed (cd_parser c') [] \<and> cd_recv_buf c' = [])))"

lemma drained_frame: "drained ids s (c\<lparr> cd_parser := p, cd_pending_ids := q \<rparr>) res = drained ids s c res"
  by (cases res) (auto simp: drained_def)

lemma drained_answer:
  assumes "stream_verdict s = Answered a s1" "drained ids s1 c res"
  shows "drained (i # ids) s c (map_option (\<lambda>(sent, conn). (CResponse (answer_response i a) # sent, conn)) res)"
proof (cases res)
  case None
  then show ?thesis using assms serves.answer [OF assms(1)] by (fastforce simp: drained_def)
next
  case (Some r)
  obtain sent c' where r: "r = (sent, c')" by (cases r)
  note d = assms(2) [unfolded drained_def Some r option.case prod.case]
  from d consider
    (ok) s' where "serves ids s1 sent (cd_pending_ids c') s'" "absorbed (cd_parser c') s'"
      "cd_recv_buf c' = cd_recv_buf c" "cd_pending_ids c' \<noteq> [] \<longrightarrow> stream_verdict s' = Waiting"
  | (bad) ok j s' e where "sent = ok @ [CProtocolError j \<lparr> ch_conn_id = cd_conn_id c, ch_fd = cd_fd c \<rparr> e]"
      "serves ids s1 ok (j # cd_pending_ids c') s'" "bad_stream s' e" "absorbed (cd_parser c') []" "cd_recv_buf c' = []"
    by blast
  then show ?thesis
  proof cases
    case ok
    then show ?thesis using d serves.answer [OF assms(1) ok(1)] Some r by (auto simp: drained_def)
  next
    case bad
    then show ?thesis using d serves.answer [OF assms(1) bad(2)] Some r
      by (auto simp: drained_def intro!: exI [of _ "CResponse (answer_response i a) # ok"])
  qed
qed

lemma drain_loop_refused:
  assumes "cd_pending_ids c = i # ids" "feed base (cd_parser c) data i = Some (Inl e, p)" "bad_stream s e"
  shows "drained (cd_pending_ids c) s c (drain_loop base data c)"
proof -
  have "serves (i # ids) s [] (i # ids) s" by (rule serves.rest)
  then show ?thesis
    unfolding drained_def using assms absorbed_clear
    by (subst drain_loop.simps) (simp, rule disjI2, auto)
qed

lemma drain_loop_returns:
  "absorbed (cd_parser c) s \<Longrightarrow> cd_pending_ids c \<noteq> [] \<or> data = [] \<Longrightarrow> drained (cd_pending_ids c) (s @ data) c (drain_loop base data c)"
proof (induction base data c arbitrary: s rule: drain_loop.induct)
  case (1 base data c)
  show ?case
  proof (cases "cd_pending_ids c")
    case Nil
    then show ?thesis using "1.prems" serves.rest [of "[]" s]
      by (subst drain_loop.simps) (auto simp: drained_def)
  next
    case (Cons i ids)
    note fp = feed_returns [OF "1.prems"(1), of i data base, unfolded feed_post_def]
    show ?thesis
    proof (cases "stream_verdict (s @ data)")
      case Waiting
      show ?thesis
      proof (cases "find_blank (s @ data) = None \<and> MAX_RESPONSE_HEAD < length (s @ data)")
        case True
        then obtain p where "feed base (cd_parser c) data i = Some (Inl (Connection HeadTooLarge), p)"
          using fp Waiting by auto
        moreover have "bad_stream (s @ data) (Connection HeadTooLarge)" using True by (simp add: bad_stream_def)
        ultimately show ?thesis by (rule drain_loop_refused [OF Cons])
      next
        case False
        then obtain p where "feed base (cd_parser c) data i = Some (Inr None, p)" "absorbed p (s @ data)"
          using fp Waiting by auto
        then show ?thesis using Waiting Cons serves.rest [of "i # ids" "s @ data"]
          by (subst drain_loop.simps) (auto simp: drained_def)
      qed
    next
      case (Answered a rest)
      then obtain p where p: "feed base (cd_parser c) data i = Some (Inr (Some (answer_response i a)), p)" "absorbed p rest"
        using fp by auto
      let ?c = "c\<lparr> cd_parser := p, cd_pending_ids := ids \<rparr>"
      have "drained ids rest c (drain_loop base [] ?c)" 
        using "1.IH" [OF Cons p(1) refl refl refl, of rest] p(2) by (simp add: drained_frame)
      from drained_answer [OF Answered this] show ?thesis
        using p Cons by (subst drain_loop.simps) simp
    next
      case (Refused e)
      then obtain p where "feed base (cd_parser c) data i = Some (Inl e, p)" using fp by auto
      moreover have "bad_stream (s @ data) e" using Refused by (simp add: bad_stream_def)
      ultimately show ?thesis by (rule drain_loop_refused [OF Cons])
    next
      case Panicked
      then have "feed base (cd_parser c) data i = None" using fp by simp
      then show ?thesis using Panicked Cons serves.rest
        by (subst drain_loop.simps) (fastforce simp: drained_def)
    qed
  qed
qed

section \<open>A connection under any interleaving\<close>

text \<open>
  The bytes of the stream a connection still holds: in the parser and, while no id waits, in
  the buffer before it.
\<close>

definition conn_holds :: "ConnData \<Rightarrow> bytes \<Rightarrow> bool" where
  "conn_holds c s =
     (\<exists>x. absorbed (cd_parser c) x \<and> s = x @ cd_recv_buf c \<and> (cd_pending_ids c \<noteq> [] \<longrightarrow> cd_recv_buf c = []))"

lemma conn_holds_new: "conn_holds (ConnData_new n) []"
  using absorbed_new by (simp add: conn_holds_def ConnData_new_def)

text \<open>What one step may give: responses in order, or those and the end of the connection.\<close>

definition step_post ::
  "request_id list \<Rightarrow> bytes \<Rightarrow> (ConnResult list \<times> ConnData) option \<Rightarrow> bool" where
  "step_post ids s res =
     (case res of
        None \<Rightarrow> (\<exists>sent i ids' s'. serves ids s sent (i # ids') s' \<and> stream_verdict s' = Panicked)
      | Some (sent, c') \<Rightarrow>
          (\<exists>s'. serves ids s sent (cd_pending_ids c') s' \<and> conn_holds c' s')
          \<or> (\<exists>ok i h s' e. sent = ok @ [CProtocolError i h e]
                \<and> serves ids s ok (i # cd_pending_ids c') s' \<and> bad_stream s' e \<and> conn_holds c' []))"

lemma drained_step:
  assumes "drained ids s c res" "cd_recv_buf c = []"
  shows "step_post ids s res"
proof (cases res)
  case None
  then show ?thesis using assms by (simp add: drained_def step_post_def)
next
  case (Some r)
  obtain sent c' where r: "r = (sent, c')" by (cases r)
  from assms show ?thesis
    unfolding Some r drained_def step_post_def option.case prod.case conn_holds_def by fastforce
qed

lemma enqueue_id_step:
  assumes "conn_holds c s"
  shows "step_post (cd_pending_ids c @ [i]) s (enqueue_id base i c)"
proof -
  obtain x where x: "absorbed (cd_parser c) x" "s = x @ cd_recv_buf c" "cd_pending_ids c \<noteq> [] \<longrightarrow> cd_recv_buf c = []"
    using assms by (auto simp: conn_holds_def)
  show ?thesis
  proof (cases "cd_recv_buf c = []")
    case True
    then show ?thesis using x serves.rest [of "cd_pending_ids c @ [i]" x]
      by (auto simp: enqueue_id_def step_post_def conn_holds_def)
  next
    case False
    let ?c = "c\<lparr> cd_pending_ids := cd_pending_ids c @ [i], cd_recv_buf := [] \<rparr>"
    have "drained (cd_pending_ids ?c) (x @ cd_recv_buf c) ?c (drain_loop base (cd_recv_buf c) ?c)"
      using x(1) by (intro drain_loop_returns) simp_all
    from drained_step [OF this] show ?thesis using False x(2) by (simp add: enqueue_id_def drain_recv_buf_def)
  qed
qed

lemma receive_data_step:
  assumes "conn_holds c s"
  shows "step_post (cd_pending_ids c) (s @ data) (receive_data base fd data c)"
proof -
  obtain x where x: "absorbed (cd_parser c) x" "s = x @ cd_recv_buf c" "cd_pending_ids c \<noteq> [] \<longrightarrow> cd_recv_buf c = []"
    using assms by (auto simp: conn_holds_def)
  show ?thesis
  proof (cases "cd_pending_ids c = []")
    case True
    then show ?thesis using x serves.rest [of "[]" "s @ data"]
      by (auto simp: receive_data_def push_recv_data_def step_post_def conn_holds_def)
  next
    case False
    let ?c = "c\<lparr> cd_fd := fd \<rparr>"
    have "drained (cd_pending_ids ?c) (x @ data) ?c (drain_loop base data ?c)"
      using x(1) False by (intro drain_loop_returns) simp_all
    from drained_step [OF this] show ?thesis using False x(2,3) by (simp add: receive_data_def drain_recv_buf_def)
  qed
qed

fun run_events ::
  "('e \<Rightarrow> 'c \<Rightarrow> (ConnResult list \<times> 'c) option) \<Rightarrow> 'e list \<Rightarrow> 'c \<Rightarrow> (ConnResult list \<times> 'c) option" where
  "run_events step [] c = Some ([], c)"
| "run_events step (e # es) c =
     Option.bind (step e c) (\<lambda>(sent, c).
       map_option (\<lambda>(later, c). (sent @ later, c)) (run_events step es c))"

text \<open>
  What a run may give: the responses before the first failure serve the ids in order from the
  stream; without a failure the connection holds the rest; and a failure is for the id whose
  turn it is, because of the stream at that point.
\<close>

definition in_order ::
  "request_id list \<Rightarrow> bytes \<Rightarrow> ConnResult list \<Rightarrow> (request_id list \<Rightarrow> bytes \<Rightarrow> bool) \<Rightarrow> bool" where
  "in_order ids s sent rest =
     (\<exists>ids' s'. serves ids s (takeWhile is_response sent) ids' s'
        \<and> (case dropWhile is_response sent of
             [] \<Rightarrow> rest ids' s'
           | r # _ \<Rightarrow> (\<exists>i h e x y. r = CProtocolError i h e \<and> ids' \<noteq> [] \<and> hd ids' = i \<and> s' = x @ y \<and> bad_stream x e)))"

text \<open>
  A connection as the queue of its requests sees it: every step takes in some ids and some
  bytes and serves in order.
\<close>

locale fifo_connection =
  fixes step :: "'e \<Rightarrow> 'c \<Rightarrow> (ConnResult list \<times> 'c) option"
    and pending :: "'c \<Rightarrow> request_id list" and holds :: "'c \<Rightarrow> bytes \<Rightarrow> bool"
    and ids_of :: "'e \<Rightarrow> request_id list" and bytes_of :: "'e \<Rightarrow> bytes"
  assumes step_serves: "holds c s \<Longrightarrow> step e c = Some (sent, c') \<Longrightarrow>
    (\<exists>s'. serves (pending c @ ids_of e) (s @ bytes_of e) sent (pending c') s' \<and> holds c' s')
    \<or> (\<exists>ok i h s' err. sent = ok @ [CProtocolError i h err]
         \<and> serves (pending c @ ids_of e) (s @ bytes_of e) ok (i # pending c') s' \<and> bad_stream s' err)"
begin

lemma run_in_order:
  assumes "holds c s" "run_events step es c = Some (sent, c')"
  shows "in_order (pending c @ concat (map ids_of es)) (s @ concat (map bytes_of es)) sent
    (\<lambda>ids s. ids = pending c' \<and> holds c' s)"
  using assms
proof (induction es arbitrary: c s sent)
  case Nil
  then show ?case using serves.rest [of "pending c" s] by (auto simp: in_order_def)
next
  case (Cons e es)
  obtain sent1 c1 later where st: "step e c = Some (sent1, c1)" and run: "run_events step es c1 = Some (later, c')"
    and sent: "sent = sent1 @ later"
    using Cons.prems(2) by (auto simp: bind_eq_Some_conv)
  let ?ids = "concat (map ids_of es)" and ?b = "concat (map bytes_of es)"
  from step_serves [OF Cons.prems(1) st] show ?case
  proof (elim disjE exE conjE)
    fix s1 assume sv: "serves (pending c @ ids_of e) (s @ bytes_of e) sent1 (pending c1) s1" and h: "holds c1 s1"
    have r: "\<forall>x\<in>set sent1. is_response x" using serves_ids [OF sv] by (simp add: list_all_iff)
    from Cons.IH [OF h run] obtain ids' s' where i: "serves (pending c1 @ ?ids) (s1 @ ?b) (takeWhile is_response later) ids' s'"
      and t: "case dropWhile is_response later of [] \<Rightarrow> ids' = pending c' \<and> holds c' s'
        | r # _ \<Rightarrow> (\<exists>i h e x y. r = CProtocolError i h e \<and> ids' \<noteq> [] \<and> hd ids' = i \<and> s' = x @ y \<and> bad_stream x e)"
      by (auto simp: in_order_def)
    from serves_trans [OF serves_append [OF sv, of ?ids ?b] i] t show ?case
      using r unfolding in_order_def sent by (auto simp: takeWhile_append2 dropWhile_append2)
  next
    fix ok i h s' err
    assume s1: "sent1 = ok @ [CProtocolError i h err]"
      and sv: "serves (pending c @ ids_of e) (s @ bytes_of e) ok (i # pending c1) s'" and b: "bad_stream s' err"
    have r: "\<forall>x\<in>set ok. is_response x" using serves_ids [OF sv] by (simp add: list_all_iff)
    have "takeWhile is_response sent = ok" "dropWhile is_response sent = CProtocolError i h err # later"
      using r by (simp_all add: sent s1 takeWhile_append2 dropWhile_append2)
    with serves_append [OF sv, of ?ids ?b] b show ?case unfolding in_order_def by fastforce
  qed
qed

end

text \<open>The completions of one connection, in the order the thread reaps them.\<close>

datatype conn_event = Sent request_id | Received u64 bytes

fun conn_step :: "usize \<Rightarrow> conn_event \<Rightarrow> ConnData \<Rightarrow> (ConnResult list \<times> ConnData) option" where
  "conn_step base (Sent i) c = enqueue_id base i c"
| "conn_step base (Received fd data) c = receive_data base fd data c"

fun event_ids :: "conn_event \<Rightarrow> request_id list" where
  "event_ids (Sent i) = [i]"
| "event_ids (Received fd data) = []"

fun event_bytes :: "conn_event \<Rightarrow> bytes" where
  "event_bytes (Sent i) = []"
| "event_bytes (Received fd data) = data"

lemma conn_step_post:
  "conn_holds c s \<Longrightarrow> step_post (cd_pending_ids c @ event_ids e) (s @ event_bytes e) (conn_step base e c)"
  using enqueue_id_step receive_data_step by (cases e) auto

interpretation pool_conn: fifo_connection "conn_step base" cd_pending_ids conn_holds event_ids event_bytes
proof (unfold_locales, goal_cases)
  case (1 c s e sent c')
  from conn_step_post [OF 1(1), of e base] 1(2) show ?case by (fastforce simp: step_post_def)
qed

text \<open>
  C5: pipelined responses reach the requests they answer. For every interleaving of the sends
  of a connection with the bytes it receives, the responses pushed to the caller (up to a
  failure) carry the ids in the order of the sends, the n-th response being the n-th
  response of the byte stream however it was cut, whether its bytes came before or after
  the completion of its send; the ids not served stay queued and no byte is lost; and a failure is reported
  for the request whose turn it was, and only for a stream that is malformed there or a head
  beyond 64 KiB.
\<close>

theorem pipelined_in_order:
  assumes "run_events (conn_step base) es (ConnData_new n) = Some (sent, c)"
  shows "in_order (concat (map event_ids es)) (concat (map event_bytes es)) sent
      (\<lambda>ids s. ids = cd_pending_ids c \<and> conn_holds c s)
    \<and> (list_all is_response sent \<longrightarrow> map result_id sent @ cd_pending_ids c = concat (map event_ids es))"
proof -
  have p: "cd_pending_ids (ConnData_new n) = []" by (simp add: ConnData_new_def)
  have o: "in_order (concat (map event_ids es)) (concat (map event_bytes es)) sent
      (\<lambda>ids s. ids = cd_pending_ids c \<and> conn_holds c s)"
    using pool_conn.run_in_order [OF conn_holds_new assms] by (simp add: p)
  moreover have "map result_id sent @ cd_pending_ids c = concat (map event_ids es)" if a: "list_all is_response sent"
  proof -
    have "takeWhile is_response sent = sent" "dropWhile is_response sent = []"
      using a by (simp_all add: list_all_iff takeWhile_eq_all_conv dropWhile_eq_Nil_conv)
    with o show ?thesis using serves_ids by (fastforce simp: in_order_def)
  qed
  ultimately show ?thesis by blast
qed

text \<open>
  C11: received bytes are used at once. When bytes arrive on a connection with waiting requests and
  no failure is reported, then afterwards either every request has been served or the stream
  needs more bytes for the next response: no complete response is left in the buffers.
\<close>

theorem receive_settles:
  assumes "conn_holds c s" "cd_pending_ids c \<noteq> []"
    and "receive_data base fd data c = Some (sent, c')" "list_all is_response sent"
  shows "\<exists>s'. serves (cd_pending_ids c) (s @ data) sent (cd_pending_ids c') s' \<and> conn_holds c' s'
    \<and> (cd_pending_ids c' \<noteq> [] \<longrightarrow> stream_verdict s' = Waiting)"
proof -
  have x: "absorbed (cd_parser c) s" "cd_recv_buf c = []" using assms(1,2) by (auto simp: conn_holds_def)
  let ?c = "c\<lparr> cd_fd := fd \<rparr>"
  have "drain_loop base data ?c = Some (sent, c')"
    using assms(2,3) by (simp add: receive_data_def drain_recv_buf_def)
  moreover have "drained (cd_pending_ids ?c) (s @ data) ?c (drain_loop base data ?c)"
    using x(1) assms(2) by (intro drain_loop_returns) simp_all
  ultimately have d: "drained (cd_pending_ids c) (s @ data) ?c (Some (sent, c'))" by simp
  have "\<not> is_response (CProtocolError i h e)" for i h e by simp
  with d assms(4) x(2) show ?thesis
    unfolding drained_def option.case prod.case by (fastforce simp: conn_holds_def)
qed

section \<open>Limits\<close>

lemma drain_loop_one:
  assumes "absorbed (cd_parser c) s" "cd_pending_ids c = i # ids" "stream_verdict (s @ data) = Answered a rest"
    and "ids = [] \<or> rest = []"
  shows "\<exists>p. drain_loop base data c
      = Some ([CResponse (answer_response i a)], c\<lparr> cd_parser := p, cd_pending_ids := ids \<rparr>) \<and> absorbed p rest"
proof -
  obtain p where p: "feed base (cd_parser c) data i = Some (Inr (Some (answer_response i a)), p)" "absorbed p rest"
    using feed_returns [OF assms(1), of i data base] assms(3) by (auto simp: feed_post_def)
  let ?c = "c\<lparr> cd_parser := p, cd_pending_ids := ids \<rparr>"
  have "\<exists>q. drain_loop base [] ?c = Some ([], ?c\<lparr> cd_parser := q \<rparr>) \<and> absorbed q rest"
  proof (cases ids)
    case Nil
    then show ?thesis using p(2) by (subst drain_loop.simps) (auto intro!: exI [of _ p])
  next
    case (Cons j js)
    then have r: "rest = []" using assms(4) by simp
    have "stream_verdict [] = Waiting" "find_blank [] = None" by (simp_all add: stream_verdict_def windows_def)
    then obtain q where "feed base p [] j = Some (Inr None, q)" "absorbed q rest"
      using feed_returns [OF p(2), of j "[]" base] by (auto simp: feed_post_def r)
    then show ?thesis using Cons by (subst drain_loop.simps) auto
  qed
  then obtain q where q: "drain_loop base [] ?c = Some ([], ?c\<lparr> cd_parser := q \<rparr>)" "absorbed q rest" by blast
  have u: "?c\<lparr> cd_parser := q \<rparr> = c\<lparr> cd_parser := q, cd_pending_ids := ids \<rparr>" by (cases c) simp
  have "drain_loop base data c = Some ([CResponse (answer_response i a)], c\<lparr> cd_parser := q, cd_pending_ids := ids \<rparr>)"
    using p(1) assms(2) q(1) unfolding u by (subst drain_loop.simps) simp
  with q(2) show ?thesis by blast
qed

text \<open>
  C13: a response can be left behind. When two responses arrive in one read after the completion of
  the first send and before that of the second, the first is delivered and the second, though
  complete, is kept by the parser; the completion of the second send does not look at it, and
  its request stays queued until the peer sends more.
\<close>

theorem leftover_response_stalls:
  assumes "stream_verdict s = Answered a s1" "stream_verdict s1 = Answered b s2"
  shows "\<exists>c. run_events (conn_step base) [Sent i, Received fd s, Sent j] (ConnData_new n)
      = Some ([CResponse (answer_response i a)], c)
    \<and> cd_pending_ids c = [j] \<and> conn_holds c s1"
proof -
  let ?c = "(ConnData_new n)\<lparr> cd_pending_ids := [i] \<rparr>"
  have e: "enqueue_id base i (ConnData_new n) = Some ([], ?c)" by (simp add: enqueue_id_def ConnData_new_def)
  have "absorbed (cd_parser (?c\<lparr> cd_fd := fd \<rparr>)) []" by (simp add: ConnData_new_def absorbed_new)
  from drain_loop_one [OF this, of i "[]" s a s1 base] assms(1) obtain p where
    p: "drain_loop base s (?c\<lparr> cd_fd := fd \<rparr>)
      = Some ([CResponse (answer_response i a)], ?c\<lparr> cd_fd := fd, cd_parser := p, cd_pending_ids := [] \<rparr>)" "absorbed p s1"
    by auto
  then have r: "receive_data base fd s ?c
      = Some ([CResponse (answer_response i a)], ?c\<lparr> cd_fd := fd, cd_parser := p, cd_pending_ids := [] \<rparr>)"
    by (simp add: receive_data_def drain_recv_buf_def)
  show ?thesis using e r p(2) by (simp add: enqueue_id_def ConnData_new_def conn_holds_def)
qed

text \<open>
  C14: after a failed receive the queue is out of step. Only the request in front is told; the others
  stay queued, and when the connection has been dialled again and a new request is sent, its
  response is delivered under the id of the oldest request that was never answered.
\<close>

theorem stale_id_after_failure:
  assumes "cd_pending_ids c = i # j # ids" "stream_verdict s = Answered a []"
  shows "\<exists>c'. receive_failed h e c = ([CError i h (- e)], c') \<and> cd_pending_ids c' = j # ids
    \<and> (\<exists>c''. run_events (conn_step base) [Sent k, Received fd s] c' = Some ([CResponse (answer_response j a)], c'')
         \<and> cd_pending_ids c'' = ids @ [k])"
proof -
  let ?c = "c\<lparr> cd_pending_ids := j # ids, cd_parser := rp_clear (cd_parser c), cd_recv_buf := [] \<rparr>"
  have f: "receive_failed h e c = ([CError i h (- e)], ?c)"
    using assms(1) by (simp add: receive_failed_def pop_pending_id_def)
  let ?d = "?c\<lparr> cd_pending_ids := (j # ids) @ [k] \<rparr>"
  have en: "enqueue_id base k ?c = Some ([], ?d)" by (simp add: enqueue_id_def)
  have "absorbed (cd_parser (?d\<lparr> cd_fd := fd \<rparr>)) []" by (simp add: absorbed_clear)
  from drain_loop_one [OF this, of j "ids @ [k]" s a "[]" base] assms(2) obtain p where
    "drain_loop base s (?d\<lparr> cd_fd := fd \<rparr>)
      = Some ([CResponse (answer_response j a)], ?d\<lparr> cd_fd := fd, cd_parser := p, cd_pending_ids := ids @ [k] \<rparr>)" by auto
  then have "receive_data base fd s ?d
      = Some ([CResponse (answer_response j a)], ?d\<lparr> cd_fd := fd, cd_parser := p, cd_pending_ids := ids @ [k] \<rparr>)"
    by (simp add: receive_data_def drain_recv_buf_def)
  then show ?thesis using f en by auto
qed

text \<open>An interim response is taken for the final one: its head alone is an answer.\<close>

lemma interim_taken_for_final:
  assumes "find_blank s = Some i" "parse_pool_head 0 (take (i + 4) s) = Inr (v, st, h, framing, n)" "is_informational st"
  shows "stream_verdict s = Answered (v, st, h, []) (drop (i + 4) s)"
proof -
  obtain hs where "from_response st Get hs = Inr framing"
    using assms(2) by (auto simp: parse_pool_head_def res_simps)
  moreover have "from_response st Get hs = Inr NoBody"
    using assms(3) by (intro from_response_bodiless) (simp add: bodiless_def)
  ultimately have "framing = NoBody" by simp
  then show ?thesis using assms by (simp add: stream_verdict_def reserve_panics_def body_verdict_def)
qed

definition ok_response :: bytes where
  "ok_response = bs ''HTTP/1.1 200 OK'' @ CRLF @ bs ''Content-Length: 2'' @ CRLF @ CRLF @ bs ''ok''"

definition huge_response :: bytes where
  "huge_response = bs ''HTTP/1.1 200 OK'' @ CRLF @ bs ''Content-Length: 9223372036854775808'' @ CRLF @ CRLF"

text \<open>A peer that announces \<open>2 ^ 63\<close> bytes makes the thread panic.\<close>

lemma huge_length_panics: "feed base ResponseParser_new huge_response rid = None"
proof -
  have "stream_verdict huge_response = Panicked" by code_simp
  with feed_returns [OF absorbed_new, of rid huge_response base] show ?thesis by (simp add: feed_post_def)
qed

lemma ok_response_answer: "\<exists>a. stream_verdict (ok_response @ y) = Answered a y"
proof -
  have "case stream_verdict ok_response of Answered a [] \<Rightarrow> True | _ \<Rightarrow> False" by code_simp
  then obtain a where "stream_verdict ok_response = Answered a []"
    by (auto split: verdict.splits list.splits)
  from stream_verdict_append(1) [OF this, of y] show ?thesis by (intro exI) simp
qed

definition sample_events :: "conn_event list" where
  "sample_events = [Received 5 ok_response, Sent 1, Sent 2, Received 5 ok_response]"

lemma drain_ok_response:
  assumes "absorbed (cd_parser c) []" "cd_pending_ids c = [i]"
  obtains r p where "drain_loop base ok_response c = Some ([CResponse r], c\<lparr> cd_parser := p, cd_pending_ids := [] \<rparr>)"
    "absorbed p []"
proof -
  obtain a where "stream_verdict ([] @ ok_response) = Answered a []" using ok_response_answer [of "[]"] by auto
  from drain_loop_one [OF assms this] show thesis using that by blast
qed

lemma sample_run:
  "\<exists>sent c. run_events (conn_step 0) sample_events (ConnData_new 3) = Some (sent, c)
    \<and> list_all is_response sent \<and> cd_pending_ids c = []"
proof -
  let ?c = "(ConnData_new 3)\<lparr> cd_fd := 5, cd_pending_ids := [1], cd_recv_buf := [] \<rparr>"
  have ne: "ok_response \<noteq> []" by (simp add: ok_response_def)
  have "absorbed (cd_parser ?c) []" "cd_pending_ids ?c = [1]" by (simp_all add: ConnData_new_def absorbed_new)
  then obtain r p where 1: "drain_loop 0 ok_response ?c = Some ([CResponse r], ?c\<lparr> cd_parser := p, cd_pending_ids := [] \<rparr>)"
    "absorbed p []" by (rule drain_ok_response [of ?c 1 0])
  let ?d = "?c\<lparr> cd_parser := p, cd_pending_ids := [2] \<rparr>"
  have "absorbed (cd_parser ?d) []" "cd_pending_ids ?d = [2]" using 1(2) by simp_all
  then obtain r' q where 2: "drain_loop 0 ok_response ?d = Some ([CResponse r'], ?d\<lparr> cd_parser := q, cd_pending_ids := [] \<rparr>)"
    by (rule drain_ok_response [of ?d 2 0])
  have "run_events (conn_step 0) sample_events (ConnData_new 3)
      = Some ([CResponse r, CResponse r'], ?d\<lparr> cd_parser := q, cd_pending_ids := [] \<rparr>)"
    using 1(1) 2 ne
    by (simp add: sample_events_def receive_data_def push_recv_data_def enqueue_id_def drain_recv_buf_def ConnData_new_def)
  then show ?thesis by simp
qed

theorem pipelined_in_order_witness:
  "\<exists>sent c. run_events (conn_step 0) sample_events (ConnData_new 3) = Some (sent, c) \<and> map result_id sent = [1, 2]"
proof -
  obtain sent c where r: "run_events (conn_step 0) sample_events (ConnData_new 3) = Some (sent, c)"
    "list_all is_response sent" "cd_pending_ids c = []" using sample_run by blast
  from pipelined_in_order [OF r(1)] r(2,3) have "map result_id sent = [1, 2]" by (simp add: sample_events_def)
  with r(1) show ?thesis by (intro exI conjI)
qed

theorem receive_settles_witness:
  "\<exists>a c' s'. receive_data 0 5 ok_response ((ConnData_new 3)\<lparr> cd_pending_ids := [1, 2] \<rparr>)
      = Some ([CResponse (answer_response 1 a)], c')
    \<and> cd_pending_ids c' = [2] \<and> conn_holds c' s' \<and> stream_verdict s' = Waiting"
proof -
  let ?c = "(ConnData_new 3)\<lparr> cd_pending_ids := [1, 2] \<rparr>"
  have h: "conn_holds ?c []" "absorbed (cd_parser (?c\<lparr> cd_fd := 5 \<rparr>)) []"
    by (simp_all add: conn_holds_def ConnData_new_def absorbed_new)
  obtain a where a: "stream_verdict ([] @ ok_response) = Answered a []" using ok_response_answer [of "[]"] by auto
  obtain c' where r: "receive_data 0 5 ok_response ?c = Some ([CResponse (answer_response 1 a)], c')" "cd_pending_ids c' = [2]"
    using drain_loop_one [OF h(2) _ a, of 1 "[2]" 0] by (auto simp: receive_data_def drain_recv_buf_def)
  obtain s' where "conn_holds c' s'" "cd_pending_ids c' \<noteq> [] \<longrightarrow> stream_verdict s' = Waiting"
    using receive_settles [OF h(1) _ r(1)] by auto
  with r show ?thesis by (intro exI conjI) simp_all
qed

theorem leftover_response_stalls_witness:
  "\<exists>a c. run_events (conn_step 0) [Sent 1, Received 5 (ok_response @ ok_response), Sent 2] (ConnData_new 3)
      = Some ([CResponse (answer_response 1 a)], c) \<and> cd_pending_ids c = [2]"
proof -
  obtain a where a: "stream_verdict (ok_response @ ok_response) = Answered a ok_response" using ok_response_answer by blast
  obtain b where b: "stream_verdict ok_response = Answered b []" using ok_response_answer [of "[]"] by auto
  from leftover_response_stalls [OF a b, of 0 1 5 2 3] show ?thesis by blast
qed

theorem stale_id_after_failure_witness:
  "\<exists>c' c'' a. receive_failed \<lparr> ch_conn_id = 3, ch_fd = 5 \<rparr> (- 104) ((ConnData_new 3)\<lparr> cd_pending_ids := [1, 2] \<rparr>)
      = ([CError 1 \<lparr> ch_conn_id = 3, ch_fd = 5 \<rparr> 104], c')
    \<and> run_events (conn_step 0) [Sent 3, Received 6 ok_response] c' = Some ([CResponse (answer_response 2 a)], c'')
    \<and> cd_pending_ids c'' = [3]"
proof -
  obtain a where a: "stream_verdict ok_response = Answered a []" using ok_response_answer [of "[]"] by auto
  have "cd_pending_ids ((ConnData_new 3)\<lparr> cd_pending_ids := [1, 2] \<rparr>) = [1, 2]" by simp
  from stale_id_after_failure [OF this a, of "\<lparr> ch_conn_id = 3, ch_fd = 5 \<rparr>" "- 104" 0 3 6] show ?thesis
    by fastforce
qed

end
