(* ===== verification/Driver_Thread.thy ===== *)
theory Driver_Thread
  imports Driver_Complete
begin

text \<open>
  \<^verbatim>\<open>xibalba-iouring/src/driver.rs\<close>, third part: the thread that reaps the completions of the
  ring. The kernel, the rings and the buffers the kernel fills are the record \<open>uring\<close>, whose laws
  are the locale \<open>uring_world\<close>. The results: the thread stops when told to, and connections do
  not disturb each other.
\<close>

section \<open>Definitions\<close>

record SendTicket =
  tk_pending :: u64
  tk_conn_id :: u32
  tk_request_id :: request_id

record RearmMsg =
  rm_conn_id :: u32
  rm_fd :: u64

text \<open>
  A completion: its tag, result and flags; \<open>ev_complete\<close> says that it is an
  \<^verbatim>\<open>Event::Complete\<close>, which carries the receipt of an owned entry.
\<close>

record event =
  ev_user_data :: u64
  ev_result :: "32 word"
  ev_buffer_id :: "u16 option"
  ev_more :: bool
  ev_complete :: bool

text \<open>
  What the thread uses of the ring crate and of the two queues. \<open>u_redeem\<close> is
  \<^verbatim>\<open>Pending::redeem\<close> with the raw result of the finished send.
\<close>

record 'w uring =
  u_wait :: "'w \<Rightarrow> 'w"
  u_reap_event :: "'w \<Rightarrow> event option \<times> 'w"
  u_sync :: "'w \<Rightarrow> 'w"
  u_buffer :: "'w \<Rightarrow> u16 \<Rightarrow> u32 \<Rightarrow> bytes option"
  u_recycle :: "u16 \<Rightarrow> 'w \<Rightarrow> 'w"
  u_pop_ticket :: "'w \<Rightarrow> SendTicket option \<times> 'w"
  u_redeem :: "u64 \<Rightarrow> event \<Rightarrow> 32 word option"
  u_respond :: "ConnResult \<Rightarrow> 'w \<Rightarrow> 'w"
  u_rearm :: "RearmMsg \<Rightarrow> 'w \<Rightarrow> 'w"

record complete_state =
  cs_conns :: "u32 \<rightharpoonup> ConnData"
  cs_tickets :: "u64 \<rightharpoonup> SendTicket"

definition conn_entry :: "complete_state \<Rightarrow> u32 \<Rightarrow> ConnData" where
  "conn_entry st conn_id = (case cs_conns st conn_id of Some c \<Rightarrow> c | None \<Rightarrow> ConnData_new conn_id)"

definition put_conn :: "u32 \<Rightarrow> ConnData \<Rightarrow> complete_state \<Rightarrow> complete_state" where
  "put_conn conn_id c st = st\<lparr> cs_conns := (cs_conns st)(conn_id \<mapsto> c) \<rparr>"

definition respond_all :: "'w uring \<Rightarrow> ConnResult list \<Rightarrow> 'w \<Rightarrow> 'w" where
  "respond_all U sent w = fold (u_respond U) sent w"

text \<open>The ticket queue is emptied into the table.\<close>

partial_function (option) take_tickets ::
  "'w uring \<Rightarrow> (u64 \<rightharpoonup> SendTicket) \<Rightarrow> 'w \<Rightarrow> ((u64 \<rightharpoonup> SendTicket) \<times> 'w) option" where
  "take_tickets U tickets w =
     (case u_pop_ticket U w of
        (None, w) \<Rightarrow> Some (tickets, w)
      | (Some t, w) \<Rightarrow> take_tickets U (tickets(tk_pending t \<mapsto> t)) w)"

definition on_send_complete ::
  "'w uring \<Rightarrow> usize \<Rightarrow> SendTicket \<Rightarrow> event \<Rightarrow> complete_state \<Rightarrow> 'w \<Rightarrow> (complete_state \<times> 'w) option" where
  "on_send_complete U base ticket receipt st w =
     (case u_redeem U (tk_pending ticket) receipt of
        None \<Rightarrow> Some (st, w)
      | Some raw_result \<Rightarrow>
          if sint raw_result < 0 then Some (st, w)
          else map_option (\<lambda>(sent, conn). (put_conn (tk_conn_id ticket) conn st, respond_all U sent w))
                 (enqueue_id base (tk_request_id ticket) (conn_entry st (tk_conn_id ticket))))"

text \<open>One completion; the flag says that the thread returns.\<close>

definition complete_event ::
  "'w uring \<Rightarrow> usize \<Rightarrow> event \<Rightarrow> complete_state \<Rightarrow> 'w \<Rightarrow> (bool \<times> complete_state \<times> 'w) option" where
  "complete_event U base event st w =
     (let user_data = ev_user_data event; result = ev_result event in
      if user_data = SHUTDOWN_UD then Some (True, st, u_sync U w)
      else if user_data = TIMEOUT_UD then Some (False, st, u_respond U CTimeout w)
      else if user_data = TIMEOUT_REMOVE_UD then Some (False, st, w)
      else if \<not> ud_is_recv (UserData user_data) then
        (if \<not> ev_complete event then Some (False, st, w)
         else Option.bind (take_tickets U (cs_tickets st) w) (\<lambda>(tickets, w).
           case tickets user_data of
             None \<Rightarrow> Some (False, st\<lparr> cs_tickets := tickets \<rparr>, w)
           | Some ticket \<Rightarrow>
               map_option (\<lambda>(st, w). (False, st, w))
                 (on_send_complete U base ticket event (st\<lparr> cs_tickets := tickets(user_data := None) \<rparr>) w)))
      else
        let ud = UserData user_data; conn_id = ud_conn_id ud; fd = ud_fd ud;
            handle = \<lparr> ch_conn_id = conn_id, ch_fd = fd \<rparr> in
        if sint result < 0 then
          (let (sent, conn) = receive_failed handle result (conn_entry st conn_id) in
           Some (False, put_conn conn_id conn st, respond_all U sent w))
        else if unat result = 0 \<and> ev_buffer_id event = None then
          (let (sent, conn) = finish_until_close handle (conn_entry st conn_id) in
           Some (False, put_conn conn_id conn st, respond_all U sent w))
        else
          (case ev_buffer_id event of
             None \<Rightarrow> Some (False, st, w)
           | Some bid \<Rightarrow>
               (case u_buffer U w bid result of
                  None \<Rightarrow> Some (False, st, w)
                | Some data \<Rightarrow>
                    let w = u_recycle U bid w in
                    map_option (\<lambda>(sent, conn).
                        let w = respond_all U sent w in
                        (False, put_conn conn_id conn st,
                         if \<not> ev_more event then u_rearm U \<lparr> rm_conn_id = conn_id, rm_fd = fd \<rparr> w else w))
                      (receive_data base fd data (conn_entry st conn_id)))))"

partial_function (option) reap_loop ::
  "'w uring \<Rightarrow> usize \<Rightarrow> complete_state \<Rightarrow> 'w \<Rightarrow> (bool \<times> complete_state \<times> 'w) option" where
  "reap_loop U base st w =
     (case u_reap_event U w of
        (None, w) \<Rightarrow> Some (False, st, w)
      | (Some event, w) \<Rightarrow>
          Option.bind (complete_event U base event st w) (\<lambda>(stop, st, w).
            if stop then Some (True, st, w) else reap_loop U base st w))"

partial_function (option) complete_loop ::
  "'w uring \<Rightarrow> usize \<Rightarrow> complete_state \<Rightarrow> 'w \<Rightarrow> (complete_state \<times> 'w) option" where
  "complete_loop U base st w =
     Option.bind (reap_loop U base st (u_wait U w)) (\<lambda>(stop, st, w).
       if stop then Some (st, w) else complete_loop U base st (u_sync U w))"

section \<open>The invariant of the thread\<close>

text \<open>Every connection of the thread is stored under its own id and holds a part of its stream.\<close>

definition thread_inv :: "complete_state \<Rightarrow> bool" where
  "thread_inv st = (\<forall>n c. cs_conns st n = Some c \<longrightarrow> cd_conn_id c = n \<and> (\<exists>s. conn_holds c s))"

lemma thread_inv_entry:
  "thread_inv st \<Longrightarrow> cd_conn_id (conn_entry st n) = n \<and> (\<exists>s. conn_holds (conn_entry st n) s)"
  using conn_holds_new by (auto simp: thread_inv_def conn_entry_def ConnData_new_def split: option.splits)

lemma thread_inv_put:
  "thread_inv st \<Longrightarrow> cd_conn_id c = n \<Longrightarrow> conn_holds c s \<Longrightarrow> thread_inv (put_conn n c st)"
  by (auto simp: thread_inv_def put_conn_def)

lemma put_conn_other: "m \<noteq> n \<Longrightarrow> cs_conns (put_conn n c st) m = cs_conns st m"
  by (simp add: put_conn_def)

lemma drain_loop_conn_id: "drain_loop base data c = Some (sent, c') \<Longrightarrow> cd_conn_id c' = cd_conn_id c"
proof (induction base data c arbitrary: sent rule: drain_loop.induct)
  case (1 base data c)
  show ?case
  proof (cases "cd_pending_ids c")
    case Nil
    then show ?thesis using "1.prems" by (simp add: drain_loop.simps [of base data c])
  next
    case (Cons i ids)
    obtain r p where f: "feed base (cd_parser c) data i = Some (r, p)"
      using "1.prems" Cons by (cases "feed base (cd_parser c) data i") (auto simp: drain_loop.simps [of base data c])
    show ?thesis
    proof (cases "\<exists>resp. r = Inr (Some resp)")
      case True
      then obtain resp where r: "r = Inr (Some resp)" by blast
      show ?thesis using "1.prems" "1.IH" [OF Cons f refl r refl] Cons f r
        by (auto simp: drain_loop.simps [of base data c])
    next
      case False
      then show ?thesis using "1.prems" Cons f
        by (cases r) (auto simp: drain_loop.simps [of base data c] split: option.splits)
    qed
  qed
qed

lemma conn_step_keeps:
  assumes "conn_holds c s" "conn_step base e c = Some (sent, c')"
  shows "cd_conn_id c' = cd_conn_id c \<and> (\<exists>s'. conn_holds c' s')"
proof -
  have "cd_conn_id c' = cd_conn_id c"
    using assms(2)
    by (cases e) (auto simp: enqueue_id_def receive_data_def push_recv_data_def drain_recv_buf_def Let_def
      dest!: drain_loop_conn_id split: if_splits)
  then show ?thesis using conn_step_post [OF assms(1), of e base] assms(2) by (auto simp: step_post_def)
qed

lemmas enqueue_id_keeps = conn_step_keeps [where e = "Sent i" for i, simplified]
lemmas receive_data_keeps = conn_step_keeps [where e = "Received fd data" for fd data, simplified]

lemma cleared_holds: "cd_parser c = rp_clear p \<Longrightarrow> cd_recv_buf c = [] \<Longrightarrow> conn_holds c []"
  by (simp add: conn_holds_def absorbed_clear)

lemma receive_failed_keeps:
  "receive_failed h e c = (sent, c') \<Longrightarrow> cd_conn_id c' = cd_conn_id c \<and> conn_holds c' []"
  by (auto simp: receive_failed_def pop_pending_id_def Let_def intro!: cleared_holds split: list.splits prod.splits)

lemma finish_until_close_keeps:
  "finish_until_close h c = (sent, c') \<Longrightarrow> cd_conn_id c' = cd_conn_id c \<and> conn_holds c' []"
  by (auto simp: finish_until_close_def pop_pending_id_def Let_def intro!: cleared_holds
    split: list.splits prod.splits option.splits if_splits)

text \<open>The connection an event is about, if it is about one.\<close>

lemma on_send_complete_keeps:
  assumes "thread_inv st" "on_send_complete U base t ev st w = Some (st', w')"
  shows "thread_inv st' \<and> (\<forall>m. m \<noteq> tk_conn_id t \<longrightarrow> cs_conns st' m = cs_conns st m)"
proof -
  consider (same) "st' = st"
    | (put) sent c where "enqueue_id base (tk_request_id t) (conn_entry st (tk_conn_id t)) = Some (sent, c)"
        "st' = put_conn (tk_conn_id t) c st"
    using assms(2) unfolding on_send_complete_def map_option_case
    by (cases "u_redeem U (tk_pending t) ev";
        cases "enqueue_id base (tk_request_id t) (conn_entry st (tk_conn_id t))") (force split: if_splits)+
  then show ?thesis
  proof cases
    case put
    obtain s where "conn_holds (conn_entry st (tk_conn_id t)) s" "cd_conn_id (conn_entry st (tk_conn_id t)) = tk_conn_id t"
      using thread_inv_entry [OF assms(1)] by blast
    then show ?thesis using enqueue_id_keeps [OF _ put(1)] put(2) thread_inv_put [OF assms(1)] put_conn_other by metis
  qed (use assms in simp)
qed

definition touches :: "event \<Rightarrow> complete_state \<Rightarrow> complete_state \<Rightarrow> bool" where
  "touches ev st st' =
     (\<exists>n. (ud_is_recv (UserData (ev_user_data ev)) \<longrightarrow> n = ud_conn_id (UserData (ev_user_data ev)))
        \<and> (\<forall>m. m \<noteq> n \<longrightarrow> cs_conns st' m = cs_conns st m))"

lemma touches_refl [simp]: "touches ev st st"
  by (auto simp: touches_def)

lemma recv_event_keeps:
  assumes inv: "thread_inv st" and r: "ud_is_recv (UserData (ev_user_data ev))"
    and k: "cd_conn_id c = cd_conn_id (conn_entry st (ud_conn_id (UserData (ev_user_data ev)))) \<and> (\<exists>s. conn_holds c s)"
  shows "thread_inv (put_conn (ud_conn_id (UserData (ev_user_data ev))) c st)
    \<and> touches ev st (put_conn (ud_conn_id (UserData (ev_user_data ev))) c st)"
  using thread_inv_entry [OF inv] thread_inv_put [OF inv] k r put_conn_other unfolding touches_def by metis

lemma complete_event_keeps:
  assumes inv: "thread_inv st" and ce: "complete_event U base ev st w = Some (stop, st', w')"
  shows "thread_inv st' \<and> touches ev st st'"
proof (cases "ud_is_recv (UserData (ev_user_data ev))")
  case False
  then consider "st' = st" | tickets where "st' = st\<lparr> cs_tickets := tickets \<rparr>"
    | t tickets w1 where "on_send_complete U base t ev (st\<lparr> cs_tickets := tickets \<rparr>) w1 = Some (st', w')"
    using ce by (fastforce simp: complete_event_def Let_def bind_eq_Some_conv split: if_splits option.splits prod.splits)
  then show ?thesis
  proof cases
    case 2
    then show ?thesis using inv by (simp add: thread_inv_def touches_def)
  next
    case (3 t tickets w1)
    have "thread_inv (st\<lparr> cs_tickets := tickets \<rparr>)" using inv by (simp add: thread_inv_def)
    from on_send_complete_keeps [OF this 3] False show ?thesis by (auto simp: touches_def)
  qed (use inv in simp)
next
  case True
  let ?n = "ud_conn_id (UserData (ev_user_data ev))"
  have h: "\<exists>s. conn_holds (conn_entry st ?n) s" using thread_inv_entry [OF inv] by blast
  from ce True consider "st' = st"
    | sent c h where "receive_failed h (ev_result ev) (conn_entry st ?n) = (sent, c)" "st' = put_conn ?n c st"
    | sent c h where "finish_until_close h (conn_entry st ?n) = (sent, c)" "st' = put_conn ?n c st"
    | fd data sent c where "receive_data base fd data (conn_entry st ?n) = Some (sent, c)" "st' = put_conn ?n c st"
    by (fastforce simp: complete_event_def Let_def split: if_splits option.splits prod.splits)
  then show ?thesis
  proof cases
    case 2
    then show ?thesis using recv_event_keeps [OF inv True] receive_failed_keeps by metis
  next
    case 3
    then show ?thesis using recv_event_keeps [OF inv True] finish_until_close_keeps by metis
  next
    case 4
    then show ?thesis using recv_event_keeps [OF inv True] receive_data_keeps h by metis
  qed (use inv in simp)
qed

text \<open>
  The states at which the thread asks the ring for the next completion, from the start or after
  completions that did not stop it.
\<close>

inductive reached :: "'w uring \<Rightarrow> usize \<Rightarrow> complete_state \<Rightarrow> 'w \<Rightarrow> complete_state \<Rightarrow> 'w \<Rightarrow> bool" for U base where
  start: "reached U base st w st w"
| event: "u_reap_event U w = (Some ev, w1) \<Longrightarrow> complete_event U base ev st w1 = Some (False, st1, w2) \<Longrightarrow>
    reached U base st1 w2 st' w' \<Longrightarrow> reached U base st w st' w'"
| idle: "u_reap_event U w = (None, w1) \<Longrightarrow> reached U base st (u_wait U (u_sync U w1)) st' w' \<Longrightarrow>
    reached U base st w st' w'"

text \<open>The ring at a point where handling the next completion panics.\<close>

definition crashes :: "'w uring \<Rightarrow> usize \<Rightarrow> complete_state \<Rightarrow> 'w \<Rightarrow> bool" where
  "crashes U base st w = (\<exists>ev w1. u_reap_event U w = (Some ev, w1) \<and> complete_event U base ev st w1 = None)"

text \<open>
  The laws the thread relies on: the ring hands out the completions in their order, waiting
  returns with one if there is one to come, and nothing else the thread does removes any; the
  ticket queue is finite.
\<close>

locale uring_world =
  fixes U :: "'w uring" and arrivals :: "'w \<Rightarrow> event list" and queued :: "'w \<Rightarrow> SendTicket list"
  assumes reap_some: "u_reap_event U w = (Some ev, w1) \<Longrightarrow> arrivals w = ev # arrivals w1"
    and reap_none: "u_reap_event U w = (None, w1) \<Longrightarrow> arrivals w1 = arrivals w"
    and wait_arrivals [simp]: "arrivals (u_wait U w) = arrivals w"
    and wait_ready: "arrivals w \<noteq> [] \<Longrightarrow> fst (u_reap_event U (u_wait U w)) \<noteq> None"
    and sync_arrivals [simp]: "arrivals (u_sync U w) = arrivals w"
    and recycle_arrivals [simp]: "arrivals (u_recycle U b w) = arrivals w"
    and respond_arrivals [simp]: "arrivals (u_respond U r w) = arrivals w"
    and rearm_arrivals [simp]: "arrivals (u_rearm U m w) = arrivals w"
    and pop_arrivals: "u_pop_ticket U w = (ot, w1) \<Longrightarrow> arrivals w1 = arrivals w"
    and pop_some: "u_pop_ticket U w = (Some t, w1) \<Longrightarrow> queued w = t # queued w1"
begin

lemma respond_all_arrivals [simp]: "arrivals (respond_all U sent w) = arrivals w"
  unfolding respond_all_def by (induction sent arbitrary: w) simp_all

lemma take_tickets_returns:
  "\<exists>tickets' w1. take_tickets U tickets w = Some (tickets', w1) \<and> arrivals w1 = arrivals w"
proof (induction "length (queued w)" arbitrary: tickets w rule: less_induct)
  case less
  obtain t w1 where p: "u_pop_ticket U w = (t, w1)" by (cases "u_pop_ticket U w")
  show ?case
  proof (cases t)
    case None
    then show ?thesis using p pop_arrivals [OF p] by (subst take_tickets.simps) simp
  next
    case (Some x)
    have "length (queued w1) < length (queued w)" using pop_some [of w x w1] p Some by simp
    from less [OF this, of "tickets(tk_pending x \<mapsto> x)"] show ?thesis
      using p Some pop_arrivals [OF p] by (subst take_tickets.simps) auto
  qed
qed

lemma on_send_complete_arrivals:
  "on_send_complete U base t ev st w = Some (st', w') \<Longrightarrow> arrivals w' = arrivals w"
  by (auto simp: on_send_complete_def split: option.splits if_splits)

lemma complete_event_arrivals:
  assumes "complete_event U base ev st w = Some (stop, st', w')"
  shows "arrivals w' = arrivals w"
proof -
  obtain tickets w1 where t: "take_tickets U (cs_tickets st) w = Some (tickets, w1)" "arrivals w1 = arrivals w"
    using take_tickets_returns by blast
  show ?thesis
    using assms t on_send_complete_arrivals
    by (fastforce simp: complete_event_def Let_def split: if_splits option.splits prod.splits)
qed

lemma complete_event_stops:
  "complete_event U base ev st w = Some (stop, st', w') \<Longrightarrow> stop \<longleftrightarrow> ev_user_data ev = SHUTDOWN_UD"
  by (auto simp: complete_event_def Let_def bind_eq_Some_conv split: if_splits option.splits prod.splits)

text \<open>One round of reaping ends, and uses up completions if there was one at its start.\<close>

lemma reap_loop_returns:
  "(\<exists>stop st' w'. reap_loop U base st w = Some (stop, st', w')
      \<and> (stop \<longrightarrow> SHUTDOWN_UD \<in> ev_user_data ` set (arrivals w))
      \<and> (\<not> stop \<longrightarrow>
           (\<exists>before. arrivals w = before @ arrivals w' \<and> SHUTDOWN_UD \<notin> ev_user_data ` set before
              \<and> (fst (u_reap_event U w) \<noteq> None \<longrightarrow> before \<noteq> []))
           \<and> (\<forall>st2 w2. reached U base st' (u_wait U (u_sync U w')) st2 w2 \<longrightarrow> reached U base st w st2 w2)))
   \<or> (\<exists>st' w'. reached U base st w st' w' \<and> crashes U base st' w')"
proof (induction "length (arrivals w)" arbitrary: st w rule: less_induct)
  case less
  obtain ev w1 where r: "u_reap_event U w = (ev, w1)" by (cases "u_reap_event U w")
  show ?case
  proof (cases ev)
    case None
    then have "reap_loop U base st w = Some (False, st, w1)" using r by (subst reap_loop.simps) simp
    moreover have "arrivals w = [] @ arrivals w1" using reap_none [of w w1] r None by simp
    moreover have "reached U base st (u_wait U (u_sync U w1)) st2 w2 \<Longrightarrow> reached U base st w st2 w2" for st2 w2
      using reached.idle r None by metis
    ultimately show ?thesis using r None
      by (intro disjI1 exI [of _ False] exI [of _ st] exI [of _ w1] conjI impI allI exI [of _ "[]"]) simp_all
  next
    case (Some e)
    have a: "arrivals w = e # arrivals w1" using reap_some [of w e w1] r Some by simp
    show ?thesis
    proof (cases "complete_event U base e st w1")
      case None
      then have "crashes U base st w" using r Some by (auto simp: crashes_def)
      then show ?thesis by (intro disjI2 exI conjI) (rule reached.start)
    next
      case (Some t)
      obtain stop st1 w2 where t: "t = (stop, st1, w2)" by (cases t)
      note ce = Some [unfolded t]
      have w2: "arrivals w2 = arrivals w1" using complete_event_arrivals [OF ce] .
      have sd: "stop \<longleftrightarrow> ev_user_data e = SHUTDOWN_UD" using complete_event_stops [OF ce] .
      have eq: "reap_loop U base st w = (if stop then Some (True, st1, w2) else reap_loop U base st1 w2)"
        using r \<open>ev = Some e\<close> ce by (subst reap_loop.simps) simp
      show ?thesis
      proof (cases stop)
        case True
        then show ?thesis using eq a sd by (intro disjI1) auto
      next
        case False
        have step: "reached U base st1 w2 st2 w3 \<Longrightarrow> reached U base st w st2 w3" for st2 w3
          using reached.event [OF r [unfolded \<open>ev = Some e\<close>]] ce False by simp
        have "length (arrivals w2) < length (arrivals w)" using a w2 by simp
        from less [OF this, of st1] show ?thesis
        proof (elim disjE exE conjE)
          fix stop' st' w'
          assume R: "reap_loop U base st1 w2 = Some (stop', st', w')"
            and S: "stop' \<longrightarrow> SHUTDOWN_UD \<in> ev_user_data ` set (arrivals w2)"
            and N: "\<not> stop' \<longrightarrow>
              (\<exists>before. arrivals w2 = before @ arrivals w' \<and> SHUTDOWN_UD \<notin> ev_user_data ` set before
                \<and> (fst (u_reap_event U w2) \<noteq> None \<longrightarrow> before \<noteq> []))
              \<and> (\<forall>st2 w3. reached U base st' (u_wait U (u_sync U w')) st2 w3 \<longrightarrow> reached U base st1 w2 st2 w3)"
          show ?thesis
          proof (cases stop')
            case True
            then show ?thesis using eq False R S a w2 by (intro disjI1 exI [of _ True] exI [of _ st'] exI [of _ w']) auto
          next
            case ns: False
            with N obtain before where b: "arrivals w2 = before @ arrivals w'" "SHUTDOWN_UD \<notin> ev_user_data ` set before"
              by blast
            have "arrivals w = (e # before) @ arrivals w'" "SHUTDOWN_UD \<notin> ev_user_data ` set (e # before)"
              using a b w2 sd False by auto
            then show ?thesis using eq False R ns N step
              by (intro disjI1 exI [of _ False] exI [of _ st'] exI [of _ w']) (metis list.distinct(1))
          qed
        next
          fix st' w' assume c: "reached U base st1 w2 st' w'" "crashes U base st' w'"
          from step [OF c(1)] c(2) show ?thesis by (intro disjI2 exI conjI) assumption+
        qed
      qed
    qed
  qed
qed

lemma complete_loop_returns:
  assumes "SHUTDOWN_UD \<in> ev_user_data ` set (arrivals w)"
  shows "(\<exists>st' w'. complete_loop U base st w = Some (st', w'))
    \<or> (\<exists>st' w'. reached U base st (u_wait U w) st' w' \<and> crashes U base st' w')"
  using assms
proof (induction "length (arrivals w)" arbitrary: st w rule: less_induct)
  case less
  have "arrivals w \<noteq> []" using less.prems by auto
  then have ready: "fst (u_reap_event U (u_wait U w)) \<noteq> None" by (rule wait_ready)
  from reap_loop_returns [of base st "u_wait U w"] show ?case
  proof (elim disjE exE conjE)
    fix stop st' w'
    assume R: "reap_loop U base st (u_wait U w) = Some (stop, st', w')"
      and N: "\<not> stop \<longrightarrow>
        (\<exists>before. arrivals (u_wait U w) = before @ arrivals w' \<and> SHUTDOWN_UD \<notin> ev_user_data ` set before
           \<and> (fst (u_reap_event U (u_wait U w)) \<noteq> None \<longrightarrow> before \<noteq> []))
        \<and> (\<forall>st2 w2. reached U base st' (u_wait U (u_sync U w')) st2 w2 \<longrightarrow> reached U base st (u_wait U w) st2 w2)"
    show ?thesis
    proof (cases stop)
      case True
      then show ?thesis using R by (subst complete_loop.simps) simp
    next
      case False
      with N ready obtain before where b: "arrivals w = before @ arrivals w'" "SHUTDOWN_UD \<notin> ev_user_data ` set before" "before \<noteq> []"
        by auto
      have l: "length (arrivals (u_sync U w')) < length (arrivals w)" using b by simp
      have s: "SHUTDOWN_UD \<in> ev_user_data ` set (arrivals (u_sync U w'))" using less.prems b by auto
      have eq: "complete_loop U base st w = complete_loop U base st' (u_sync U w')"
        using R False by (subst complete_loop.simps) simp
      from less.hyps [OF l s, of st'] N False show ?thesis unfolding eq by blast
    qed
  qed blast
qed

end

text \<open>A stream with, after some complete responses, a head that announces \<open>2 ^ 63\<close> bytes or more.\<close>

definition overlong :: "bytes \<Rightarrow> bool" where
  "overlong s = (\<exists>ids sent ids' s'. serves ids s sent ids' s' \<and> stream_verdict s' = Panicked)"

lemma conn_step_None:
  "conn_holds c s \<Longrightarrow> conn_step base e c = None \<Longrightarrow> overlong (s @ event_bytes e)"
  using conn_step_post [of c s e base] by (auto simp: step_post_def overlong_def)

lemma reached_inv: "reached U base st w st' w' \<Longrightarrow> thread_inv st \<Longrightarrow> thread_inv st'"
  by (induction rule: reached.induct) (auto dest: complete_event_keeps)

text \<open>The bytes that a completion brings to a connection: none for a send.\<close>

definition delivers :: "'w uring \<Rightarrow> event \<Rightarrow> 'w \<Rightarrow> u32 \<Rightarrow> bytes \<Rightarrow> bool" where
  "delivers U ev w n d =
     (if ud_is_recv (UserData (ev_user_data ev))
      then n = ud_conn_id (UserData (ev_user_data ev))
        \<and> (\<exists>bid. ev_buffer_id ev = Some bid \<and> u_buffer U w bid (ev_result ev) = Some d)
      else d = [])"

context uring_world
begin

lemma complete_event_None:
  assumes inv: "thread_inv st" and none: "complete_event U base ev st w = None"
  shows "\<exists>n s d. delivers U ev w n d \<and> conn_holds (conn_entry st n) s \<and> overlong (s @ d)"
proof -
  have step: "conn_step base e (conn_entry st n) = None \<Longrightarrow> delivers U ev w n (event_bytes e) \<Longrightarrow> ?thesis" for e n
    using thread_inv_entry [OF inv, of n] conn_step_None by blast
  obtain tickets w1 where t: "take_tickets U (cs_tickets st) w = Some (tickets, w1)"
    using take_tickets_returns by blast
  have e: "conn_entry (st\<lparr> cs_tickets := q \<rparr>) n = conn_entry st n" for q n by (simp add: conn_entry_def)
  show ?thesis
  proof (cases "ud_is_recv (UserData (ev_user_data ev))")
    case False
    then obtain tk where "on_send_complete U base tk ev (st\<lparr> cs_tickets := tickets(ev_user_data ev := None) \<rparr>) w1 = None"
      using none t by (auto simp: complete_event_def Let_def split: if_splits option.splits prod.splits)
    then have "enqueue_id base (tk_request_id tk) (conn_entry st (tk_conn_id tk)) = None"
      by (auto simp: on_send_complete_def e split: option.splits if_splits)
    then show ?thesis using step [of "Sent (tk_request_id tk)" "tk_conn_id tk"] False by (simp add: delivers_def)
  next
    case True
    let ?n = "ud_conn_id (UserData (ev_user_data ev))"
    obtain fd data bid where "receive_data base fd data (conn_entry st ?n) = None"
      "ev_buffer_id ev = Some bid" "u_buffer U w bid (ev_result ev) = Some data"
      using none True by (auto simp: complete_event_def Let_def split: if_splits option.splits prod.splits)
    then show ?thesis using step [of "Received fd data" ?n] True by (simp add: delivers_def)
  qed
qed

end


text \<open>
  C10: connections do not disturb each other. Every completion keeps the invariant of the thread,
  and changes at most one connection, which for a receive is the one in its tag.
\<close>

theorem completions_isolated:
  assumes "thread_inv st" "complete_event U base ev st w = Some (stop, st', w')"
  shows "thread_inv st'
    \<and> (\<exists>n. (ud_is_recv (UserData (ev_user_data ev)) \<longrightarrow> n = ud_conn_id (UserData (ev_user_data ev)))
         \<and> (\<forall>m. m \<noteq> n \<longrightarrow> cs_conns st' m = cs_conns st m))"
  using complete_event_keeps [OF assms] by (simp add: touches_def)

text \<open>
  A request whose send failed is never named again: the send leaves no trace, and the failure of the
  receive that follows is reported for request 0 when no other request waits.
\<close>

lemma failed_send_is_anonymous:
  assumes "u_redeem U (tk_pending t) ev = Some r" "sint r < 0" "cd_pending_ids c = []"
  shows "on_send_complete U base t ev st w = Some (st, w) \<and> (\<exists>c'. receive_failed h e c = ([CError 0 h (- e)], c'))"
  using assms by (simp add: on_send_complete_def receive_failed_def pop_pending_id_def)

section \<open>A scripted ring\<close>

record rworld =
  rw_events :: "event list"
  rw_tickets :: "SendTicket list"
  rw_buffers :: "u16 \<rightharpoonup> bytes"
  rw_results :: "ConnResult list"
  rw_rearms :: "RearmMsg list"

definition rw_wait :: "rworld \<Rightarrow> rworld" where
  "rw_wait w = w"

definition rw_reap :: "rworld \<Rightarrow> event option \<times> rworld" where
  "rw_reap w = (case rw_events w of [] \<Rightarrow> (None, w) | e # es \<Rightarrow> (Some e, w\<lparr> rw_events := es \<rparr>))"

definition rw_pop_ticket :: "rworld \<Rightarrow> SendTicket option \<times> rworld" where
  "rw_pop_ticket w = (case rw_tickets w of [] \<Rightarrow> (None, w) | t # ts \<Rightarrow> (Some t, w\<lparr> rw_tickets := ts \<rparr>))"

definition rw_recycle :: "u16 \<Rightarrow> rworld \<Rightarrow> rworld" where
  "rw_recycle bid w = w\<lparr> rw_buffers := (rw_buffers w)(bid := None) \<rparr>"

definition rw_respond :: "ConnResult \<Rightarrow> rworld \<Rightarrow> rworld" where
  "rw_respond r w = w\<lparr> rw_results := rw_results w @ [r] \<rparr>"

definition rw_rearm :: "RearmMsg \<Rightarrow> rworld \<Rightarrow> rworld" where
  "rw_rearm m w = w\<lparr> rw_rearms := rw_rearms w @ [m] \<rparr>"

definition scripted_uring :: "rworld uring" where
  "scripted_uring =
     \<lparr> u_wait = rw_wait, u_reap_event = rw_reap, u_sync = rw_wait,
       u_buffer = (\<lambda>w bid n. map_option (take (unat n)) (rw_buffers w bid)),
       u_recycle = rw_recycle, u_pop_ticket = rw_pop_ticket,
       u_redeem = (\<lambda>p ev. if ev_user_data ev = p then Some (ev_result ev) else None),
       u_respond = rw_respond, u_rearm = rw_rearm \<rparr>"

interpretation scripted_ring: uring_world scripted_uring rw_events rw_tickets
  by unfold_locales
     (auto simp: scripted_uring_def rw_wait_def rw_reap_def rw_pop_ticket_def rw_recycle_def rw_respond_def rw_rearm_def
       split: list.splits)

definition no_conns :: complete_state where
  "no_conns = \<lparr> cs_conns = Map.empty, cs_tickets = Map.empty \<rparr>"

definition bare_event :: "u64 \<Rightarrow> event" where
  "bare_event u = \<lparr> ev_user_data = u, ev_result = 0, ev_buffer_id = None, ev_more = False, ev_complete = False \<rparr>"

definition stopping_world :: rworld where
  "stopping_world = \<lparr> rw_events = [bare_event TIMEOUT_UD, bare_event SHUTDOWN_UD], rw_tickets = [], rw_buffers = Map.empty,
     rw_results = [], rw_rearms = [] \<rparr>"

lemma stopping_reached:
  assumes "reached scripted_uring 0 st w st' w'" "st = no_conns"
    "set (rw_events w) \<subseteq> {bare_event TIMEOUT_UD, bare_event SHUTDOWN_UD}"
  shows "st' = no_conns \<and> set (rw_events w') \<subseteq> {bare_event TIMEOUT_UD, bare_event SHUTDOWN_UD}"
  using assms
proof (induction rule: reached.induct)
  case (event w ev w1 st st1 w2 st' w')
  have e: "ev \<in> {bare_event TIMEOUT_UD, bare_event SHUTDOWN_UD}" "set (rw_events w1) \<subseteq> {bare_event TIMEOUT_UD, bare_event SHUTDOWN_UD}"
    using scripted_ring.reap_some [OF event.hyps(1)] event.prems by auto
  have "st1 = st" using event.hyps(2) e(1)
    by (auto simp: complete_event_def bare_event_def TIMEOUT_UD_def SHUTDOWN_UD_def split: if_splits)
  moreover have "rw_events w2 = rw_events w1" by (rule scripted_ring.complete_event_arrivals [OF event.hyps(2)])
  ultimately show ?case using event.IH event.prems e(2) by simp
next
  case (idle w w1 st st' w')
  then show ?case using scripted_ring.reap_none [OF idle.hyps(1)] by simp
qed simp


theorem completions_isolated_witness:
  "\<exists>st' w'. complete_event scripted_uring 0 (bare_event (ud_raw (ud_recv 5 3))) no_conns stopping_world = Some (False, st', w')
    \<and> thread_inv st' \<and> cs_conns st' 4 = None"
proof -
  let ?ev = "bare_event (ud_raw (ud_recv 5 3))"
  have ud: "ud_raw (ud_recv 5 3) \<notin> {SHUTDOWN_UD, TIMEOUT_UD, TIMEOUT_REMOVE_UD}" "ud_is_recv (ud_recv 5 3)"
    "ud_conn_id (ud_recv 5 3) = 3"
    using ud_not_reserved [of 5 3] ud_round_trip [of 5 3] by simp_all
  obtain st' w' where ce: "complete_event scripted_uring 0 ?ev no_conns stopping_world = Some (False, st', w')"
    using ud by (cases "finish_until_close \<lparr> ch_conn_id = 3, ch_fd = ud_fd (ud_recv 5 3) \<rparr> (conn_entry no_conns 3)")
      (auto simp: complete_event_def bare_event_def Let_def)
  have inv: "thread_inv no_conns" by (simp add: thread_inv_def no_conns_def)
  have "thread_inv st' \<and> cs_conns st' 4 = None"
    using completions_isolated [OF inv ce] ud by (auto simp: bare_event_def no_conns_def)
  with ce show ?thesis by blast
qed

end
