(* ===== verification/Driver_Pool.thy ===== *)
theory Driver_Pool
  imports Driver_Thread Request Client
begin

text \<open>
  \<^verbatim>\<open>xibalba-iouring/src/driver.rs\<close>, last part: the pool the caller owns. It dials connections,
  queues sends and receives, and takes the results of the completion thread off its ring,
  keeping those that were not asked for. The operating system, the ring and the queues are the
  record \<open>pool_env\<close>. \<open>Pool_World\<close> holds the results on these definitions.
\<close>

section \<open>Definitions\<close>

subsection \<open>Addresses\<close>

text \<open>
  \<^verbatim>\<open>to_be\<close> and \<^verbatim>\<open>from_be\<close> on a little-endian machine: the bytes in reverse order.
\<close>

definition swap16 :: "u16 \<Rightarrow> u16" where
  "swap16 x = push_bit 8 x OR drop_bit 8 x"

definition swap32 :: "u32 \<Rightarrow> u32" where
  "swap32 x = push_bit 24 x OR push_bit 8 (x AND 0xff00) OR drop_bit 8 x AND 0xff00 OR drop_bit 24 x"

datatype 'v socket_addr = V4 u32 u16 | V6 'v

record SockAddrIn =
  sin_family :: u16
  sin_port :: u16
  sin_addr :: u32

datatype 'v ResolvedAddr = RV4 SockAddrIn | RV6 'v

subsection \<open>The pool\<close>

record CallerConn =
  cc_fd :: u64
  cc_recv_armed :: bool
  cc_needs_reconnect :: bool
  cc_url :: bytes

record Pool =
  p_conns :: "u32 \<rightharpoonup> CallerConn"
  p_free_ids :: "u32 set"
  p_next_conn_id :: u32
  p_pending_rearms :: "RearmMsg list"
  p_next_request_id :: u32
  p_stash :: "request_id \<rightharpoonup> ConnResult"

text \<open>
  What the pool uses of the standard library, the ring crate and the queues. A push onto the
  submission queue fails with the text of the error when the queue is full; \<open>pe_connect\<close> is
  \<^verbatim>\<open>TcpStream::connect\<close> with the descriptor taken out of the stream.
\<close>

record ('w, 'v) pool_env =
  pe_lookup :: "bytes \<Rightarrow> u16 \<Rightarrow> 'w \<Rightarrow> (string + 'v socket_addr list) \<times> 'w"
  pe_connect :: "'v socket_addr \<Rightarrow> 'w \<Rightarrow> u64 option \<times> 'w"
  pe_set_nodelay :: "u64 \<Rightarrow> 'w \<Rightarrow> 'w"
  pe_close :: "u64 \<Rightarrow> 'w \<Rightarrow> 'w"
  pe_push_write :: "u64 \<Rightarrow> bytes \<Rightarrow> 'w \<Rightarrow> (string + u64) \<times> 'w"
  pe_push_ticket :: "SendTicket \<Rightarrow> 'w \<Rightarrow> bool \<times> 'w"
  pe_push_recv :: "u64 \<Rightarrow> UserData \<Rightarrow> 'w \<Rightarrow> (string + unit) \<times> 'w"
  pe_push_timeout :: "u64 \<Rightarrow> u64 \<Rightarrow> 'w \<Rightarrow> (string + unit) \<times> 'w"
  pe_push_timeout_remove :: "u64 \<Rightarrow> u64 \<Rightarrow> 'w \<Rightarrow> (string + unit) \<times> 'w"
  pe_push_nop :: "u64 \<Rightarrow> 'w \<Rightarrow> 'w"
  pe_submit :: "'w \<Rightarrow> (string + unit) \<times> 'w"
  pe_pop_response :: "'w \<Rightarrow> ConnResult option \<times> 'w"
  pe_pop_block :: "'w \<Rightarrow> ConnResult option \<times> 'w"
  pe_pop_rearm :: "'w \<Rightarrow> RearmMsg option \<times> 'w"
  pe_join :: "'w \<Rightarrow> 'w"

abbreviation other_error :: "string \<Rightarrow> Error" where
  "other_error m \<equiv> Connection (OtherConnection m)"

definition Pool_new :: Pool where
  "Pool_new = \<lparr> p_conns = Map.empty, p_free_ids = {}, p_next_conn_id = 0, p_pending_rearms = [],
     p_next_request_id = 1, p_stash = Map.empty \<rparr>"

definition pool_drop :: "('w, 'v) pool_env \<Rightarrow> Pool \<Rightarrow> 'w \<Rightarrow> 'w" where
  "pool_drop P self w = pe_join P (snd (pe_submit P (pe_push_nop P SHUTDOWN_UD w)))"

subsection \<open>Dialling\<close>

fun find_v4 :: "'v socket_addr list \<Rightarrow> (u32 \<times> u16) option" where
  "find_v4 [] = None"
| "find_v4 (V4 ip port # rest) = Some (ip, port)"
| "find_v4 (V6 a # rest) = find_v4 rest"

fun find_v6 :: "'v socket_addr list \<Rightarrow> 'v option" where
  "find_v6 [] = None"
| "find_v6 (V6 a # rest) = Some a"
| "find_v6 (V4 ip port # rest) = find_v6 rest"

definition resolve_addr ::
  "('w, 'v) pool_env \<Rightarrow> bytes \<Rightarrow> u16 \<Rightarrow> 'w \<Rightarrow> (Error + 'v ResolvedAddr) \<times> 'w" where
  "resolve_addr P host port w =
     (case pe_lookup P host port w of
        (Inl e, w) \<Rightarrow> (Inl (other_error (''DNS resolution failed: '' @ e)), w)
      | (Inr addrs, w) \<Rightarrow>
          (case find_v4 addrs of
             Some (ip, p) \<Rightarrow> (Inr (RV4 \<lparr> sin_family = 2, sin_port = swap16 p, sin_addr = swap32 ip \<rparr>), w)
           | None \<Rightarrow>
               (case find_v6 addrs of
                  Some a \<Rightarrow> (Inr (RV6 a), w)
                | None \<Rightarrow> (Inl (other_error ''no address found''), w))))"

definition blocking_connect :: "('w, 'v) pool_env \<Rightarrow> 'v socket_addr \<Rightarrow> 'w \<Rightarrow> u64 option \<times> 'w" where
  "blocking_connect P target w =
     (case pe_connect P target w of
        (None, w) \<Rightarrow> (None, w)
      | (Some fd, w) \<Rightarrow> (Some fd, pe_set_nodelay P fd w))"

definition blocking_connect_resolved :: "('w, 'v) pool_env \<Rightarrow> 'v ResolvedAddr \<Rightarrow> 'w \<Rightarrow> u64 option \<times> 'w" where
  "blocking_connect_resolved P target w =
     (case target of
        RV4 a \<Rightarrow> blocking_connect P (V4 (swap32 (sin_addr a)) (swap16 (sin_port a))) w
      | RV6 a \<Rightarrow> blocking_connect P (V6 a) w)"

text \<open>The steps that \<^verbatim>\<open>connect\<close> and the reconnect of \<^verbatim>\<open>request\<close> share, with the text of the last error.\<close>

definition dial_url :: "('w, 'v) pool_env \<Rightarrow> bytes \<Rightarrow> string \<Rightarrow> 'w \<Rightarrow> (Error + u64) \<times> 'w" where
  "dial_url P url failed w =
     (case Url_parse url of
        Inl e \<Rightarrow> (Inl e, w)
      | Inr parsed \<Rightarrow>
          if \<not> utf8_valid (url_host parsed) then (Inl (other_error ''invalid UTF-8 in host''), w)
          else
            (case resolve_addr P (url_host parsed) (effective_port parsed) w of
               (Inl e, w) \<Rightarrow> (Inl e, w)
             | (Inr target, w) \<Rightarrow>
                 (case blocking_connect_resolved P target w of
                    (None, w) \<Rightarrow> (Inl (other_error failed), w)
                  | (Some fd, w) \<Rightarrow> (Inr fd, w))))"

definition alloc_conn_id :: "Pool \<Rightarrow> (Error + u32) \<times> Pool" where
  "alloc_conn_id self =
     (if p_free_ids self \<noteq> {} then
        let i = Min (p_free_ids self) in (Inr i, self\<lparr> p_free_ids := p_free_ids self - {i} \<rparr>)
      else
        let i = p_next_conn_id self in
        case checked_add i 1 of
          None \<Rightarrow> (Inl (other_error ''conn_id space exhausted (>4B connections)''), self)
        | Some j \<Rightarrow> (Inr i, self\<lparr> p_next_conn_id := j \<rparr>))"

definition pool_connect ::
  "('w, 'v) pool_env \<Rightarrow> Pool \<Rightarrow> bytes \<Rightarrow> 'w \<Rightarrow> (Error + ConnHandle) \<times> Pool \<times> 'w" where
  "pool_connect P self url w =
     (case dial_url P url ''TCP connect failed'' w of
        (Inl e, w) \<Rightarrow> (Inl e, self, w)
      | (Inr fd, w) \<Rightarrow>
          (case alloc_conn_id self of
             (Inl e, self) \<Rightarrow> (Inl e, self, w)
           | (Inr conn_id, self) \<Rightarrow>
               (Inr \<lparr> ch_conn_id = conn_id, ch_fd = fd \<rparr>,
                self\<lparr> p_conns := (p_conns self)(conn_id \<mapsto>
                  \<lparr> cc_fd = fd, cc_recv_armed = False, cc_needs_reconnect = False, cc_url = url \<rparr>) \<rparr>, w)))"

definition pool_disconnect :: "('w, 'v) pool_env \<Rightarrow> Pool \<Rightarrow> ConnHandle \<Rightarrow> 'w \<Rightarrow> Pool \<times> 'w" where
  "pool_disconnect P self conn w =
     (case p_conns self (ch_conn_id conn) of
        None \<Rightarrow> (self, w)
      | Some c \<Rightarrow>
          (self\<lparr> p_conns := (p_conns self)(ch_conn_id conn := None),
                 p_free_ids := insert (ch_conn_id conn) (p_free_ids self) \<rparr>,
           if \<not> cc_needs_reconnect c then pe_close P (cc_fd c) w else w))"

subsection \<open>Requests\<close>

partial_function (option) collect_rearms ::
  "('w, 'v) pool_env \<Rightarrow> RearmMsg list \<Rightarrow> 'w \<Rightarrow> (RearmMsg list \<times> 'w) option" where
  "collect_rearms P pending w =
     (case pe_pop_rearm P w of
        (None, w) \<Rightarrow> Some (pending, w)
      | (Some msg, w) \<Rightarrow> collect_rearms P (pending @ [msg]) w)"

definition mark_armed :: "u32 \<Rightarrow> (u32 \<rightharpoonup> CallerConn) \<Rightarrow> (u32 \<rightharpoonup> CallerConn)" where
  "mark_armed conn_id conns =
     (case conns conn_id of None \<Rightarrow> conns | Some c \<Rightarrow> conns(conn_id \<mapsto> c\<lparr> cc_recv_armed := True \<rparr>))"

fun flush_rearms ::
  "('w, 'v) pool_env \<Rightarrow> RearmMsg list \<Rightarrow> (u32 \<rightharpoonup> CallerConn) \<Rightarrow> 'w \<Rightarrow> RearmMsg list \<times> (u32 \<rightharpoonup> CallerConn) \<times> 'w" where
  "flush_rearms P [] conns w = ([], conns, w)"
| "flush_rearms P (msg # rest) conns w =
     (case pe_push_recv P (rm_fd msg) (ud_recv (rm_fd msg) (rm_conn_id msg)) w of
        (Inl _, w) \<Rightarrow> (msg # rest, conns, w)
      | (Inr _, w) \<Rightarrow> flush_rearms P rest (mark_armed (rm_conn_id msg) conns) w)"

definition drain_rearms :: "('w, 'v) pool_env \<Rightarrow> Pool \<Rightarrow> 'w \<Rightarrow> (Pool \<times> 'w) option" where
  "drain_rearms P self w =
     Option.bind (collect_rearms P (p_pending_rearms self) w) (\<lambda>(pending, w).
       let (pending, conns, w) = flush_rearms P pending (p_conns self) w;
           self = self\<lparr> p_pending_rearms := pending, p_conns := conns \<rparr> in
       Some (self, if pending \<noteq> [] then snd (pe_submit P w) else w))"

definition host_header :: "Url \<Rightarrow> bytes" where
  "host_header parsed =
     (let port = effective_port parsed in
      if port = default_port (url_scheme parsed) then url_host parsed
      else url_host parsed @ [COLON] @ to_decimal (unat port))"

definition pool_req :: "bytes \<Rightarrow> Method \<Rightarrow> bytes \<Rightarrow> bytes option \<Rightarrow> Request" where
  "pool_req host m path query =
     \<lparr> req_method = m, req_path = path, req_query = query, req_version = Http11,
       req_headers =
         [\<lparr> hname = HN_Host, hvalue = host \<rparr>,
          \<lparr> hname = HN_Connection, hvalue = bs ''keep-alive'' \<rparr>,
          \<lparr> hname = Known H_UserAgent, hvalue = bs ''xibalba/0.1'' \<rparr>] \<rparr>"

definition too_large :: "usize \<Rightarrow> Error" where
  "too_large max_req =
     other_error (''request exceeds MAX_REQ ('' @ usize_str max_req @ '' bytes); increase the MAX_REQ const generic'')"

definition push_send ::
  "('w, 'v) pool_env \<Rightarrow> u64 \<Rightarrow> bytes \<Rightarrow> u32 \<Rightarrow> request_id \<Rightarrow> 'w \<Rightarrow> (Error + unit) \<times> 'w" where
  "push_send P fd buf conn_id request_id w =
     (case pe_push_write P fd buf w of
        (Inl e, w) \<Rightarrow> (Inl (other_error (''SQ full (send): '' @ e)), w)
      | (Inr pending, w) \<Rightarrow>
          (case pe_push_ticket P \<lparr> tk_pending = pending, tk_conn_id = conn_id, tk_request_id = request_id \<rparr> w of
             (True, w) \<Rightarrow> (Inr (), w)
           | (False, w) \<Rightarrow> (Inl (other_error ''complete thread exited unexpectedly''), w)))"

text \<open>The lazy reconnect at the start of \<^verbatim>\<open>request\<close>.\<close>

definition reconnect_if_needed ::
  "('w, 'v) pool_env \<Rightarrow> Pool \<Rightarrow> u32 \<Rightarrow> 'w \<Rightarrow> (Error + unit) \<times> Pool \<times> 'w" where
  "reconnect_if_needed P self conn_id w =
     (case p_conns self conn_id of
        None \<Rightarrow> (Inr (), self, w)
      | Some c \<Rightarrow>
          if \<not> cc_needs_reconnect c then (Inr (), self, w)
          else
            (case dial_url P (cc_url c) ''TCP reconnect failed'' w of
               (Inl e, w) \<Rightarrow> (Inl e, self, w)
             | (Inr new_fd, w) \<Rightarrow>
                 (Inr (), self\<lparr> p_conns := (p_conns self)(conn_id \<mapsto>
                    c\<lparr> cc_fd := new_fd, cc_recv_armed := False, cc_needs_reconnect := False \<rparr>) \<rparr>, w)))"

text \<open>The text of the request, and the send, the receive and the submission.\<close>

definition build_send :: "usize \<Rightarrow> CallerConn \<Rightarrow> Method \<Rightarrow> bytes \<Rightarrow> bytes option \<Rightarrow> Error + bytes" where
  "build_send max_req c m path query =
     res_bind (Url_parse (cc_url c)) (\<lambda>parsed.
       let req = pool_req (host_header parsed) m path query;
           len = serialized_len req in
       if len > max_req then Inl (too_large max_req)
       else (case serialize_to_buf req (replicate len 0) of
               (_, Inl _) \<Rightarrow> Inl (too_large max_req)
             | (send_buf, Inr _) \<Rightarrow> Inr send_buf))"

definition arm_and_submit ::
  "('w, 'v) pool_env \<Rightarrow> Pool \<Rightarrow> u32 \<Rightarrow> u64 \<Rightarrow> bool \<Rightarrow> request_id \<Rightarrow> 'w \<Rightarrow> (Error + request_id) \<times> Pool \<times> 'w" where
  "arm_and_submit P self conn_id fd recv_armed request_id w =
     (case (if recv_armed then (Inr (), self, w)
            else case pe_push_recv P fd (ud_recv fd conn_id) w of
                   (Inl e, w) \<Rightarrow> (Inl (other_error (''SQ full (recv): '' @ e)), self, w)
                 | (Inr _, w) \<Rightarrow> (Inr (), self\<lparr> p_conns := mark_armed conn_id (p_conns self) \<rparr>, w)) of
        (Inl e, self, w) \<Rightarrow> (Inl e, self, w)
      | (Inr _, self, w) \<Rightarrow>
          (case pe_submit P w of
             (Inl e, w) \<Rightarrow> (Inl (other_error (''submit: '' @ e)), self, w)
           | (Inr _, w) \<Rightarrow> (Inr request_id, self, w)))"

definition pool_request ::
  "('w, 'v) pool_env \<Rightarrow> usize \<Rightarrow> Pool \<Rightarrow> ConnHandle \<Rightarrow> Method \<Rightarrow> bytes \<Rightarrow> bytes option \<Rightarrow> 'w
   \<Rightarrow> ((Error + request_id) \<times> Pool \<times> 'w) option" where
  "pool_request P max_req self conn m path query w =
     Option.bind (drain_rearms P self w) (\<lambda>(self, w).
       Some (case reconnect_if_needed P self (ch_conn_id conn) w of
         (Inl e, self, w) \<Rightarrow> (Inl e, self, w)
       | (Inr _, self, w) \<Rightarrow>
           (case p_conns self (ch_conn_id conn) of
              None \<Rightarrow> (Inl (other_error ''unknown conn_id''), self, w)
            | Some c \<Rightarrow>
                (case build_send max_req c m path query of
                   Inl e \<Rightarrow> (Inl e, self, w)
                 | Inr send_buf \<Rightarrow>
                     let request_id = ucast (p_next_request_id self);
                         self = self\<lparr> p_next_request_id := p_next_request_id self + 1 \<rparr> in
                     case push_send P (cc_fd c) send_buf (ch_conn_id conn) request_id w of
                       (Inl e, w) \<Rightarrow> (Inl e, self, w)
                     | (Inr _, w) \<Rightarrow>
                         arm_and_submit P self (ch_conn_id conn) (cc_fd c) (cc_recv_armed c) request_id w))))"

definition pool_get ::
  "('w, 'v) pool_env \<Rightarrow> usize \<Rightarrow> Pool \<Rightarrow> ConnHandle \<Rightarrow> bytes \<Rightarrow> 'w \<Rightarrow> ((Error + request_id) \<times> Pool \<times> 'w) option" where
  "pool_get P max_req self conn path w = pool_request P max_req self conn Get path None w"

subsection \<open>Results\<close>

definition mark_connection_for_reconnect :: "('w, 'v) pool_env \<Rightarrow> Pool \<Rightarrow> ConnHandle \<Rightarrow> 'w \<Rightarrow> Pool \<times> 'w" where
  "mark_connection_for_reconnect P self conn w =
     (case p_conns self (ch_conn_id conn) of
        None \<Rightarrow> (self, w)
      | Some c \<Rightarrow>
          if cc_needs_reconnect c then (self, w)
          else (self\<lparr> p_conns := (p_conns self)(ch_conn_id conn \<mapsto>
                  c\<lparr> cc_fd := - 1, cc_recv_armed := False, cc_needs_reconnect := True \<rparr>) \<rparr>,
                pe_close P (cc_fd c) w))"

definition handle_error ::
  "('w, 'v) pool_env \<Rightarrow> Pool \<Rightarrow> request_id \<Rightarrow> ConnHandle \<Rightarrow> 32 word \<Rightarrow> 'w \<Rightarrow> ConnResult \<times> Pool \<times> 'w" where
  "handle_error P self request_id conn errno w =
     (let (self, w) = mark_connection_for_reconnect P self conn w in (CError request_id conn errno, self, w))"

definition handle_protocol_error ::
  "('w, 'v) pool_env \<Rightarrow> Pool \<Rightarrow> request_id \<Rightarrow> ConnHandle \<Rightarrow> Error \<Rightarrow> 'w \<Rightarrow> ConnResult \<times> Pool \<times> 'w" where
  "handle_protocol_error P self request_id conn error w =
     (let (self, w) = mark_connection_for_reconnect P self conn w in (CProtocolError request_id conn error, self, w))"

text \<open>What every receiver does with a result first.\<close>

definition handle_result :: "('w, 'v) pool_env \<Rightarrow> Pool \<Rightarrow> ConnResult \<Rightarrow> 'w \<Rightarrow> ConnResult \<times> Pool \<times> 'w" where
  "handle_result P self r w =
     (case r of
        CError request_id conn errno \<Rightarrow> handle_error P self request_id conn errno w
      | CProtocolError request_id conn error \<Rightarrow> handle_protocol_error P self request_id conn error w
      | other \<Rightarrow> (other, self, w))"

definition stash_insert :: "ConnResult \<Rightarrow> Pool \<Rightarrow> Pool" where
  "stash_insert r self = self\<lparr> p_stash := (p_stash self)(result_id r \<mapsto> r) \<rparr>"

definition stash_remove :: "request_id \<Rightarrow> Pool \<Rightarrow> ConnResult option \<times> Pool" where
  "stash_remove rid self = (p_stash self rid, self\<lparr> p_stash := (p_stash self)(rid := None) \<rparr>)"

partial_function (option) poll_loop :: "('w, 'v) pool_env \<Rightarrow> Pool \<Rightarrow> 'w \<Rightarrow> (Pool \<times> 'w) option" where
  "poll_loop P self w =
     (case pe_pop_response P w of
        (None, w) \<Rightarrow> Some (self, w)
      | (Some r, w) \<Rightarrow> (let (r, self, w) = handle_result P self r w in poll_loop P (stash_insert r self) w))"

definition pool_poll ::
  "('w, 'v) pool_env \<Rightarrow> Pool \<Rightarrow> request_id \<Rightarrow> 'w \<Rightarrow> (ConnResult option \<times> Pool \<times> 'w) option" where
  "pool_poll P self rid w =
     map_option (\<lambda>(self, w). let (r, self) = stash_remove rid self in (r, self, w)) (poll_loop P self w)"

partial_function (option) pool_recv ::
  "('w, 'v) pool_env \<Rightarrow> Pool \<Rightarrow> request_id \<Rightarrow> 'w \<Rightarrow> ((Error + ConnResult) \<times> Pool \<times> 'w) option" where
  "pool_recv P self rid w =
     (case p_stash self rid of
        Some r \<Rightarrow> Some (Inr r, snd (stash_remove rid self), w)
      | None \<Rightarrow>
          (case pe_pop_block P w of
             (None, w) \<Rightarrow> Some (Inl (other_error ''complete thread exited unexpectedly''), self, w)
           | (Some r, w) \<Rightarrow>
               (let (r, self, w) = handle_result P self r w in
                if result_id r = rid then Some (Inr r, self, w)
                else pool_recv P (stash_insert r self) rid w)))"

definition cancel_timeout :: "('w, 'v) pool_env \<Rightarrow> 'w \<Rightarrow> 'w" where
  "cancel_timeout P w = snd (pe_submit P (snd (pe_push_timeout_remove P TIMEOUT_UD TIMEOUT_REMOVE_UD w)))"

partial_function (option) timeout_loop ::
  "('w, 'v) pool_env \<Rightarrow> Pool \<Rightarrow> request_id \<Rightarrow> 'w \<Rightarrow> ((Error + ConnResult option) \<times> Pool \<times> 'w) option" where
  "timeout_loop P self rid w =
     (case pe_pop_block P w of
        (None, w) \<Rightarrow> Some (Inl (other_error ''complete thread exited unexpectedly''), self, w)
      | (Some r, w) \<Rightarrow>
          if r = CTimeout then Some (Inr None, self, w)
          else
            (let (r, self, w) = handle_result P self r w in
             if result_id r = rid then Some (Inr (Some r), self, cancel_timeout P w)
             else timeout_loop P (stash_insert r self) rid w))"

text \<open>The timeout in milliseconds, saturated to 64 bits.\<close>

definition timeout_millis :: "nat \<Rightarrow> u64" where
  "timeout_millis millis = (if millis < 2 ^ 64 then of_nat millis else - 1)"

definition pool_recv_timeout ::
  "('w, 'v) pool_env \<Rightarrow> Pool \<Rightarrow> request_id \<Rightarrow> nat \<Rightarrow> 'w \<Rightarrow> ((Error + ConnResult option) \<times> Pool \<times> 'w) option" where
  "pool_recv_timeout P self rid millis w =
     (case p_stash self rid of
        Some r \<Rightarrow> Some (Inr (Some r), snd (stash_remove rid self), w)
      | None \<Rightarrow>
          (case pe_push_timeout P (timeout_millis millis) TIMEOUT_UD w of
             (Inl _, w) \<Rightarrow> map_option (\<lambda>(r, self, w). (Inr r, self, w)) (pool_poll P self rid w)
           | (Inr _, w) \<Rightarrow> timeout_loop P self rid (snd (pe_submit P w))))"

end
