(* ===== verification/Pool_World.thy ===== *)
theory Pool_World
  imports Driver_Pool
begin

text \<open>
  What the pool of \<^verbatim>\<open>xibalba-iouring/src/driver.rs\<close> guarantees to its caller. The locale
  \<open>pool_world\<close> is what it relies on; inside it every operation is shown to keep the invariant of ids and
  descriptors, and the receivers to return the results in the ring under their own ids.
\<close>

declare pool_recv.simps [code]

text \<open>The result goes through unchanged; only the connection of a failure is marked.\<close>

definition mark_failed :: "('w, 'v) pool_env \<Rightarrow> Pool \<Rightarrow> ConnResult \<Rightarrow> 'w \<Rightarrow> Pool \<times> 'w" where
  "mark_failed P self r w =
     (case r of
        CError _ conn _ \<Rightarrow> mark_connection_for_reconnect P self conn w
      | CProtocolError _ conn _ \<Rightarrow> mark_connection_for_reconnect P self conn w
      | _ \<Rightarrow> (self, w))"

lemma handle_result_eq [simp]: "handle_result P self r w = (r, mark_failed P self r w)"
  by (cases r) (simp_all add: handle_result_def handle_error_def handle_protocol_error_def mark_failed_def split: prod.splits)

section \<open>The world of the pool\<close>

text \<open>
  What the pool relies on. \<open>ring w\<close> are the results to come, in order; \<open>open_fds w\<close> the open
  descriptors; \<open>sound w\<close> that no descriptor was closed that was not open; \<open>rearms w\<close> the queue of
  messages of the thread. A new connection has a descriptor that was not open.
\<close>

locale pool_world =
  fixes P :: "('w, 'v) pool_env" and ring :: "'w \<Rightarrow> ConnResult list" and open_fds :: "'w \<Rightarrow> u64 set"
    and sound :: "'w \<Rightarrow> bool" and rearms :: "'w \<Rightarrow> RearmMsg list"
  assumes lookup_frame: "pe_lookup P h p w = (r, w1) \<Longrightarrow> ring w1 = ring w \<and> open_fds w1 = open_fds w \<and> sound w1 = sound w"
    and connect_new: "pe_connect P a w = (Some fd, w1) \<Longrightarrow> fd \<notin> open_fds w \<and> open_fds w1 = insert fd (open_fds w)"
    and connect_none: "pe_connect P a w = (None, w1) \<Longrightarrow> open_fds w1 = open_fds w"
    and connect_frame: "pe_connect P a w = (ofd, w1) \<Longrightarrow> ring w1 = ring w \<and> sound w1 = sound w"
    and nodelay_frame [simp]: "ring (pe_set_nodelay P fd w) = ring w" "open_fds (pe_set_nodelay P fd w) = open_fds w"
      "sound (pe_set_nodelay P fd w) = sound w"
    and close_fd [simp]: "open_fds (pe_close P fd w) = open_fds w - {fd}" "ring (pe_close P fd w) = ring w"
      "sound (pe_close P fd w) = (sound w \<and> fd \<in> open_fds w)"
    and write_frame: "pe_push_write P fd d w = (rw, w1) \<Longrightarrow> ring w1 = ring w \<and> open_fds w1 = open_fds w \<and> sound w1 = sound w"
    and ticket_frame: "pe_push_ticket P t w = (b, w1) \<Longrightarrow> ring w1 = ring w \<and> open_fds w1 = open_fds w \<and> sound w1 = sound w"
    and recv_frame: "pe_push_recv P fd u w = (ru, w1) \<Longrightarrow> ring w1 = ring w \<and> open_fds w1 = open_fds w \<and> sound w1 = sound w"
    and timeout_frame: "pe_push_timeout P ms v w = (ru, w1) \<Longrightarrow> ring w1 = ring w \<and> open_fds w1 = open_fds w \<and> sound w1 = sound w"
    and remove_frame: "pe_push_timeout_remove P v v' w = (ru, w1) \<Longrightarrow> ring w1 = ring w \<and> open_fds w1 = open_fds w \<and> sound w1 = sound w"
    and submit_frame: "pe_submit P w = (ru, w1) \<Longrightarrow> ring w1 = ring w \<and> open_fds w1 = open_fds w \<and> sound w1 = sound w"
    and pop_some: "pe_pop_response P w = (Some r1, w1) \<Longrightarrow> ring w = r1 # ring w1"
    and pop_none: "pe_pop_response P w = (None, w1) \<Longrightarrow> ring w1 = ring w"
    and pop_frame: "pe_pop_response P w = (ores, w1) \<Longrightarrow> open_fds w1 = open_fds w \<and> sound w1 = sound w"
    and block_some: "pe_pop_block P w = (Some r1, w1) \<Longrightarrow> ring w = r1 # ring w1"
    and block_none: "pe_pop_block P w = (None, w1) \<Longrightarrow> ring w = [] \<and> ring w1 = []"
    and block_frame: "pe_pop_block P w = (ores, w1) \<Longrightarrow> open_fds w1 = open_fds w \<and> sound w1 = sound w"
    and rearm_some: "pe_pop_rearm P w = (Some m, w1) \<Longrightarrow> rearms w = m # rearms w1"
    and rearm_frame: "pe_pop_rearm P w = (om, w1) \<Longrightarrow> ring w1 = ring w \<and> open_fds w1 = open_fds w \<and> sound w1 = sound w"
begin

abbreviation steady :: "'w \<Rightarrow> 'w \<Rightarrow> bool" where
  "steady w w1 \<equiv> ring w1 = ring w \<and> open_fds w1 = open_fds w \<and> sound w1 = sound w"

lemma submit_steady: "steady w (snd (pe_submit P w))"
  using submit_frame by (metis prod.collapse)

lemma cancel_timeout_steady: "steady w (cancel_timeout P w)"
proof -
  obtain ru w1 where r: "pe_push_timeout_remove P TIMEOUT_UD TIMEOUT_REMOVE_UD w = (ru, w1)"
    by (cases "pe_push_timeout_remove P TIMEOUT_UD TIMEOUT_REMOVE_UD w")
  then show ?thesis using remove_frame [OF r] submit_steady [of w1] by (simp add: cancel_timeout_def)
qed

subsection \<open>Results\<close>

lemma mark_frame:
  "mark_connection_for_reconnect P self conn w = (self', w1) \<Longrightarrow> ring w1 = ring w \<and> p_stash self' = p_stash self"
  by (auto simp: mark_connection_for_reconnect_def split: option.splits if_splits)

lemma mark_failed_frame:
  "mark_failed P self r w = (self', w1) \<Longrightarrow> ring w1 = ring w \<and> p_stash self' = p_stash self"
  using mark_frame by (cases r) (auto simp: mark_failed_def)

end

text \<open>The stash after a list of results.\<close>

definition stashed :: "(request_id \<rightharpoonup> ConnResult) \<Rightarrow> ConnResult list \<Rightarrow> (request_id \<rightharpoonup> ConnResult)" where
  "stashed m rs = foldl (\<lambda>m r. m(result_id r \<mapsto> r)) m rs"

lemma stashed_simps [simp]: "stashed m [] = m" "stashed m (r # rs) = stashed (m(result_id r \<mapsto> r)) rs"
  by (simp_all add: stashed_def)

lemma stashed_other: "\<forall>r\<in>set rs. result_id r \<noteq> i \<Longrightarrow> stashed m rs i = m i"
  by (induction rs arbitrary: m) auto

lemma stashed_mem: "r \<in> set rs \<Longrightarrow> stashed m rs (result_id r) \<noteq> None"
proof (induction rs arbitrary: m)
  case (Cons a rs)
  have "stashed m' rs i \<noteq> None" if "m' i \<noteq> None" for m' i
    using that by (induction rs arbitrary: m') auto
  with Cons show ?case by auto
qed simp

context pool_world
begin

lemma poll_loop_returns:
  "\<exists>self' w' taken. poll_loop P self w = Some (self', w') \<and> ring w = taken @ ring w'
     \<and> p_stash self' = stashed (p_stash self) taken"
proof (induction "length (ring w)" arbitrary: self w rule: less_induct)
  case less
  obtain r w1 where p: "pe_pop_response P w = (r, w1)" by (cases "pe_pop_response P w")
  show ?case
  proof (cases r)
    case None
    then show ?thesis using p pop_none [of w w1] by (subst poll_loop.simps) (auto intro!: exI [of _ "[]"])
  next
    case (Some x)
    obtain s1 w2 where h: "mark_failed P self x w1 = (s1, w2)" by (cases "mark_failed P self x w1")
    have a: "ring w = x # ring w2" "p_stash s1 = p_stash self"
      using pop_some [of w x w1] p Some mark_failed_frame [OF h] by auto
    then have "length (ring w2) < length (ring w)" by simp
    from less [OF this, of "stash_insert x s1"] obtain self' w' taken where
      "poll_loop P (stash_insert x s1) w2 = Some (self', w')" "ring w2 = taken @ ring w'"
      "p_stash self' = stashed (p_stash (stash_insert x s1)) taken" by blast
    then show ?thesis using p Some h a
      by (subst poll_loop.simps) (auto simp: stash_insert_def intro!: exI [of _ "x # taken"])
  qed
qed

lemma pool_recv_returns:
  assumes "p_stash self rid = None"
  shows "\<exists>self' w'. (case dropWhile (\<lambda>r. result_id r \<noteq> rid) (ring w) of
           r # rest \<Rightarrow> pool_recv P self rid w = Some (Inr r, self', w') \<and> ring w' = rest
         | [] \<Rightarrow> pool_recv P self rid w = Some (Inl (other_error ''complete thread exited unexpectedly''), self', w') \<and> ring w' = [])
      \<and> p_stash self' = stashed (p_stash self) (takeWhile (\<lambda>r. result_id r \<noteq> rid) (ring w))"
  using assms
proof (induction "length (ring w)" arbitrary: self w rule: less_induct)
  case less
  obtain r w1 where p: "pe_pop_block P w = (r, w1)" by (cases "pe_pop_block P w")
  show ?case
  proof (cases r)
    case None
    then show ?thesis using p block_none [of w w1] less.prems by (subst pool_recv.simps) auto
  next
    case (Some x)
    obtain s1 w2 where h: "mark_failed P self x w1 = (s1, w2)" by (cases "mark_failed P self x w1")
    have a: "ring w = x # ring w2" "p_stash s1 = p_stash self"
      using block_some [of w x w1] p Some mark_failed_frame [OF h] by auto
    show ?thesis
    proof (cases "result_id x = rid")
      case True
      then show ?thesis using p Some h a less.prems by (subst pool_recv.simps) auto
    next
      case False
      have l: "length (ring w2) < length (ring w)" using a by simp
      have s: "p_stash (stash_insert x s1) rid = None" using less.prems a False by (simp add: stash_insert_def)
      have eq: "pool_recv P self rid w = pool_recv P (stash_insert x s1) rid w2"
        using p Some h less.prems False by (subst pool_recv.simps) simp
      from less.hyps [OF l s] show ?thesis unfolding eq using a False
        by (auto simp: stash_insert_def split: list.splits)
    qed
  qed
qed

end

section \<open>Ids and descriptors\<close>

text \<open>Ids in use and ids to be used again are different and were all handed out.\<close>

definition ids_inv :: "Pool \<Rightarrow> bool" where
  "ids_inv self =
     (finite (p_free_ids self) \<and> p_free_ids self \<inter> dom (p_conns self) = {}
      \<and> (\<forall>i \<in> p_free_ids self \<union> dom (p_conns self). i < p_next_conn_id self))"

text \<open>A connection that is not down owns an open descriptor, and no two own the same.\<close>

definition fds_inv :: "(u32 \<rightharpoonup> CallerConn) \<Rightarrow> u64 set \<Rightarrow> bool" where
  "fds_inv conns fds =
     (\<forall>i c. conns i = Some c \<longrightarrow> \<not> cc_needs_reconnect c \<longrightarrow> cc_fd c \<in> fds
        \<and> (\<forall>j d. conns j = Some d \<longrightarrow> \<not> cc_needs_reconnect d \<longrightarrow> cc_fd d = cc_fd c \<longrightarrow> j = i))"

lemma fds_inv_new: "fds_inv conns fds \<Longrightarrow> cc_fd c \<notin> fds \<Longrightarrow> fds_inv (conns(i \<mapsto> c)) (insert (cc_fd c) fds)"
  unfolding fds_inv_def by (simp split: if_splits) metis

lemma fds_inv_more: "fds_inv conns fds \<Longrightarrow> fds_inv conns (insert fd fds)"
  unfolding fds_inv_def by blast

lemma fds_inv_remove:
  "fds_inv conns fds \<Longrightarrow> conns i = Some c \<Longrightarrow> \<not> cc_needs_reconnect c \<Longrightarrow> fds_inv (conns(i := None)) (fds - {cc_fd c})"
  unfolding fds_inv_def by (auto split: if_splits)

lemma fds_inv_down:
  "fds_inv conns fds \<Longrightarrow> conns i = Some c \<Longrightarrow> \<not> cc_needs_reconnect c \<Longrightarrow> cc_needs_reconnect d \<Longrightarrow>
   fds_inv (conns(i \<mapsto> d)) (fds - {cc_fd c})"
  unfolding fds_inv_def by (auto split: if_splits)

lemma fds_inv_drop: "fds_inv conns fds \<Longrightarrow> fds_inv (conns(i := None)) fds"
  unfolding fds_inv_def by (auto split: if_splits)

lemma mark_armed_inv: "fds_inv conns fds \<Longrightarrow> fds_inv (mark_armed i conns) fds"
  unfolding fds_inv_def mark_armed_def by (auto split: option.splits if_splits)

lemma mark_armed_dom [simp]: "dom (mark_armed i conns) = dom conns"
  by (auto simp: mark_armed_def split: option.splits)

lemma next_id: "checked_add (i :: u32) 1 = Some j \<Longrightarrow> i < j"
proof -
  assume "checked_add i 1 = Some j"
  then have "unat i < 2 ^ 32 - 1" "j = i + 1" by (simp_all add: checked_add_nat split: if_splits)
  then have "unat j = unat i + 1" by (simp add: unat_word_ariths)
  then show "i < j" by (simp add: word_less_nat_alt)
qed

lemma alloc_conn_id_inv:
  assumes "ids_inv self" "alloc_conn_id self = (Inr i, self')"
  shows "i \<notin> dom (p_conns self) \<and> p_conns self' = p_conns self \<and> ids_inv (self'\<lparr> p_conns := (p_conns self)(i \<mapsto> c) \<rparr>)"
proof (cases "p_free_ids self = {}")
  case True
  then obtain j where j: "checked_add (p_next_conn_id self) 1 = Some j" "i = p_next_conn_id self"
    "self' = self\<lparr> p_next_conn_id := j \<rparr>"
    using assms(2) by (auto simp: alloc_conn_id_def Let_def split: option.splits)
  have "i < j" using next_id j by simp
  then show ?thesis using assms(1) True j by (auto simp: ids_inv_def dest: less_trans)
next
  case False
  then have i: "i = Min (p_free_ids self)" "self' = self\<lparr> p_free_ids := p_free_ids self - {i} \<rparr>"
    using assms(2) by (auto simp: alloc_conn_id_def Let_def)
  have "i \<in> p_free_ids self" using Min_in False assms(1) by (simp add: i ids_inv_def)
  then show ?thesis using assms(1) i(2) by (auto simp: ids_inv_def)
qed

lemma alloc_conn_id_error: "alloc_conn_id self = (Inl e, self') \<Longrightarrow> self' = self"
  by (auto simp: alloc_conn_id_def Let_def split: if_splits option.splits)

lemma resolve_addr_world:
  assumes "pe_lookup P host port w = (l, w2)"
  shows "\<exists>r. resolve_addr P host port w = (r, w2)"
proof (cases l)
  case (Inr addrs)
  then show ?thesis using assms
    by (cases "find_v4 addrs"; cases "find_v6 addrs") (auto simp: resolve_addr_def)
qed (use assms in \<open>simp add: resolve_addr_def\<close>)

definition pool_inv :: "('w \<Rightarrow> u64 set) \<Rightarrow> ('w \<Rightarrow> bool) \<Rightarrow> Pool \<Rightarrow> 'w \<Rightarrow> bool" where
  "pool_inv open_fds sound self w = (ids_inv self \<and> fds_inv (p_conns self) (open_fds w) \<and> sound w)"

context pool_world
begin

abbreviation pinv :: "Pool \<Rightarrow> 'w \<Rightarrow> bool" where
  "pinv self w \<equiv> pool_inv open_fds sound self w"

lemma blocking_connect_open:
  assumes "blocking_connect P a w = (r, w1)"
  shows "ring w1 = ring w \<and> sound w1 = sound w
    \<and> (case r of None \<Rightarrow> open_fds w1 = open_fds w | Some fd \<Rightarrow> fd \<notin> open_fds w \<and> open_fds w1 = insert fd (open_fds w))"
proof -
  obtain q w2 where q: "pe_connect P a w = (q, w2)" by (cases "pe_connect P a w")
  show ?thesis using assms q connect_frame [OF q] connect_none [of a w w2] connect_new [of a w _ w2]
    by (cases q) (auto simp: blocking_connect_def)
qed

lemma dial_url_open:
  assumes "dial_url P url m w = (r, w1)"
  shows "sound w1 = sound w
    \<and> (case r of Inl e \<Rightarrow> open_fds w1 = open_fds w | Inr fd \<Rightarrow> fd \<notin> open_fds w \<and> open_fds w1 = insert fd (open_fds w))"
proof (cases "Url_parse url")
  case (Inr parsed)
  show ?thesis
  proof (cases "utf8_valid (url_host parsed)")
    case True
    obtain l w2 where l: "pe_lookup P (url_host parsed) (effective_port parsed) w = (l, w2)"
      by (cases "pe_lookup P (url_host parsed) (effective_port parsed) w")
    note f = lookup_frame [OF l]
    obtain ra where ra: "resolve_addr P (url_host parsed) (effective_port parsed) w = (ra, w2)"
      using resolve_addr_world [OF l] by blast
    show ?thesis
    proof (cases ra)
      case (Inl e)
      then show ?thesis using assms Inr True ra f by (auto simp: dial_url_def)
    next
      case ok: (Inr t)
      obtain q w3 where q: "blocking_connect_resolved P t w2 = (q, w3)" by (cases "blocking_connect_resolved P t w2")
      then obtain a where "blocking_connect P a w2 = (q, w3)"
        by (cases t) (auto simp: blocking_connect_resolved_def)
      from blocking_connect_open [OF this] show ?thesis
        using assms Inr True ra ok q f by (cases q) (auto simp: dial_url_def)
    qed
  qed (use assms Inr in \<open>auto simp: dial_url_def\<close>)
qed (use assms in \<open>auto simp: dial_url_def\<close>)

lemma pool_connect_inv:
  assumes "pinv self w" "pool_connect P self url w = (r, self', w1)"
  shows "pinv self' w1 \<and> (\<forall>h. r = Inr h \<longrightarrow> p_conns self (ch_conn_id h) = None \<and> ch_fd h \<notin> open_fds w)"
proof -
  obtain d w2 where d: "dial_url P url ''TCP connect failed'' w = (d, w2)" by (cases "dial_url P url ''TCP connect failed'' w")
  note o = dial_url_open [OF d]
  show ?thesis
  proof (cases d)
    case (Inl e)
    then show ?thesis using assms d o by (auto simp: pool_connect_def pool_inv_def)
  next
    case (Inr fd)
    obtain a s1 where a: "alloc_conn_id self = (a, s1)" by (cases "alloc_conn_id self")
    show ?thesis
    proof (cases a)
      case (Inl e)
      then show ?thesis using assms d o Inr a alloc_conn_id_error [of self e s1] fds_inv_more
        by (auto simp: pool_connect_def pool_inv_def)
    next
      case ok: (Inr i)
      let ?c = "\<lparr> cc_fd = fd, cc_recv_armed = False, cc_needs_reconnect = False, cc_url = url \<rparr>"
      have i: "i \<notin> dom (p_conns self)" "p_conns s1 = p_conns self" "ids_inv (s1\<lparr> p_conns := (p_conns self)(i \<mapsto> ?c) \<rparr>)"
        using alloc_conn_id_inv [of self i s1 ?c] assms(1) a ok by (auto simp: pool_inv_def)
      have "fds_inv ((p_conns self)(i \<mapsto> ?c)) (insert fd (open_fds w))"
        using assms(1) o Inr fds_inv_new [of "p_conns self" "open_fds w" ?c i] by (auto simp: pool_inv_def)
      then show ?thesis using assms d o Inr a ok i by (auto simp: pool_connect_def pool_inv_def)
    qed
  qed
qed

lemma pool_disconnect_inv:
  assumes "pinv self w"
  shows "pinv (fst (pool_disconnect P self h w)) (snd (pool_disconnect P self h w))"
proof (cases "p_conns self (ch_conn_id h)")
  case None
  then show ?thesis using assms by (simp add: pool_disconnect_def)
next
  case (Some c)
  have i: "ids_inv (self\<lparr> p_conns := (p_conns self)(ch_conn_id h := None), p_free_ids := insert (ch_conn_id h) (p_free_ids self) \<rparr>)"
    using assms Some by (auto simp: pool_inv_def ids_inv_def)
  show ?thesis
  proof (cases "cc_needs_reconnect c")
    case True
    then show ?thesis using assms Some i fds_inv_drop by (auto simp: pool_disconnect_def pool_inv_def)
  next
    case False
    moreover have "cc_fd c \<in> open_fds w" using assms Some False by (auto simp: pool_inv_def fds_inv_def)
    ultimately show ?thesis using assms Some i fds_inv_remove by (auto simp: pool_disconnect_def pool_inv_def)
  qed
qed

lemma mark_inv:
  assumes "pinv self w" "mark_connection_for_reconnect P self h w = (self', w1)"
  shows "pinv self' w1"
proof (cases "\<exists>c. p_conns self (ch_conn_id h) = Some c \<and> \<not> cc_needs_reconnect c")
  case True
  then obtain c where c: "p_conns self (ch_conn_id h) = Some c" "\<not> cc_needs_reconnect c" by blast
  let ?d = "c\<lparr> cc_fd := - 1, cc_recv_armed := False, cc_needs_reconnect := True \<rparr>"
  have "cc_fd c \<in> open_fds w" using assms(1) c by (auto simp: pool_inv_def fds_inv_def)
  moreover have "fds_inv ((p_conns self)(ch_conn_id h \<mapsto> ?d)) (open_fds w - {cc_fd c})"
    using assms(1) c by (intro fds_inv_down) (auto simp: pool_inv_def)
  moreover have "ids_inv (self\<lparr> p_conns := (p_conns self)(ch_conn_id h \<mapsto> ?d) \<rparr>)"
    using assms(1) c by (auto simp: pool_inv_def ids_inv_def)
  ultimately show ?thesis using assms c by (auto simp: mark_connection_for_reconnect_def pool_inv_def)
next
  case False
  then show ?thesis using assms by (auto simp: mark_connection_for_reconnect_def split: option.splits if_splits)
qed

lemma mark_failed_inv: "pinv self w \<Longrightarrow> mark_failed P self r w = (self', w1) \<Longrightarrow> pinv self' w1"
  using mark_inv by (cases r) (auto simp: mark_failed_def)

lemma stash_insert_inv [simp]: "pinv (stash_insert r self) w = pinv self w"
  by (simp add: stash_insert_def pool_inv_def ids_inv_def)

lemma stash_remove_inv [simp]: "pinv (snd (stash_remove i self)) w = pinv self w"
  by (simp add: stash_remove_def pool_inv_def ids_inv_def)

lemma pool_inv_steady: "pinv self w \<Longrightarrow> steady w w1 \<Longrightarrow> pinv self w1"
  by (simp add: pool_inv_def)

end

context pool_world
begin

lemma poll_loop_inv: "pinv self w \<Longrightarrow> poll_loop P self w = Some (self', w') \<Longrightarrow> pinv self' w'"
proof (induction "length (ring w)" arbitrary: self w rule: less_induct)
  case less
  obtain r w1 where p: "pe_pop_response P w = (r, w1)" by (cases "pe_pop_response P w")
  have i: "pinv self w1" using less.prems(1) pop_frame [OF p] by (simp add: pool_inv_def)
  show ?case
  proof (cases r)
    case None
    then show ?thesis using less.prems(2) p i by (simp add: poll_loop.simps [of P self w])
  next
    case (Some x)
    obtain s1 w2 where h: "mark_failed P self x w1 = (s1, w2)" by (cases "mark_failed P self x w1")
    have "length (ring w2) < length (ring w)" using pop_some [of w x w1] p Some mark_failed_frame [OF h] by simp
    moreover have "pinv (stash_insert x s1) w2" using mark_failed_inv [OF i h] by simp
    moreover have "poll_loop P (stash_insert x s1) w2 = Some (self', w')"
      using less.prems(2) p Some h by (simp add: poll_loop.simps [of P self w])
    ultimately show ?thesis using less.hyps by blast
  qed
qed

lemma pool_poll_inv: "pinv self w \<Longrightarrow> pool_poll P self i w = Some (r, self', w') \<Longrightarrow> pinv self' w'"
  using poll_loop_inv [of self w] stash_remove_inv [of i] by (fastforce simp: pool_poll_def split_def Let_def)

lemma pool_recv_inv: "pinv self w \<Longrightarrow> pool_recv P self i w = Some (r, self', w') \<Longrightarrow> pinv self' w'"
proof (induction "length (ring w)" arbitrary: self w rule: less_induct)
  case less
  show ?case
  proof (cases "p_stash self i")
    case (Some y)
    then show ?thesis using less.prems by (auto simp: pool_recv.simps [of P self i w])
  next
    case None
    obtain x w1 where p: "pe_pop_block P w = (x, w1)" by (cases "pe_pop_block P w")
    have iv: "pinv self w1" using less.prems(1) block_frame [OF p] by (simp add: pool_inv_def)
    show ?thesis
    proof (cases x)
      case x: None
      then show ?thesis using less.prems(2) p iv None by (auto simp: pool_recv.simps [of P self i w])
    next
      case (Some y)
      obtain s1 w2 where h: "mark_failed P self y w1 = (s1, w2)" by (cases "mark_failed P self y w1")
      note j = mark_failed_inv [OF iv h]
      have l: "length (ring w2) < length (ring w)" using block_some [of w y w1] p Some mark_failed_frame [OF h] by simp
      show ?thesis
      proof (cases "result_id y = i")
        case True
        then show ?thesis using less.prems(2) p Some None h j by (auto simp: pool_recv.simps [of P self i w])
      next
        case False
        then have "pool_recv P (stash_insert y s1) i w2 = Some (r, self', w')"
          using less.prems(2) p Some None h by (simp add: pool_recv.simps [of P self i w])
        then show ?thesis using less.hyps [OF l, of "stash_insert y s1"] j by simp
      qed
    qed
  qed
qed

lemma timeout_loop_inv: "pinv self w \<Longrightarrow> timeout_loop P self i w = Some (r, self', w') \<Longrightarrow> pinv self' w'"
proof (induction "length (ring w)" arbitrary: self w rule: less_induct)
  case less
  obtain x w1 where p: "pe_pop_block P w = (x, w1)" by (cases "pe_pop_block P w")
  have iv: "pinv self w1" using less.prems(1) block_frame [OF p] by (simp add: pool_inv_def)
  show ?case
  proof (cases "x = None \<or> x = Some CTimeout")
    case True
    then show ?thesis using less.prems(2) p iv by (auto simp: timeout_loop.simps [of P self i w])
  next
    case False
    then obtain y where y: "x = Some y" "y \<noteq> CTimeout" by auto
    obtain s1 w2 where h: "mark_failed P self y w1 = (s1, w2)" by (cases "mark_failed P self y w1")
    note j = mark_failed_inv [OF iv h]
    have l: "length (ring w2) < length (ring w)" using block_some [of w y w1] p y mark_failed_frame [OF h] by simp
    show ?thesis
    proof (cases "result_id y = i")
      case True
      then have "self' = s1" "w' = cancel_timeout P w2" using less.prems(2) p y h by (simp_all add: timeout_loop.simps [of P self i w])
      then show ?thesis using j pool_inv_steady cancel_timeout_steady by metis
    next
      case False
      then have "timeout_loop P (stash_insert y s1) i w2 = Some (r, self', w')"
        using less.prems(2) p y h by (simp add: timeout_loop.simps [of P self i w])
      then show ?thesis using less.hyps [OF l, of "stash_insert y s1"] j by simp
    qed
  qed
qed

lemma pool_recv_timeout_inv:
  assumes "pinv self w" "pool_recv_timeout P self i ms w = Some (r, self', w')"
  shows "pinv self' w'"
proof (cases "p_stash self i")
  case (Some y)
  then show ?thesis using assms by (auto simp: pool_recv_timeout_def)
next
  case None
  obtain t w1 where t: "pe_push_timeout P (timeout_millis ms) TIMEOUT_UD w = (t, w1)"
    by (cases "pe_push_timeout P (timeout_millis ms) TIMEOUT_UD w")
  have iv: "pinv self w1" using assms(1) timeout_frame [OF t] by (simp add: pool_inv_def)
  show ?thesis
  proof (cases t)
    case (Inl e)
    then show ?thesis using assms(2) None t pool_poll_inv [OF iv] by (auto simp: pool_recv_timeout_def)
  next
    case (Inr u)
    then have "timeout_loop P self i (snd (pe_submit P w1)) = Some (r, self', w')"
      using assms(2) None t by (simp add: pool_recv_timeout_def)
    then show ?thesis using timeout_loop_inv pool_inv_steady [OF iv submit_steady] by blast
  qed
qed

lemma flush_rearms_inv:
  "fds_inv conns (open_fds w) \<Longrightarrow> flush_rearms P ms conns w = (ms', conns', w')
   \<Longrightarrow> fds_inv conns' (open_fds w') \<and> dom conns' = dom conns \<and> steady w w'"
proof (induction ms arbitrary: conns w)
  case (Cons msg rest)
  obtain r w1 where r: "pe_push_recv P (rm_fd msg) (ud_recv (rm_fd msg) (rm_conn_id msg)) w = (r, w1)"
    by (cases "pe_push_recv P (rm_fd msg) (ud_recv (rm_fd msg) (rm_conn_id msg)) w")
  note f = recv_frame [OF r]
  show ?case
  proof (cases r)
    case (Inl e)
    then show ?thesis using Cons.prems r f by auto
  next
    case (Inr u)
    have "fds_inv (mark_armed (rm_conn_id msg) conns) (open_fds w1)" using mark_armed_inv Cons.prems(1) f by simp
    from Cons.IH [OF this] show ?thesis using Cons.prems(2) r f Inr by auto
  qed
qed simp

lemma collect_rearms_returns: "\<exists>ms w'. collect_rearms P pending w = Some (ms, w') \<and> steady w w'"
proof (induction "length (rearms w)" arbitrary: pending w rule: less_induct)
  case less
  obtain m w1 where m: "pe_pop_rearm P w = (m, w1)" by (cases "pe_pop_rearm P w")
  show ?case
  proof (cases m)
    case None
    then show ?thesis using m rearm_frame [OF m] by (subst collect_rearms.simps) simp
  next
    case (Some x)
    then have "length (rearms w1) < length (rearms w)" using rearm_some [of w x w1] m by simp
    from less [OF this, of "pending @ [x]"] show ?thesis
      using m Some rearm_frame [OF m] by (subst collect_rearms.simps) auto
  qed
qed

lemma drain_rearms_returns:
  assumes "pinv self w"
  shows "\<exists>self' w'. drain_rearms P self w = Some (self', w') \<and> pinv self' w' \<and> ring w' = ring w
    \<and> p_stash self' = p_stash self \<and> p_next_request_id self' = p_next_request_id self"
proof -
  obtain ms w1 where c: "collect_rearms P (p_pending_rearms self) w = Some (ms, w1)" "steady w w1"
    using collect_rearms_returns by blast
  obtain ms' conns' w2 where f: "flush_rearms P ms (p_conns self) w1 = (ms', conns', w2)"
    by (cases "flush_rearms P ms (p_conns self) w1") auto
  have "fds_inv (p_conns self) (open_fds w1)" using assms c(2) by (simp add: pool_inv_def)
  note g = flush_rearms_inv [OF this f]
  let ?s = "self\<lparr> p_pending_rearms := ms', p_conns := conns' \<rparr>"
  have "pinv ?s w2" using assms c(2) g by (auto simp: pool_inv_def ids_inv_def)
  moreover have "pinv ?s (snd (pe_submit P w2))" by (rule pool_inv_steady [OF calculation submit_steady])
  ultimately show ?thesis using c f g submit_steady [of w2] by (auto simp: drain_rearms_def)
qed

lemma reconnect_inv:
  assumes "pinv self w" "reconnect_if_needed P self i w = (r, self', w')"
  shows "pinv self' w'"
proof (cases "\<exists>c. p_conns self i = Some c \<and> cc_needs_reconnect c")
  case True
  then obtain c where c: "p_conns self i = Some c" "cc_needs_reconnect c" by blast
  obtain d w1 where d: "dial_url P (cc_url c) ''TCP reconnect failed'' w = (d, w1)"
    by (cases "dial_url P (cc_url c) ''TCP reconnect failed'' w")
  note o = dial_url_open [OF d]
  show ?thesis
  proof (cases d)
    case (Inl e)
    then show ?thesis using assms c d o by (auto simp: reconnect_if_needed_def pool_inv_def)
  next
    case (Inr fd)
    let ?d = "c\<lparr> cc_fd := fd, cc_recv_armed := False, cc_needs_reconnect := False \<rparr>"
    have "fds_inv ((p_conns self)(i \<mapsto> ?d)) (insert fd (open_fds w))"
      using assms(1) o Inr fds_inv_new [of "p_conns self" "open_fds w" ?d i] by (auto simp: pool_inv_def)
    moreover have "ids_inv (self\<lparr> p_conns := (p_conns self)(i \<mapsto> x) \<rparr>)" for x
      using assms(1) c by (auto simp: pool_inv_def ids_inv_def)
    ultimately show ?thesis using assms c d o Inr by (auto simp: reconnect_if_needed_def pool_inv_def)
  qed
next
  case False
  then show ?thesis using assms by (auto simp: reconnect_if_needed_def split: option.splits)
qed

lemma push_send_steady: "push_send P fd buf i rid w = (r, w') \<Longrightarrow> steady w w'"
proof -
  assume s: "push_send P fd buf i rid w = (r, w')"
  obtain a w1 where a: "pe_push_write P fd buf w = (a, w1)" by (cases "pe_push_write P fd buf w")
  show "steady w w'"
  proof (cases a)
    case (Inl e)
    then show ?thesis using s a write_frame [OF a] by (auto simp: push_send_def)
  next
    case (Inr p)
    let ?t = "\<lparr> tk_pending = p, tk_conn_id = i, tk_request_id = rid \<rparr>"
    obtain b w2 where b: "pe_push_ticket P ?t w1 = (b, w2)" by (cases "pe_push_ticket P ?t w1")
    show ?thesis using s a b Inr write_frame [OF a] ticket_frame [OF b] by (cases b) (auto simp: push_send_def)
  qed
qed

lemma pinv_armed: "pinv self w \<Longrightarrow> pinv (self\<lparr> p_conns := mark_armed i (p_conns self) \<rparr>) w"
  using mark_armed_inv by (auto simp: pool_inv_def ids_inv_def)

lemma arm_and_submit_inv:
  assumes "pinv self w" "arm_and_submit P self i fd armed rid w = (r, self', w')"
  shows "pinv self' w'"
proof -
  obtain a w1 where a: "pe_push_recv P fd (ud_recv fd i) w = (a, w1)" by (cases "pe_push_recv P fd (ud_recv fd i) w")
  have i1: "pinv self w1" using assms(1) recv_frame [OF a] by (simp add: pool_inv_def)
  note i2 = pinv_armed [OF i1, of i]
  have sub: "pinv s (snd (pe_submit P v))" if "pinv s v" for s v by (rule pool_inv_steady [OF that submit_steady])
  show ?thesis
    using assms a i1 i2 sub [OF assms(1)] sub [OF i2]
    by (cases armed; cases a; cases "pe_submit P w"; cases "pe_submit P w1")
       (auto simp: arm_and_submit_def split: sum.splits)
qed

lemma pool_request_inv:
  assumes "pinv self w" "pool_request P max_req self h m path q w = Some (r, self', w')"
  shows "pinv self' w'"
proof -
  obtain s1 w1 where d: "drain_rearms P self w = Some (s1, w1)" "pinv s1 w1"
    using drain_rearms_returns [OF assms(1)] by blast
  obtain rc s2 w2 where c: "reconnect_if_needed P s1 (ch_conn_id h) w1 = (rc, s2, w2)"
    by (cases "reconnect_if_needed P s1 (ch_conn_id h) w1") auto
  note i2 = reconnect_inv [OF d(2) c]
  show ?thesis
  proof (cases "\<exists>u x buf. rc = Inr u \<and> p_conns s2 (ch_conn_id h) = Some x \<and> build_send max_req x m path q = Inr buf")
    case True
    then obtain u x buf where b: "rc = Inr u" "p_conns s2 (ch_conn_id h) = Some x" "build_send max_req x m path q = Inr buf" by blast
    let ?rid = "ucast (p_next_request_id s2) :: u64" and ?s = "s2\<lparr> p_next_request_id := p_next_request_id s2 + 1 \<rparr>"
    obtain ps w3 where p: "push_send P (cc_fd x) buf (ch_conn_id h) ?rid w2 = (ps, w3)"
      by (cases "push_send P (cc_fd x) buf (ch_conn_id h) ?rid w2")
    have i3: "pinv ?s w3" using i2 push_send_steady [OF p] by (simp add: pool_inv_def ids_inv_def)
    show ?thesis using assms(2) d c b p i3 arm_and_submit_inv [OF i3]
      by (cases ps) (auto simp: pool_request_def Let_def)
  next
    case False
    then show ?thesis using assms(2) d c i2
      by (cases rc; cases "p_conns s2 (ch_conn_id h)") (auto simp: pool_request_def split: sum.splits)
  qed
qed

end

section \<open>Sequences of calls\<close>

datatype pool_op =
    PConnect bytes | PDisconnect ConnHandle | PRequest ConnHandle Method bytes "bytes option"
  | PPoll request_id | PRecv request_id | PRecvTimeout request_id nat

fun pool_perform :: "('w, 'v) pool_env \<Rightarrow> usize \<Rightarrow> pool_op \<Rightarrow> Pool \<times> 'w \<Rightarrow> (Pool \<times> 'w) option" where
  "pool_perform P max_req (PConnect url) (self, w) = Some (snd (pool_connect P self url w))"
| "pool_perform P max_req (PDisconnect h) (self, w) = Some (pool_disconnect P self h w)"
| "pool_perform P max_req (PRequest h m path q) (self, w) = map_option snd (pool_request P max_req self h m path q w)"
| "pool_perform P max_req (PPoll i) (self, w) = map_option snd (pool_poll P self i w)"
| "pool_perform P max_req (PRecv i) (self, w) = map_option snd (pool_recv P self i w)"
| "pool_perform P max_req (PRecvTimeout i ms) (self, w) = map_option snd (pool_recv_timeout P self i ms w)"

fun pool_calls :: "('w, 'v) pool_env \<Rightarrow> usize \<Rightarrow> pool_op list \<Rightarrow> Pool \<times> 'w \<Rightarrow> (Pool \<times> 'w) option" where
  "pool_calls P max_req [] s = Some s"
| "pool_calls P max_req (c # cs) s = Option.bind (pool_perform P max_req c s) (pool_calls P max_req cs)"

context pool_world
begin

lemma pool_perform_inv:
  assumes "pinv self w" "pool_perform P max_req c (self, w) = Some (self', w')"
  shows "pinv self' w'"
proof (cases c)
  case (PConnect url)
  obtain r s v where "pool_connect P self url w = (r, s, v)" by (cases "pool_connect P self url w") auto
  then show ?thesis using pool_connect_inv [OF assms(1)] assms(2) PConnect by auto
next
  case (PDisconnect h)
  then show ?thesis using pool_disconnect_inv [OF assms(1), of h] assms(2) by auto
next
  case (PRequest h m path q)
  then show ?thesis using pool_request_inv [OF assms(1), of max_req h m path q] assms(2) by auto
next
  case (PPoll i)
  then show ?thesis using pool_poll_inv [OF assms(1), of i] assms(2) by auto
next
  case (PRecv i)
  then show ?thesis using pool_recv_inv [OF assms(1), of i] assms(2) by auto
next
  case (PRecvTimeout i ms)
  then show ?thesis using pool_recv_timeout_inv [OF assms(1), of i ms] assms(2) by auto
qed

lemma pool_calls_inv:
  "pinv self w \<Longrightarrow> pool_calls P max_req cs (self, w) = Some (self', w') \<Longrightarrow> pinv self' w'"
proof (induction cs arbitrary: self w)
  case (Cons c cs)
  from Cons.prems(2) obtain s1 w1 where "pool_perform P max_req c (self, w) = Some (s1, w1)"
    "pool_calls P max_req cs (s1, w1) = Some (self', w')"
    by (auto simp: bind_eq_Some_conv)
  then show ?case using Cons.IH pool_perform_inv [OF Cons.prems(1)] by blast
qed simp

end

text \<open>
  C7: the pool owns what it closes. Over every sequence of calls of a new pool (connects,
  disconnects, requests with their reconnects, and the three ways to take results, in any order and
  with any handles, stale ones included) the ids of live connections and the ids to be used
  again stay disjoint and below the counter, every live connection that is not marked for
  reconnect has an open descriptor of its own, and no descriptor is closed that is not open:
  the ownership that the unsafe construction of an \<^verbatim>\<open>OwnedFd\<close> relies on.
\<close>

theorem pool_owns_descriptors:
  assumes "pool_world P ring open_fds sound rearms" "sound w"
    and "pool_calls P max_req cs (Pool_new, w) = Some (self', w')"
  shows "ids_inv self' \<and> fds_inv (p_conns self') (open_fds w') \<and> sound w'"
proof -
  have "pool_inv open_fds sound Pool_new w"
    using assms(2) by (simp add: pool_inv_def ids_inv_def fds_inv_def Pool_new_def)
  from pool_world.pool_calls_inv [OF assms(1) this assms(3)] show ?thesis by (simp add: pool_inv_def)
qed

text \<open>
  C9: a caller gets its own result. A blocking receive for a request returns a result kept for it
  at once; otherwise it takes results off the ring up to the first that is for this request
  and returns that one, and the results before it are kept under their own ids (a later one
  replacing an earlier one of the same id); if the ring ends first it reports that the thread
  has exited. It always returns when the results to come are finite.
\<close>

theorem recv_gets_own_result:
  assumes "pool_world P ring open_fds sound rearms"
  shows "case p_stash self rid of
      Some r \<Rightarrow> pool_recv P self rid w = Some (Inr r, self\<lparr> p_stash := (p_stash self)(rid := None) \<rparr>, w)
    | None \<Rightarrow> \<exists>self' w'.
        (case dropWhile (\<lambda>r. result_id r \<noteq> rid) (ring w) of
           r # rest \<Rightarrow> pool_recv P self rid w = Some (Inr r, self', w') \<and> ring w' = rest
         | [] \<Rightarrow> pool_recv P self rid w = Some (Inl (other_error ''complete thread exited unexpectedly''), self', w')
             \<and> ring w' = [])
        \<and> p_stash self' = stashed (p_stash self) (takeWhile (\<lambda>r. result_id r \<noteq> rid) (ring w))"
proof (cases "p_stash self rid")
  case None
  then show ?thesis using pool_world.pool_recv_returns [OF assms None, of w] by simp
next
  case (Some r)
  then show ?thesis by (subst pool_recv.simps) (simp add: stash_remove_def)
qed

text \<open>
  Polling keeps every result. A poll takes some first part of the results to come and returns
  what is then kept for the request; of what it took, every other result stays kept under its id,
  so that a later call for that id does not wait.
\<close>

theorem poll_keeps_results:
  assumes "pool_world P ring open_fds sound rearms"
  shows "\<exists>self' w' taken. ring w = taken @ ring w'
    \<and> pool_poll P self rid w = Some (stashed (p_stash self) taken rid, self', w')
    \<and> p_stash self' = (stashed (p_stash self) taken)(rid := None)
    \<and> (\<forall>r\<in>set taken. result_id r \<noteq> rid \<longrightarrow> p_stash self' (result_id r) \<noteq> None)"
proof -
  obtain s1 w1 taken where t: "poll_loop P self w = Some (s1, w1)" "ring w = taken @ ring w1"
    "p_stash s1 = stashed (p_stash self) taken"
    using pool_world.poll_loop_returns [OF assms, of self w] by blast
  then show ?thesis using stashed_mem [of _ taken "p_stash self"]
    by (intro exI [of _ "s1\<lparr> p_stash := (p_stash s1)(rid := None) \<rparr>"] exI [of _ w1] exI [of _ taken])
       (auto simp: pool_poll_def stash_remove_def)
qed

section \<open>A scripted world\<close>

record pworld =
  pw_ring :: "ConnResult list"
  pw_open :: "u64 set"
  pw_sound :: bool
  pw_rearms :: "RearmMsg list"
  pw_fds :: "u64 list"
  pw_written :: "(u64 \<times> bytes) list"

definition pw_lookup :: "bytes \<Rightarrow> u16 \<Rightarrow> pworld \<Rightarrow> (string + unit socket_addr list) \<times> pworld" where
  "pw_lookup host port w = (Inr [V6 (), V4 0x7f000001 port], w)"

definition pw_connect :: "unit socket_addr \<Rightarrow> pworld \<Rightarrow> u64 option \<times> pworld" where
  "pw_connect a w =
     (case pw_fds w of
        [] \<Rightarrow> (None, w)
      | fd # fds \<Rightarrow>
          if fd \<in> pw_open w then (None, w\<lparr> pw_fds := fds \<rparr>)
          else (Some fd, w\<lparr> pw_fds := fds, pw_open := insert fd (pw_open w) \<rparr>))"

definition pw_nodelay :: "u64 \<Rightarrow> pworld \<Rightarrow> pworld" where
  "pw_nodelay fd w = w"

definition pw_close :: "u64 \<Rightarrow> pworld \<Rightarrow> pworld" where
  "pw_close fd w = w\<lparr> pw_sound := (pw_sound w \<and> fd \<in> pw_open w), pw_open := pw_open w - {fd} \<rparr>"

definition pw_write :: "u64 \<Rightarrow> bytes \<Rightarrow> pworld \<Rightarrow> (string + u64) \<times> pworld" where
  "pw_write fd d w = (Inr (of_nat (length (pw_written w))), w\<lparr> pw_written := pw_written w @ [(fd, d)] \<rparr>)"

definition pw_ok :: "'a \<Rightarrow> 'b \<Rightarrow> pworld \<Rightarrow> (string + unit) \<times> pworld" where
  "pw_ok a b w = (Inr (), w)"

definition pw_ticket :: "SendTicket \<Rightarrow> pworld \<Rightarrow> bool \<times> pworld" where
  "pw_ticket t w = (True, w)"

definition pw_submit :: "pworld \<Rightarrow> (string + unit) \<times> pworld" where
  "pw_submit w = (Inr (), w)"

definition pw_pop :: "pworld \<Rightarrow> ConnResult option \<times> pworld" where
  "pw_pop w = (case pw_ring w of [] \<Rightarrow> (None, w) | r # rs \<Rightarrow> (Some r, w\<lparr> pw_ring := rs \<rparr>))"

definition pw_pop_rearm :: "pworld \<Rightarrow> RearmMsg option \<times> pworld" where
  "pw_pop_rearm w = (case pw_rearms w of [] \<Rightarrow> (None, w) | m # ms \<Rightarrow> (Some m, w\<lparr> pw_rearms := ms \<rparr>))"

definition pw_join :: "pworld \<Rightarrow> pworld" where
  "pw_join w = w"

definition scripted_pool :: "(pworld, unit) pool_env" where
  "scripted_pool =
     \<lparr> pe_lookup = pw_lookup, pe_connect = pw_connect, pe_set_nodelay = pw_nodelay, pe_close = pw_close,
       pe_push_write = pw_write, pe_push_ticket = pw_ticket, pe_push_recv = pw_ok, pe_push_timeout = pw_ok,
       pe_push_timeout_remove = pw_ok, pe_push_nop = pw_nodelay, pe_submit = pw_submit,
       pe_pop_response = pw_pop, pe_pop_block = pw_pop, pe_pop_rearm = pw_pop_rearm, pe_join = pw_join \<rparr>"

lemmas scripted_pool_defs = scripted_pool_def pw_lookup_def pw_connect_def pw_nodelay_def pw_close_def pw_write_def
  pw_ticket_def pw_ok_def pw_submit_def pw_pop_def pw_pop_rearm_def pw_join_def

interpretation scripted_pool_world: pool_world scripted_pool pw_ring pw_open pw_sound pw_rearms
  by unfold_locales (auto simp: scripted_pool_defs split: list.splits if_splits)

definition pool_start :: pworld where
  "pool_start = \<lparr> pw_ring = [CError 1 \<lparr> ch_conn_id = 0, ch_fd = 5 \<rparr> 104, CTimeout], pw_open = {}, pw_sound = True,
     pw_rearms = [], pw_fds = [5, 6], pw_written = [] \<rparr>"

definition sample_calls :: "pool_op list" where
  "sample_calls = [PConnect (bs ''http://h/''), PRecv 1, PDisconnect \<lparr> ch_conn_id = 0, ch_fd = 5 \<rparr>,
     PDisconnect \<lparr> ch_conn_id = 0, ch_fd = 5 \<rparr>, PConnect (bs ''http://h/'')]"

lemma sample_calls_return:
  "\<exists>self' w'. pool_calls scripted_pool 64 sample_calls (Pool_new, pool_start) = Some (self', w') \<and> pw_open w' = {6}"
proof -
  have "case pool_calls scripted_pool 64 sample_calls (Pool_new, pool_start) of
      Some (self', w') \<Rightarrow> pw_open w' = {6} | None \<Rightarrow> False"
    by code_simp
  then show ?thesis by (auto split: option.splits)
qed

theorem pool_owns_descriptors_witness:
  "\<exists>self' w'. pool_calls scripted_pool 64 sample_calls (Pool_new, pool_start) = Some (self', w')
    \<and> pw_open w' = {6} \<and> pw_sound w'"
proof -
  obtain self' w' where c: "pool_calls scripted_pool 64 sample_calls (Pool_new, pool_start) = Some (self', w')" "pw_open w' = {6}"
    using sample_calls_return by blast
  have "pw_sound pool_start" by (simp add: pool_start_def)
  from pool_owns_descriptors [OF scripted_pool_world.pool_world_axioms this c(1)] c show ?thesis by blast
qed

theorem recv_gets_own_result_witness:
  "\<exists>self' w'. pool_recv scripted_pool Pool_new 1 pool_start
      = Some (Inr (CError 1 \<lparr> ch_conn_id = 0, ch_fd = 5 \<rparr> 104), self', w') \<and> pw_ring w' = [CTimeout]"
  using recv_gets_own_result [OF scripted_pool_world.pool_world_axioms, of Pool_new 1 pool_start]
  by (auto simp: Pool_new_def pool_start_def result_id_def)

theorem poll_keeps_results_witness:
  "\<exists>r self' w'. pool_poll scripted_pool Pool_new 1 pool_start = Some (r, self', w')"
  using poll_keeps_results [OF scripted_pool_world.pool_world_axioms, of pool_start Pool_new 1] by blast

section \<open>Addresses\<close>

lemma swap16_twice: "swap16 (swap16 x) = x"
  by (rule bit_word_eqI) (auto simp: swap16_def bit_simps)

lemma bit_ff00: "bit (0xff00 :: u32) n \<longleftrightarrow> 8 \<le> n \<and> n < 16"
proof -
  have "(0xff00 :: u32) = push_bit 8 (mask 8)" by (simp add: mask_eq_exp_minus_1 push_bit_eq_mult)
  then show ?thesis by (simp only: bit_push_bit_iff bit_mask_iff) auto
qed

lemma swap32_bit: "n < 32 \<Longrightarrow> bit (swap32 x) n = bit x (if n < 8 then n + 24 else if n < 16 then n + 8 else if n < 24 then n - 8 else n - 24)"
  unfolding swap32_def bit_or_iff bit_and_iff bit_push_bit_iff bit_drop_bit_eq o_def bit_ff00
  by (auto simp: add.commute dest: bit_imp_le_length)

lemma swap32_twice: "swap32 (swap32 x) = x"
  by (rule bit_word_eqI) (auto simp: swap32_bit)

text \<open>The address that is dialled is one that was looked up, and an IPv4 one if there is one.\<close>

lemma find_v4_Some: "find_v4 addrs = Some (ip, p) \<Longrightarrow> V4 ip p \<in> set addrs"
  by (induction addrs rule: find_v4.induct) auto

lemma find_v4_None: "find_v4 addrs = None \<Longrightarrow> V4 ip p \<notin> set addrs"
  by (induction addrs rule: find_v4.induct) auto

lemma find_v6_Some: "find_v6 addrs = Some a \<Longrightarrow> V6 a \<in> set addrs"
  by (induction addrs rule: find_v6.induct) auto

lemma dials_looked_up_address:
  assumes "pe_lookup P h p w = (Inr addrs, w1)" "resolve_addr P h p w = (Inr t, w2)"
  shows "w2 = w1 \<and> (\<exists>a\<in>set addrs. blocking_connect_resolved P t = blocking_connect P a
    \<and> ((\<exists>ip q. V4 ip q \<in> set addrs) \<longrightarrow> (\<exists>ip q. a = V4 ip q)))"
proof (cases "find_v4 addrs")
  case (Some x)
  obtain ip q where x: "x = (ip, q)" by (cases x)
  have t: "t = RV4 \<lparr> sin_family = 2, sin_port = swap16 q, sin_addr = swap32 ip \<rparr>" "w2 = w1"
    using assms Some x by (auto simp: resolve_addr_def)
  have "blocking_connect_resolved P t = blocking_connect P (V4 ip q)"
    by (rule ext) (simp add: t blocking_connect_resolved_def swap16_twice swap32_twice)
  then show ?thesis using t(2) find_v4_Some [of addrs ip q] Some x by auto
next
  case None
  then obtain a where a: "find_v6 addrs = Some a" "t = RV6 a" "w2 = w1"
    using assms by (cases "find_v6 addrs") (auto simp: resolve_addr_def)
  have "blocking_connect_resolved P t = blocking_connect P (V6 a)"
    by (rule ext) (simp add: a blocking_connect_resolved_def)
  then show ?thesis using a find_v6_Some [OF a(1)] find_v4_None [OF None] by blast
qed

section \<open>Limits\<close>

text \<open>A timeout that fired after its wait was over ends the next wait at once.\<close>

lemma stale_timeout_ends_wait:
  assumes "pool_world P ring open_fds sound rearms" "p_stash self rid = None" "ring w = CTimeout # rest"
    and "pe_push_timeout P (timeout_millis millis) TIMEOUT_UD w = (Inr u, w1)"
  shows "\<exists>w'. pool_recv_timeout P self rid millis w = Some (Inr None, self, w') \<and> ring w' = rest"
proof -
  have r: "ring (snd (pe_submit P w1)) = CTimeout # rest"
    using pool_world.submit_steady [OF assms(1), of w1] pool_world.timeout_frame [OF assms(1,4)] assms(3) by simp
  obtain x w2 where p: "pe_pop_block P (snd (pe_submit P w1)) = (x, w2)" by (cases "pe_pop_block P (snd (pe_submit P w1))")
  then have x: "x = Some CTimeout" "ring w2 = rest"
    using pool_world.block_some [OF assms(1)] pool_world.block_none [OF assms(1)] r by (cases x; fastforce)+
  then show ?thesis using assms(2,4) p by (simp add: pool_recv_timeout_def timeout_loop.simps)
qed

text \<open>The pool hands the bracketed literal of an IPv6 address to the resolver.\<close>

lemma ipv6_literal_is_bracketed:
  "case Url_parse (bs ''http://[::1]/'') of
     Inr parsed \<Rightarrow> url_host parsed = bs ''[::1]'' \<and> connection_host parsed = bs ''::1'' | Inl _ \<Rightarrow> False"
  by code_simp

lemma ipv6_dial_fails:
  assumes "pe_lookup P (bs ''[::1]'') 80 w = (Inl e, w1)"
  shows "dial_url P (bs ''http://[::1]/'') m w = (Inl (other_error (''DNS resolution failed: '' @ e)), w1)"
proof -
  obtain parsed where p: "Url_parse (bs ''http://[::1]/'') = Inr parsed" "url_host parsed = bs ''[::1]''"
    using ipv6_literal_is_bracketed by (auto split: sum.splits)
  have q: "case Url_parse (bs ''http://[::1]/'') of
     Inr parsed \<Rightarrow> effective_port parsed = 80 \<and> utf8_valid (url_host parsed) | Inl _ \<Rightarrow> False"
    by code_simp
  then have "effective_port parsed = 80" "utf8_valid (url_host parsed)" using p by simp_all
  then show ?thesis using p assms by (simp add: dial_url_def resolve_addr_def)
qed

end
