(* ===== verification/Spec2Isabelle.thy ===== *)
theory Spec2Isabelle
  imports Header_Range Chunked_Bounds Reader_Session Async_Client Dial Pool_World
begin

text \<open>
  A verification development of \<^verbatim>\<open>xibalba\<close>, an HTTP/1.1 client in Rust. The program has three crates:
  \<^verbatim>\<open>xibalba-proto\<close> parses and writes the protocol without doing I/O, \<^verbatim>\<open>xibalba-client\<close> drives a
  connection with it, blocking or on a thread of its own, and \<^verbatim>\<open>xibalba-iouring\<close> is a connection
  pool over io_uring.

  \<^bold>\<open>How the code is modelled.\<close> Bytes are \<open>8 word\<close>, the integers of the code keep their width where
  they can wrap (\<open>u16\<close>, \<open>u32\<close>, \<open>u64\<close>), lengths and indices (\<^verbatim>\<open>usize\<close>) are \<open>nat\<close>. A \<^verbatim>\<open>Result\<close> is a sum with
  the error on the left, and the errors are the code's own types (\<open>Wire_Error\<close>). A borrowed slice is
  the list it denotes; where the code depends on addresses (\<open>Header_Range\<close>) slices carry them.
  Mutable state is passed and returned. What the operating system, other threads and the packages
  \<^verbatim>\<open>quetzalcoatl\<close> and \<^verbatim>\<open>ququmatz\<close> do is a record of operations on an abstract world
  (\<open>Io_World.env\<close>, \<open>Delivery.aenv\<close>, \<open>Async_Client.callers\<close>, \<open>Dial.tcp\<close>, \<open>Driver_Thread.uring\<close>,
  \<open>Driver_Pool.pool_env\<close>); what is relied on of them is stated by locales, each interpreted on a scripted world that the examples run in.
  A loop without a bound in the source is a \<open>partial_function\<close> whose \<open>None\<close> is that it does not
  return, and each is proved to return; no fuel is used.

  \<^bold>\<open>The protocol crate.\<close>
  \<^item> \<open>Prelude\<close>: types, results and list facts that the other theories share; \<open>Bytes\<close> (\<^verbatim>\<open>bytes.rs\<close>),
    \<open>Wire_Error\<close> (\<^verbatim>\<open>error.rs\<close>), \<open>Tokens\<close> (\<^verbatim>\<open>scheme.rs\<close>, \<^verbatim>\<open>version.rs\<close>, \<^verbatim>\<open>method.rs\<close>, \<^verbatim>\<open>status.rs\<close>),
    \<open>Header_Name\<close> (\<^verbatim>\<open>header.rs\<close>): renderings and parsers are inverse, header names compare without case.
  \<^item> \<open>Framing\<close> (\<^verbatim>\<open>response/coding.rs\<close>, \<^verbatim>\<open>framing.rs\<close>): which body a head announces, and that no head can
    be framed in two ways.
  \<^item> \<open>Response_Head\<close>, \<open>Head_Grammar\<close> (\<^verbatim>\<open>response/head.rs\<close>): the head parser accepts exactly the grammar
    of a head and is stable under more input; \<open>Header_Range\<close> (\<^verbatim>\<open>ranges.rs\<close>): stored ranges read back
    the headers.
  \<^item> \<open>Chunked\<close> (\<^verbatim>\<open>response/chunked.rs\<close>), \<open>Chunked_Spec\<close>, \<open>Chunked_Session\<close>, \<open>Chunked_Bounds\<close>: the decoder
    as written; a reference decoder that takes one byte at a time; that the decoder refines it,
    that results do not depend on how the input is cut, that calls make progress, and that what a
    peer can make it hold is bounded.
  \<^item> \<open>Request\<close> (\<^verbatim>\<open>request.rs\<close>): what is written is exactly the validated request, and reads back as it.
  \<^item> \<open>Url\<close>, \<open>Url_Host\<close>, \<open>Url_Grammar\<close> (\<^verbatim>\<open>url.rs\<close>): the URL parser and its grammar.

  \<^bold>\<open>The client crate.\<close>
  \<^item> \<open>Origin\<close>, \<open>Params\<close>, \<open>Reference\<close>, \<open>Redirect\<close>, \<open>Reuse\<close> (\<^verbatim>\<open>origin.rs\<close>, \<^verbatim>\<open>params.rs\<close>, \<^verbatim>\<open>reference.rs\<close>,
    \<^verbatim>\<open>redirect.rs\<close>, \<^verbatim>\<open>reuse.rs\<close>): the decisions of the client, among them that a redirect never carries
    credentials to another origin.
  \<^item> \<open>Io_World\<close> (\<^verbatim>\<open>tick.rs\<close>, \<^verbatim>\<open>interrupt.rs\<close>), \<open>Deadline\<close> (\<^verbatim>\<open>deadline.rs\<close>, \<^verbatim>\<open>config.rs\<close>, the deadline of
    \<^verbatim>\<open>silence.rs\<close>), \<open>Budgets\<close> (\<^verbatim>\<open>silence.rs\<close>, \<^verbatim>\<open>write_budget.rs\<close>): the world and budgeted reads and
    writes, which return whatever the peer does because a tick is never shorter than a millisecond.
  \<^item> \<open>Head_Reader\<close> (\<^verbatim>\<open>response/head.rs\<close>), \<open>Body_Collector\<close> (\<^verbatim>\<open>body/collect.rs\<close>), \<open>Streaming\<close>
    (\<^verbatim>\<open>body/streaming.rs\<close>): heads and bodies off a connection, against the body that the framing cuts
    out of the stream.
  \<^item> \<open>Client\<close> (\<^verbatim>\<open>client.rs\<close>, \<^verbatim>\<open>response/public.rs\<close>), \<open>Client_Session\<close>: the blocking client. A connection
    that it calls clean is in step: complete requests went out and exactly their complete
    responses were read.
  \<^item> \<open>Frame\<close>: what the client's operations leave alone, for any relation kept by the calls of the
    environment.
  \<^item> \<open>Delivery\<close> (\<^verbatim>\<open>delivery.rs\<close>), \<open>Control\<close> (\<^verbatim>\<open>control.rs\<close>), \<open>Reader\<close> (\<^verbatim>\<open>reader.rs\<close>), \<open>Reader_Session\<close>: the
    reader thread. While a request is on the wire the client runs in an environment whose
    interrupt is the control queue. Each request receives its own reply, none is lost, and the
    thread ends when its callers do. This relies on the callers being fair: they stop submitting
    at some time, and read or drop a ring that is full.
  \<^item> \<open>Admission\<close> (\<^verbatim>\<open>admission.rs\<close>): the permit counter under every interleaving. \<open>Async_Client\<close>
    (\<^verbatim>\<open>async_client.rs\<close>): the callers' side. \<open>Dial\<close> (\<^verbatim>\<open>dial.rs\<close>, \<^verbatim>\<open>plain.rs\<close>): opening a connection.

  \<^bold>\<open>The io_uring crate\<close> (\<^verbatim>\<open>driver.rs\<close>).
  \<^item> \<open>Driver_Parser\<close>: the tags of ring entries, and the push parser of one connection, which answers
    what a reference reads off the whole stream, however the kernel cuts it. A panic is \<open>None\<close>;
    the only one is \<^verbatim>\<open>Vec::reserve\<close> on an announced body of \<open>2 ^ 63\<close> bytes or more.
  \<^item> \<open>Driver_Complete\<close>: the queue and the buffers of one connection (locale \<open>fifo_connection\<close>). Responses
    answer the requests in order under every interleaving of sends and received bytes; two theorems
    show where the code falls short: a pipelined response can be left behind, and after a failed receive
    the queue is out of step.
  \<^item> \<open>Driver_Thread\<close>: the completion thread over a ring (locale \<open>uring_world\<close>): it stops when told to and
    keeps connections apart.
  \<^item> \<open>Driver_Pool\<close>, \<open>Pool_World\<close>: the pool (locale \<open>pool_world\<close>): ids and descriptors are owned by one
    connection each, nothing is closed twice, and every result goes to the call that asks for it.
    The pool and the thread are modelled apart, joined by the two queues between them: the results
    the thread pushes are the ring the pool reads.

  \<^bold>\<open>Not modelled.\<close> The memory ordering of the atomics: an execution is an interleaving of them. The
  interior of the rings, of TLS, of sockets and of name resolution, which other packages provide.
  Allocation, apart from the panic of \<^verbatim>\<open>reserve\<close> above: buffer reuse has no effect on values. The set-up of
  the ring in \<^verbatim>\<open>Pool::new\<close>. \<^verbatim>\<open>Debug\<close> output. The traits of
  \<^verbatim>\<open>connector.rs\<close>, the shim \<^verbatim>\<open>sync.rs\<close> and the crate roots have no behaviour of their own. The
  benchmarks, fuzz targets, examples and tests are not part of the program.
\<close>

end
